(* ===== verification/LC_Prelude.thy ===== *)
theory LC_Prelude
  imports Main "HOL-Library.Word"
begin

text \<open>
  Shared vocabulary of the development: the faults a C program can run into, the result
  type that carries them, and the arithmetic of the unsigned C integers that the code
  keeps at 32 and 64 bits. The generic lemmas on results are simp rules, so that a
  handler that is a chain of calls unfolds by \<open>simp\<close>.
\<close>

named_theorems lc_defs "definitions a component proof unfolds"

subsection \<open>Faults and results\<close>

text \<open>
  A call either returns a value (\<open>Inr\<close>) or stops the process. The asserts of the code
  are compiled in (the Makefile never sets NDEBUG), so a failed assert is a fault, like
  a NULL dereference, an access past an object or to an object that was freed.
\<close>

datatype cfault =
    Assert_failed
  | Null_deref
  | Out_of_bounds
  | Use_after_free
  | Bad_free
  | Int_overflow
  | Division_by_zero
  | Diverges

type_synonym 'a res = "cfault + 'a"

definition rbind :: "'a res \<Rightarrow> ('a \<Rightarrow> 'b res) \<Rightarrow> 'b res" where
  "rbind r f = (case r of Inl e \<Rightarrow> Inl e | Inr x \<Rightarrow> f x)"

definition rassert :: "bool \<Rightarrow> unit res" where
  "rassert b = (if b then Inr () else Inl Assert_failed)"

lemma rbind_Inr [simp]: "rbind (Inr x) f = f x"
  by (simp add: rbind_def)

lemma rbind_Inl [simp]: "rbind (Inl e) f = Inl e"
  by (simp add: rbind_def)

lemma rbind_eq_Inr_iff: "rbind r f = Inr y \<longleftrightarrow> (\<exists>x. r = Inr x \<and> f x = Inr y)"
  by (cases r) simp_all

lemma rbind_InrE:
  assumes "rbind r f = Inr y"
  obtains x where "r = Inr x" and "f x = Inr y"
  using assms by (auto simp: rbind_eq_Inr_iff)

lemma rassert_True [simp]: "rassert True = Inr ()"
  by (simp add: rassert_def)

lemma rassert_eq_Inr_iff [simp]: "rassert b = Inr u \<longleftrightarrow> b"
  by (simp add: rassert_def)

lemma rbind_assoc: "rbind (rbind r f) g = rbind r (\<lambda>x. rbind (f x) g)"
  by (cases r) simp_all

subsection \<open>Unsigned integers of the code\<close>

text \<open>
  Counters and sizes are natural numbers; where the C expression is computed in
  \<open>unsigned int\<close> or \<open>uint64_t\<close> the reduction is written out.
\<close>

type_synonym byte = "8 word"

definition u32 :: "nat \<Rightarrow> nat" where
  "u32 n = n mod 2 ^ 32"

definition u64 :: "nat \<Rightarrow> nat" where
  "u64 n = n mod 2 ^ 64"

text \<open>\<open>a - b\<close> in \<open>uint64_t\<close> and \<open>--a\<close> in \<open>unsigned int\<close>.\<close>

definition sub64 :: "nat \<Rightarrow> nat \<Rightarrow> nat" where
  "sub64 a b = u64 (u64 a + (2 ^ 64 - u64 b))"

definition dec32 :: "nat \<Rightarrow> nat" where
  "dec32 n = u32 (n + (2 ^ 32 - 1))"

lemma u32_id [simp]: "n < 2 ^ 32 \<Longrightarrow> u32 n = n"
  by (simp add: u32_def)

lemma u64_id [simp]: "n < 2 ^ 64 \<Longrightarrow> u64 n = n"
  by (simp add: u64_def)

lemma sub64_id: "b \<le> a \<Longrightarrow> a < 2 ^ 64 \<Longrightarrow> sub64 a b = a - b"
proof -
  assume ba: "b \<le> a" and a: "a < 2 ^ 64"
  have "a + (2 ^ 64 - b) = (a - b) + 2 ^ 64" using ba a by simp
  then have "(a + (2 ^ 64 - b)) mod 2 ^ 64 = (a - b) mod 2 ^ 64" by simp
  with ba a show ?thesis by (simp add: sub64_def u64_def)
qed

lemma dec32_id: "0 < n \<Longrightarrow> n \<le> 2 ^ 32 \<Longrightarrow> dec32 n = n - 1"
proof -
  assume n: "0 < n" "n \<le> 2 ^ 32"
  then have "n + (2 ^ 32 - 1) = (n - 1) + 2 ^ 32" by simp
  then have "(n + (2 ^ 32 - 1)) mod 2 ^ 32 = (n - 1) mod 2 ^ 32" by (metis mod_add_self2)
  with n show ?thesis by (simp add: dec32_def u32_def)
qed

subsection \<open>Lists\<close>

lemma nth_list_update_if:
  "i < length xs \<Longrightarrow> xs[i := x] ! j = (if i = j then x else xs ! j)"
  by simp

lemma find_append: "find P (xs @ ys) = (case find P xs of None \<Rightarrow> find P ys | Some x \<Rightarrow> Some x)"
  by (induction xs) auto

lemma find_SomeE:
  assumes "find P xs = Some x"
  obtains us vs where "xs = us @ x # vs" and "find P us = None" and "P x"
proof -
  from assms have "\<exists>us vs. xs = us @ x # vs \<and> find P us = None \<and> P x"
  proof (induction xs)
    case (Cons y ys)
    show ?case
    proof (cases "P y")
      case True
      with Cons.prems have "y # ys = [] @ x # ys \<and> find P [] = None \<and> P x" by simp
      then show ?thesis by blast
    next
      case False
      with Cons obtain us vs where "ys = us @ x # vs" "find P us = None" "P x" by auto
      with False have "y # ys = (y # us) @ x # vs \<and> find P (y # us) = None \<and> P x" by simp
      then show ?thesis by blast
    qed
  qed simp
  with that show thesis by blast
qed

lemma distinct_last_notin_butlast:
  "distinct xs \<Longrightarrow> xs \<noteq> [] \<Longrightarrow> last xs \<notin> set (butlast xs)"
  by (metis append_butlast_last_id distinct_append disjoint_iff list.set_intros(1))

end
