(* ===== verification/Bitset.thy ===== *)
theory Bitset
  imports LC_Prelude
begin

text \<open>
  The bit set of \<open>src/slab.c\<close>: an array of 64-bit words in which a set bit marks a free
  chunk of a slab, with \<open>set_bit\<close>, \<open>clear_bit\<close>, \<open>get_bit\<close> and the search for the first
  set bit. The search finds the lowest set bit of a word by a De Bruijn multiplication
  and a table; \<open>nlz64_correct\<close> shows that the table is right for every non-zero word.
\<close>

unbundle bit_operations_syntax

subsection \<open>Constants\<close>

definition SLAB_SIZE :: nat where
  "SLAB_SIZE = 1024 * 1024"

definition MIN_SLAB_CHUNK_SIZE :: nat where
  "MIN_SLAB_CHUNK_SIZE = 20"

definition CHUNK_ALIGN_BYTES :: nat where
  "CHUNK_ALIGN_BYTES = 8"

definition WORD_SIZE_IN_BITS :: nat where
  "WORD_SIZE_IN_BITS = 64"

definition WORD_COUNT :: nat where
  "WORD_COUNT = SLAB_SIZE div MIN_SLAB_CHUNK_SIZE div WORD_SIZE_IN_BITS + 1"

lemmas slab_consts =
  SLAB_SIZE_def MIN_SLAB_CHUNK_SIZE_def CHUNK_ALIGN_BYTES_def WORD_SIZE_IN_BITS_def

lemma WORD_COUNT_eq: "WORD_COUNT = 820"
  by (simp add: WORD_COUNT_def slab_consts)

subsection \<open>Operations\<close>

type_synonym word_t = "64 word"
type_synonym bitset_t = "word_t list"

definition bindex :: "nat \<Rightarrow> nat" where
  "bindex b = b div WORD_SIZE_IN_BITS"

definition bloffset :: "nat \<Rightarrow> nat" where
  "bloffset b = b mod WORD_SIZE_IN_BITS"

definition set_bit_s :: "bitset_t \<Rightarrow> nat \<Rightarrow> bitset_t res" where
  "set_bit_s bts b =
     rbind (rassert (b < WORD_COUNT * WORD_SIZE_IN_BITS)) (\<lambda>_.
       Inr (bts[bindex b := bts ! bindex b OR push_bit (bloffset b) 1]))"

definition clear_bit_s :: "bitset_t \<Rightarrow> nat \<Rightarrow> bitset_t res" where
  "clear_bit_s bts b =
     rbind (rassert (b < WORD_COUNT * WORD_SIZE_IN_BITS)) (\<lambda>_.
       Inr (bts[bindex b := bts ! bindex b AND NOT (push_bit (bloffset b) 1)]))"

definition get_bit_s :: "bitset_t \<Rightarrow> nat \<Rightarrow> nat res" where
  "get_bit_s bts b =
     rbind (rassert (b < WORD_COUNT * WORD_SIZE_IN_BITS)) (\<lambda>_.
       Inr (unat (drop_bit (bloffset b) (bts ! bindex b) AND 1)))"

definition debruij_tab :: "nat list" where
  "debruij_tab = [
     0,  1,  2, 53,  3,  7, 54, 27,
     4, 38, 41,  8, 34, 55, 48, 28,
    62,  5, 39, 46, 44, 42, 22,  9,
    24, 35, 59, 56, 49, 18, 29, 11,
    63, 52,  6, 26, 37, 40, 33, 47,
    61, 45, 43, 21, 23, 58, 17, 10,
    51, 25, 36, 32, 60, 20, 57, 16,
    50, 31, 19, 15, 30, 14, 13, 12]"

definition nlz64 :: "word_t \<Rightarrow> nat" where
  "nlz64 x = debruij_tab ! unat (drop_bit 58 ((x AND - x) * 0x022FDD63CC95386D))"

text \<open>The loop over the words, from word \<open>i\<close> on; the result is the \<open>int\<close> of the code.\<close>

fun ff_setbit_loop :: "word_t list \<Rightarrow> nat \<Rightarrow> int" where
  "ff_setbit_loop [] i = -1"
| "ff_setbit_loop (w # ws) i =
     (if w \<noteq> 0 then int (nlz64 w + i * WORD_SIZE_IN_BITS) else ff_setbit_loop ws (Suc i))"

definition ff_setbit :: "bitset_t \<Rightarrow> int" where
  "ff_setbit bts = ff_setbit_loop (take WORD_COUNT bts) 0"

subsection \<open>The De Bruijn table\<close>

lemma debruij_tab_all:
  "list_all (\<lambda>k. debruij_tab ! ((2 ^ k * 0x022FDD63CC95386D mod 2 ^ 64) div 2 ^ 58) = (k::nat)) [0..<64]"
  by (simp add: upt_rec debruij_tab_def)

lemma unat_debruij:
  "unat (drop_bit 58 (push_bit k (1 :: word_t) * 0x022FDD63CC95386D))
    = (2 ^ k * 0x022FDD63CC95386D mod 2 ^ 64) div 2 ^ 58" if "k < 64"
proof -
  have "push_bit k (1 :: word_t) = word_of_nat (2 ^ k)" by (simp add: push_bit_eq_mult)
  then have "unat (push_bit k (1 :: word_t)) = 2 ^ k mod 2 ^ 64"
    by (simp only: unat_of_nat) simp
  also have "\<dots> = (2 :: nat) ^ k"
    using that by (intro mod_less power_strict_increasing) auto
  finally have p: "unat (push_bit k (1 :: word_t)) = 2 ^ k" .
  show ?thesis
    unfolding unat_drop_bit_eq drop_bit_eq_div unat_word_ariths p by simp
qed

lemma debruij_tab_push_bit:
  "k < 64 \<Longrightarrow> debruij_tab ! unat (drop_bit 58 (push_bit k (1 :: word_t) * 0x022FDD63CC95386D)) = k"
  proof -
  assume k: "k < 64"
  with debruij_tab_all
  have "debruij_tab ! ((2 ^ k * 0x022FDD63CC95386D mod 2 ^ 64) div 2 ^ 58) = k"
    by (simp only: list_all_iff set_upt atLeastLessThan_iff Ball_def) blast
  then show ?thesis by (simp only: unat_debruij [OF k])
qed

text \<open>\<open>x & -x\<close> isolates the lowest set bit.\<close>

lemma and_minus_lowest:
  fixes x :: word_t
  assumes k: "k < 64" and bk: "bit x k" and low: "\<And>j. j < k \<Longrightarrow> \<not> bit x j"
  shows "x AND - x = push_bit k 1"
proof -
  define h where "h = x AND NOT (mask (Suc k))"
  have x: "x = h OR 2 ^ k"
    by (rule bit_eqI) (use k bk low in \<open>auto simp: h_def bit_simps less_Suc_eq; metis linorder_not_less\<close>)
  also have "\<dots> = h + 2 ^ k"
    by (rule disjunctive_add[symmetric]) (use k in \<open>auto simp: h_def bit_simps\<close>)
  finally have xs: "x = h + 2 ^ k" .
  have "x - 1 = h + mask k"
    using xs by (simp add: mask_eq_exp_minus_1)
  also have "\<dots> = h OR mask k"
    by (rule disjunctive_add) (use k in \<open>auto simp: h_def bit_simps\<close>)
  finally have "x - 1 = h OR mask k" .
  then have m: "- x = NOT (h OR mask k)" by (simp add: minus_eq_not_minus_1)
  show ?thesis unfolding m
    by (rule bit_eqI) (use k bk low in \<open>auto simp: h_def bit_simps less_Suc_eq\<close>)
qed
lemma lowest_bit_exists:
  fixes x :: word_t
  assumes "x \<noteq> 0"
  obtains k where "k < 64" and "bit x k" and "\<And>j. j < k \<Longrightarrow> \<not> bit x j"
proof -
  from assms obtain n where n: "bit x n"
    by (metis bit_eq_iff bit_0_eq bot_apply bot_bool_def)
  define k where "k = (LEAST n. bit x n)"
  have bk: "bit x k" unfolding k_def using n by (rule LeastI)
  have "\<not> bit x j" if "j < k" for j
    using that unfolding k_def by (rule not_less_Least)
  moreover have "k < 64" using bk by (auto dest: bit_imp_le_length)
  ultimately show thesis using bk that by blast
qed

lemma nlz64_lowest:
  fixes x :: word_t
  assumes "k < 64" and "bit x k" and "\<And>j. j < k \<Longrightarrow> \<not> bit x j"
  shows "nlz64 x = k"
  by (simp only: nlz64_def and_minus_lowest [OF assms] debruij_tab_push_bit [OF assms(1)])

lemma nlz64_bit:
  assumes "x \<noteq> 0"
  shows "nlz64 x < 64" and "bit x (nlz64 x)" and "j < nlz64 x \<Longrightarrow> \<not> bit x j"
proof -
  obtain k where k: "k < 64" "bit x k" "\<And>j. j < k \<Longrightarrow> \<not> bit x j"
    using lowest_bit_exists [OF assms] by blast
  have "nlz64 x = k" using k by (rule nlz64_lowest)
  with k show "nlz64 x < 64" "bit x (nlz64 x)" "j < nlz64 x \<Longrightarrow> \<not> bit x j" by auto
qed

subsection \<open>The set a bit set stands for\<close>

definition bits_of :: "bitset_t \<Rightarrow> nat set" where
  "bits_of bts = {b. bindex b < length bts \<and> bit (bts ! bindex b) (bloffset b)}"

definition bitset_ok :: "bitset_t \<Rightarrow> bool" where
  "bitset_ok bts \<longleftrightarrow> length bts = WORD_COUNT"

abbreviation BIT_COUNT :: nat where
  "BIT_COUNT \<equiv> WORD_COUNT * WORD_SIZE_IN_BITS"

lemma bindex_less: "bindex b < WORD_COUNT \<longleftrightarrow> b < BIT_COUNT"
  by (simp add: bindex_def WORD_SIZE_IN_BITS_def div_less_iff_less_mult)

lemma bloffset_less [simp]: "bloffset b < 64"
  by (simp add: bloffset_def WORD_SIZE_IN_BITS_def)

lemma index_offset_eq_iff: "bindex a = bindex b \<and> bloffset a = bloffset b \<longleftrightarrow> a = b"
  by (metis bindex_def bloffset_def div_mult_mod_eq)

lemma bits_of_less: "bitset_ok bts \<Longrightarrow> b \<in> bits_of bts \<Longrightarrow> b < BIT_COUNT"
  by (simp add: bits_of_def bitset_ok_def bindex_less)

lemma finite_bits_of [simp]: "bitset_ok bts \<Longrightarrow> finite (bits_of bts)"
  by (rule finite_subset [of _ "{..<BIT_COUNT}"]) (auto dest: bits_of_less)

lemma get_bit_s_spec:
  assumes "bitset_ok bts" and "b < BIT_COUNT"
  shows "get_bit_s bts b = Inr (if b \<in> bits_of bts then 1 else 0)"
proof -
  have "drop_bit (bloffset b) (bts ! bindex b) AND 1
      = of_bool (bit (bts ! bindex b) (bloffset b))"
    by (simp only: and_one_eq mod_2_eq_odd bit_iff_odd_drop_bit)
  moreover have "bindex b < length bts"
    using assms by (simp add: bitset_ok_def bindex_less)
  ultimately show ?thesis
    using assms(2) by (simp add: get_bit_s_def bits_of_def)
qed

lemma set_bit_s_spec:
  assumes "bitset_ok bts" and "b < BIT_COUNT"
  shows "\<exists>bts'. set_bit_s bts b = Inr bts' \<and> bitset_ok bts' \<and> bits_of bts' = insert b (bits_of bts)"
proof -
  have i: "bindex b < length bts" using assms by (simp add: bitset_ok_def bindex_less)
  have "c \<in> bits_of (bts[bindex b := bts ! bindex b OR push_bit (bloffset b) 1]) \<longleftrightarrow> c = b \<or> c \<in> bits_of bts" for c
  proof (cases "bindex c = bindex b")
    case True
    then show ?thesis using i index_offset_eq_iff [of c b]
      by (auto simp: bits_of_def bit_simps)
  next
    case False
    then show ?thesis by (auto simp: bits_of_def)
  qed
  then have "bits_of (bts[bindex b := bts ! bindex b OR push_bit (bloffset b) 1]) = insert b (bits_of bts)"
    by blast
  then show ?thesis using assms by (simp add: set_bit_s_def bitset_ok_def)
qed

lemma clear_bit_s_spec:
  assumes "bitset_ok bts" and "b < BIT_COUNT"
  shows "\<exists>bts'. clear_bit_s bts b = Inr bts' \<and> bitset_ok bts' \<and> bits_of bts' = bits_of bts - {b}"
proof -
  have i: "bindex b < length bts" using assms by (simp add: bitset_ok_def bindex_less)
  have "c \<in> bits_of (bts[bindex b := bts ! bindex b AND NOT (push_bit (bloffset b) 1)]) \<longleftrightarrow> c \<noteq> b \<and> c \<in> bits_of bts" for c
  proof (cases "bindex c = bindex b")
    case True
    then show ?thesis using i index_offset_eq_iff [of c b]
      by (auto simp: bits_of_def bit_simps)
  next
    case False
    then show ?thesis by (auto simp: bits_of_def)
  qed
  then have "bits_of (bts[bindex b := bts ! bindex b AND NOT (push_bit (bloffset b) 1)]) = bits_of bts - {b}"
    by blast
  then show ?thesis using assms by (simp add: clear_bit_s_def bitset_ok_def)
qed

lemma ff_setbit_loop_spec:
  "(case ff_setbit_loop ws i of r \<Rightarrow>
     (r = -1 \<and> (\<forall>k < length ws. ws ! k = 0)) \<or>
     (\<exists>k < length ws. ws ! k \<noteq> 0 \<and> (\<forall>j < k. ws ! j = 0) \<and>
        r = int (nlz64 (ws ! k) + (i + k) * WORD_SIZE_IN_BITS)))"
proof (induction ws arbitrary: i)
  case Nil
  then show ?case by simp
next
  case (Cons w ws)
  show ?case
  proof (cases "w = 0")
    case False
    then show ?thesis by (auto intro!: exI [of _ 0])
  next
    case True
    from Cons.IH [of "Suc i"] show ?thesis
    proof (elim disjE exE conjE)
      assume "ff_setbit_loop ws (Suc i) = - 1" "\<forall>k<length ws. ws ! k = 0"
      with True show ?thesis by (auto simp: less_Suc_eq_0_disj)
    next
      fix k assume "k < length ws" "ws ! k \<noteq> 0" "\<forall>j<k. ws ! j = 0"
        "ff_setbit_loop ws (Suc i) = int (nlz64 (ws ! k) + (Suc i + k) * WORD_SIZE_IN_BITS)"
      with True show ?thesis
        by (intro disjI2 exI [of _ "Suc k"]) (auto simp: less_Suc_eq_0_disj)
    qed
  qed
qed

lemma ff_setbit_spec:
  assumes "bitset_ok bts"
  shows "ff_setbit bts = (if bits_of bts = {} then -1 else int (Min (bits_of bts)))"
proof -
  have take: "take WORD_COUNT bts = bts" using assms by (simp add: bitset_ok_def)
  from ff_setbit_loop_spec [of bts 0] show ?thesis
  proof (elim disjE exE conjE)
    assume m: "ff_setbit_loop bts 0 = - 1" and z: "\<forall>k<length bts. bts ! k = 0"
    then have "bits_of bts = {}" by (auto simp: bits_of_def)
    with m take show ?thesis by (simp add: ff_setbit_def)
  next
    fix k assume k: "k < length bts" "bts ! k \<noteq> 0" "\<forall>j<k. bts ! j = 0"
      and r: "ff_setbit_loop bts 0 = int (nlz64 (bts ! k) + (0 + k) * WORD_SIZE_IN_BITS)"
    define b where "b = nlz64 (bts ! k) + k * WORD_SIZE_IN_BITS"
    have ib: "bindex b = k" "bloffset b = nlz64 (bts ! k)"
      using nlz64_bit(1) [OF k(2)] by (simp_all add: b_def bindex_def bloffset_def WORD_SIZE_IN_BITS_def)
    have bin: "b \<in> bits_of bts" using ib k nlz64_bit(2) by (simp add: bits_of_def)
    have least: "b \<le> c" if c: "c \<in> bits_of bts" for c
    proof (rule ccontr)
      assume "\<not> b \<le> c"
      then have "c < b" by simp
      then have "bindex c \<le> k" unfolding ib(1) [symmetric] bindex_def by (intro div_le_mono) simp
      moreover have "bindex c \<noteq> k \<or> nlz64 (bts ! k) \<le> bloffset c"
        using c nlz64_bit(3) [OF k(2)] by (auto simp: bits_of_def not_less [symmetric])
      moreover have "\<not> bindex c < k" using c k(3) by (auto simp: bits_of_def)
      ultimately have "bindex c = k" "nlz64 (bts ! k) \<le> bloffset c" by auto
      then have "b \<le> c"
        unfolding b_def by (metis add.commute add_le_mono1 bindex_def bloffset_def div_mult_mod_eq)
      with \<open>c < b\<close> show False by simp
    qed
    have "Min (bits_of bts) = b" using bin least assms by (intro Min_eqI) auto
    with bin r take show ?thesis by (auto simp: ff_setbit_def b_def)
  qed
qed
subsection \<open>The interface the slab allocator uses\<close>

text \<open>
  The allocator only relies on these laws: the operations read and update one bit of a
  set of bits below \<open>bound\<close>, and \<open>ff\<close> returns the least member, or \<open>-1\<close>.
\<close>

locale bit_set =
  fixes set_b :: "'s \<Rightarrow> nat \<Rightarrow> 's res"
    and clear_b :: "'s \<Rightarrow> nat \<Rightarrow> 's res"
    and get_b :: "'s \<Rightarrow> nat \<Rightarrow> nat res"
    and ff :: "'s \<Rightarrow> int"
    and ok :: "'s \<Rightarrow> bool"
    and bits :: "'s \<Rightarrow> nat set"
    and bound :: nat
  assumes get_law: "ok s \<Longrightarrow> b < bound \<Longrightarrow> get_b s b = Inr (if b \<in> bits s then 1 else 0)"
    and set_law: "ok s \<Longrightarrow> b < bound \<Longrightarrow>
      \<exists>s'. set_b s b = Inr s' \<and> ok s' \<and> bits s' = insert b (bits s)"
    and clear_law: "ok s \<Longrightarrow> b < bound \<Longrightarrow>
      \<exists>s'. clear_b s b = Inr s' \<and> ok s' \<and> bits s' = bits s - {b}"
    and ff_law: "ok s \<Longrightarrow> ff s = (if bits s = {} then -1 else int (Min (bits s)))"
    and bound_law: "ok s \<Longrightarrow> bits s \<subseteq> {..<bound}"
begin

text \<open>Taking the first free chunk of a slab of \<open>n\<close> chunks that is not full.\<close>

lemma take_first:
  assumes ok: "ok s" and n: "n \<le> bound" and room: "card ({..<n} - bits s) < n"
  shows "\<exists>b s'. ff s = int b \<and> b < n \<and> b \<in> bits s \<and> (\<forall>c < b. c \<notin> bits s) \<and>
    clear_b s b = Inr s' \<and> ok s' \<and> bits s' = bits s - {b} \<and>
    card ({..<n} - bits s') = Suc (card ({..<n} - bits s))"
proof -
  have fin: "finite (bits s)" using bound_law [OF ok] by (rule finite_subset) simp
  obtain c where c: "c < n" "c \<in> bits s"
    using room by (metis Diff_triv card_lessThan disjoint_iff lessThan_iff less_irrefl)
  define b where "b = Min (bits s)"
  have "bits s \<noteq> {}" using c by blast
  with fin have b: "b \<in> bits s" "b \<le> c" using c by (auto simp: b_def)
  then have bn: "b < n" using c by simp
  obtain s' where s': "clear_b s b = Inr s'" "ok s'" "bits s' = bits s - {b}"
    using clear_law [OF ok, of b] bn n by auto
  have "{..<n} - bits s' = insert b ({..<n} - bits s)" using s' b bn by auto
  then have "card ({..<n} - bits s') = Suc (card ({..<n} - bits s))" using b by simp
  moreover have "ff s = int b" using ff_law [OF ok] b by (auto simp: b_def)
  moreover have "\<forall>c < b. c \<notin> bits s" using fin Min_le unfolding b_def by (metis linorder_not_less)
  ultimately show ?thesis using b bn s' by blast
qed

text \<open>Giving a chunk in use back.\<close>

lemma give_back:
  assumes ok: "ok s" and n: "n \<le> bound" and b: "b < n" "b \<notin> bits s"
  shows "\<exists>s'. set_b s b = Inr s' \<and> ok s' \<and> bits s' = insert b (bits s) \<and>
    Suc (card ({..<n} - bits s')) = card ({..<n} - bits s)"
proof -
  obtain s' where s': "set_b s b = Inr s'" "ok s'" "bits s' = insert b (bits s)"
    using set_law [OF ok, of b] b n by auto
  have "{..<n} - bits s = insert b ({..<n} - bits s')" using s' b by auto
  moreover have "finite ({..<n} - bits s')" and "b \<notin> {..<n} - bits s'" using s' by auto
  ultimately have "card ({..<n} - bits s) = Suc (card ({..<n} - bits s'))" by simp
  then show ?thesis by (intro exI [of _ s'] conjI) (simp_all add: s')
qed

end

interpretation bts: bit_set set_bit_s clear_bit_s get_bit_s ff_setbit bitset_ok bits_of BIT_COUNT
  by unfold_locales
    (auto simp: get_bit_s_spec set_bit_s_spec clear_bit_s_spec ff_setbit_spec bits_of_less)

text \<open>A slab fresh from \<open>init_cache_manager\<close>: every word is \<open>0xFF..FF\<close>.\<close>

definition full_bitset :: bitset_t where
  "full_bitset = replicate WORD_COUNT (- 1)"

lemma full_bitset_ok [simp]: "bitset_ok full_bitset"
  by (simp add: full_bitset_def bitset_ok_def)

lemma bits_of_full_bitset: "bits_of full_bitset = {..<BIT_COUNT}"
  by (auto simp: bits_of_def full_bitset_def bindex_less)

subsection \<open>Properties\<close>

text \<open>
  C17: the De Bruijn search \<open>nlz64\<close> returns the index of the lowest set bit of every
  non-zero 64-bit word.
\<close>

theorem nlz64_correct:
  assumes "x \<noteq> 0"
  shows "nlz64 x < 64 \<and> bit x (nlz64 x) \<and> (\<forall>j < nlz64 x. \<not> bit x j)"
  using nlz64_bit [OF assms] by blast

theorem nlz64_correct_witness:
  "(0x9000000000000000 :: word_t) \<noteq> 0 \<and> nlz64 0x9000000000000000 = 60 \<and>
   bit (0x9000000000000000 :: word_t) 60"
proof -
  have ne: "(0x9000000000000000 :: word_t) \<noteq> 0" by simp
  have v: "nlz64 0x9000000000000000 = 60" by code_simp
  show ?thesis using ne v nlz64_correct [OF ne] by simp
qed

text \<open>
  C18: on an array of \<open>WORD_COUNT\<close> words \<open>ff_setbit\<close> returns \<open>-1\<close> exactly when no bit is
  set, and otherwise the index of the first set bit, as \<open>get_bit\<close> reads them.
\<close>

theorem ff_setbit_first:
  assumes "length bts = WORD_COUNT"
  shows "(ff_setbit bts = -1 \<longleftrightarrow> (\<forall>b < BIT_COUNT. get_bit_s bts b = Inr 0)) \<and>
    (\<forall>b. ff_setbit bts = int b \<longrightarrow>
       b < BIT_COUNT \<and> get_bit_s bts b = Inr 1 \<and> (\<forall>c < b. get_bit_s bts c = Inr 0))"
proof -
  have ok: "bitset_ok bts" using assms by (simp add: bitset_ok_def)
  have get: "get_bit_s bts b = Inr 0 \<longleftrightarrow> b \<notin> bits_of bts" if "b < BIT_COUNT" for b
    using get_bit_s_spec [OF ok that] by simp
  have sub: "b \<in> bits_of bts \<Longrightarrow> b < BIT_COUNT" for b using ok by (rule bits_of_less)
  show ?thesis
  proof (cases "bits_of bts = {}")
    case True
    then show ?thesis using get by (simp add: ff_setbit_spec [OF ok])
  next
    case False
    define m where "m = Min (bits_of bts)"
    have m: "m \<in> bits_of bts" "\<And>c. c < m \<Longrightarrow> c \<notin> bits_of bts"
      using False ok by (auto simp: m_def)
    have "ff_setbit bts = int m" using False by (simp add: ff_setbit_spec [OF ok] m_def)
    then show ?thesis
      using m sub [OF m(1)] get get_bit_s_spec [OF ok] less_trans by auto
  qed
qed

theorem ff_setbit_first_witness:
  "length full_bitset = WORD_COUNT \<and> ff_setbit full_bitset \<noteq> -1"
proof -
  have l: "length full_bitset = WORD_COUNT" by (simp add: full_bitset_def)
  have "get_bit_s full_bitset 5 \<noteq> Inr 0"
    by (simp add: get_bit_s_spec bits_of_full_bitset WORD_COUNT_eq WORD_SIZE_IN_BITS_def)
  then show ?thesis
    using l ff_setbit_first [OF l] by (auto simp: WORD_COUNT_eq WORD_SIZE_IN_BITS_def)
qed

end
