(* ===== verification/Ctl_List.thy ===== *)
theory Ctl_List
  imports Bitset
begin

text \<open>
  The doubly linked lists of slab descriptors of \<open>src/slab.c\<close>. A descriptor pointer is an
  index into the array \<open>slab_ctls\<close> (\<open>None\<close> for NULL), so that the three kinds of list
  (free, partial, full) share one array and every write through a pointer is an update of
  that array. \<open>dll cs li xs\<close> says that \<open>li\<close> is a well-linked list of the descriptors
  \<open>xs\<close>; the head's own \<open>prev\<close> is left open, because \<open>pop\<close> leaves it dangling.
\<close>

subsection \<open>Data\<close>

record slab_ctl =
  nused :: nat
  nindex :: nat
  slots :: bitset_t
  nxt :: "nat option"
  prv :: "nat option"
  ctl_cache :: "nat option"

record list_t =
  lhead :: "nat option"
  ltail :: "nat option"

type_synonym ctls = "slab_ctl list"

definition empty_list :: list_t where
  "empty_list = \<lparr>lhead = None, ltail = None\<rparr>"

subsection \<open>Operations\<close>

definition peek :: "list_t \<Rightarrow> nat option" where
  "peek li = lhead li"

definition push :: "list_t \<Rightarrow> nat \<Rightarrow> ctls \<Rightarrow> list_t \<times> ctls" where
  "push li item cs =
     (let cs = cs[item := (cs ! item)\<lparr>nxt := lhead li, prv := None\<rparr>] in
      case lhead li of
        Some h \<Rightarrow> (li\<lparr>lhead := Some item\<rparr>, cs[h := (cs ! h)\<lparr>prv := Some item\<rparr>])
      | None \<Rightarrow> (li\<lparr>ltail := Some item, lhead := Some item\<rparr>, cs))"

definition pop :: "list_t \<Rightarrow> ctls \<Rightarrow> nat option \<times> list_t \<times> ctls" where
  "pop li cs =
     (let (result, li, cs) =
        (case lhead li of
           Some h \<Rightarrow>
             let cs = cs[h := (cs ! h)\<lparr>prv := None\<rparr>] in (Some h, li\<lparr>lhead := nxt (cs ! h)\<rparr>, cs)
         | None \<Rightarrow> (None, li, cs))
      in (result, if lhead li = None then li\<lparr>ltail := None\<rparr> else li, cs))"

text \<open>The body of the loop of \<open>rem\<close>, for the element \<open>cit\<close> that is the item.\<close>

definition rem_here :: "list_t \<Rightarrow> nat \<Rightarrow> ctls \<Rightarrow> (list_t \<times> ctls) res" where
  "rem_here li cit cs =
     (if Some cit = lhead li then Inr (snd (pop li cs))
      else if Some cit = ltail li then
        (case prv (cs ! cit) of
           None \<Rightarrow> Inl Assert_failed
         | Some p \<Rightarrow> Inr (li\<lparr>ltail := Some p\<rparr>, cs[p := (cs ! p)\<lparr>nxt := None\<rparr>]))
      else
        (case prv (cs ! cit) of
           None \<Rightarrow> Inl Null_deref
         | Some p \<Rightarrow>
             let cs = cs[p := (cs ! p)\<lparr>nxt := nxt (cs ! cit)\<rparr>] in
             (case nxt (cs ! cit) of
                None \<Rightarrow> Inl Null_deref
              | Some n \<Rightarrow> Inr (li, cs[n := (cs ! n)\<lparr>prv := prv (cs ! cit)\<rparr>]))))"

text \<open>
  The loop follows \<open>next\<close> from \<open>cit\<close>. It is given as many rounds as the array has
  descriptors and one more; only a cyclic list needs more, and running out is \<open>Diverges\<close>.
\<close>

fun rem_loop :: "nat \<Rightarrow> list_t \<Rightarrow> nat option \<Rightarrow> nat \<Rightarrow> ctls \<Rightarrow> (bool \<times> list_t \<times> ctls) res" where
  "rem_loop 0 li cit item cs = Inl Diverges"
| "rem_loop (Suc fuel) li None item cs = Inr (False, li, cs)"
| "rem_loop (Suc fuel) li (Some c) item cs =
     (if c = item then rbind (rem_here li c cs) (\<lambda>(li, cs). Inr (True, li, cs))
      else rem_loop fuel li (nxt (cs ! c)) item cs)"

definition rem :: "list_t \<Rightarrow> nat \<Rightarrow> ctls \<Rightarrow> (bool \<times> list_t \<times> ctls) res" where
  "rem li item cs = rem_loop (Suc (length cs)) li (lhead li) item cs"

definition rem_and_push ::
  "list_t \<Rightarrow> list_t \<Rightarrow> nat \<Rightarrow> ctls \<Rightarrow> (bool \<times> list_t \<times> list_t \<times> ctls) res" where
  "rem_and_push src dest item cs =
     rbind (rem src item cs) (\<lambda>(found, src, cs).
       if found then (let (dest, cs) = push dest item cs in Inr (True, src, dest, cs))
       else Inr (False, src, dest, cs))"

definition pop_and_push :: "list_t \<Rightarrow> list_t \<Rightarrow> ctls \<Rightarrow> bool \<times> list_t \<times> list_t \<times> ctls" where
  "pop_and_push src dest cs =
     (case pop src cs of
        (Some item, src, cs) \<Rightarrow>
          (let (dest, cs) = push dest item cs in (True, src, dest, cs))
      | (None, src, cs) \<Rightarrow> (False, src, dest, cs))"

subsection \<open>Well-linked lists\<close>

fun links :: "ctls \<Rightarrow> nat list \<Rightarrow> bool" where
  "links cs (x # y # ys) \<longleftrightarrow>
     nxt (cs ! x) = Some y \<and> prv (cs ! y) = Some x \<and> links cs (y # ys)"
| "links cs _ \<longleftrightarrow> True"

definition dll :: "ctls \<Rightarrow> list_t \<Rightarrow> nat list \<Rightarrow> bool" where
  "dll cs li xs \<longleftrightarrow>
     distinct xs \<and> set xs \<subseteq> {..<length cs} \<and> links cs xs \<and>
     lhead li = (if xs = [] then None else Some (hd xs)) \<and>
     ltail li = (if xs = [] then None else Some (last xs)) \<and>
     (xs \<noteq> [] \<longrightarrow> nxt (cs ! last xs) = None)"

text \<open>The list operations move descriptors; the payload of a descriptor is not theirs.\<close>

definition same_data :: "ctls \<Rightarrow> ctls \<Rightarrow> bool" where
  "same_data cs cs' \<longleftrightarrow> length cs' = length cs \<and>
     (\<forall>i < length cs. nused (cs' ! i) = nused (cs ! i) \<and> nindex (cs' ! i) = nindex (cs ! i) \<and>
        slots (cs' ! i) = slots (cs ! i) \<and> ctl_cache (cs' ! i) = ctl_cache (cs ! i))"

definition unchanged_off :: "nat set \<Rightarrow> ctls \<Rightarrow> ctls \<Rightarrow> bool" where
  "unchanged_off S cs cs' \<longleftrightarrow> length cs' = length cs \<and> (\<forall>i. i \<notin> S \<longrightarrow> cs' ! i = cs ! i)"

lemma same_data_refl [simp]: "same_data cs cs"
  by (simp add: same_data_def)

lemma same_data_trans: "same_data a b \<Longrightarrow> same_data b c \<Longrightarrow> same_data a c"
  by (simp add: same_data_def)

lemma unchanged_off_refl [simp]: "unchanged_off S cs cs"
  by (simp add: unchanged_off_def)

lemma unchanged_off_trans:
  "unchanged_off S a b \<Longrightarrow> unchanged_off T b c \<Longrightarrow> unchanged_off (S \<union> T) a c"
  by (simp add: unchanged_off_def)

lemma unchanged_off_mono: "unchanged_off S a b \<Longrightarrow> S \<subseteq> T \<Longrightarrow> unchanged_off T a b"
  by (auto simp: unchanged_off_def)

lemma links_append:
  "links cs (xs @ ys) \<longleftrightarrow> links cs xs \<and> links cs ys \<and>
     (xs \<noteq> [] \<and> ys \<noteq> [] \<longrightarrow>
        nxt (cs ! last xs) = Some (hd ys) \<and> prv (cs ! hd ys) = Some (last xs))"
proof (induction xs)
  case (Cons x xs)
  then show ?case by (cases xs; cases ys) auto
qed simp

lemma links_cong:
  assumes "\<And>x. x \<in> set (butlast xs) \<Longrightarrow> nxt (cs' ! x) = nxt (cs ! x)"
    and "\<And>x. x \<in> set (tl xs) \<Longrightarrow> prv (cs' ! x) = prv (cs ! x)"
  shows "links cs' xs = links cs xs"
  using assms
proof (induction cs xs rule: links.induct)
  case (1 cs x y zs)
  have "links cs' (y # zs) = links cs (y # zs)"
    using 1 by (intro "1.IH") (auto split: if_splits)
  then show ?case using "1.prems"(1) [of x] "1.prems"(2) [of y] by simp
qed simp_all

lemma dll_frame:
  assumes "dll cs li xs" and "unchanged_off S cs cs'" and "S \<inter> set xs = {}"
  shows "dll cs' li xs"
proof -
  have e: "cs' ! x = cs ! x" if "x \<in> set xs" for x
    using assms that by (auto simp: unchanged_off_def)
  have "links cs' xs = links cs xs"
    by (rule links_cong) (cases xs; auto simp: e dest: in_set_butlastD split: if_splits)+
  then show ?thesis using assms e [of "last xs"]
    by (auto simp: dll_def unchanged_off_def)
qed

lemma dll_distinct: "dll cs li xs \<Longrightarrow> distinct xs"
  by (simp add: dll_def)

lemma dll_less: "dll cs li xs \<Longrightarrow> x \<in> set xs \<Longrightarrow> x < length cs"
  by (auto simp: dll_def)

lemma dll_length: "dll cs li xs \<Longrightarrow> length xs \<le> length cs"
  by (metis card_lessThan card_mono dll_def distinct_card finite_lessThan)

lemma dll_Nil_iff: "dll cs li xs \<Longrightarrow> lhead li = None \<longleftrightarrow> xs = []"
  by (simp add: dll_def)

lemma dll_head: "dll cs li (x # xs) \<Longrightarrow> lhead li = Some x"
  by (simp add: dll_def)

lemma dll_empty_list [simp]: "dll cs empty_list []"
  by (simp add: dll_def empty_list_def)

subsection \<open>What the operations do to well-linked lists\<close>

lemma in_set_tlD: "x \<in> set (tl xs) \<Longrightarrow> x \<in> set xs"
  by (cases xs) auto

lemma push_dll:
  assumes d: "dll cs li xs" and i: "i < length cs" "i \<notin> set xs" and p: "push li i cs = (li', cs')"
  shows "dll cs' li' (i # xs)" and "same_data cs cs'" and "unchanged_off (set (i # xs)) cs cs'"
proof -
  have "dll cs' li' (i # xs) \<and> same_data cs cs' \<and> unchanged_off (set (i # xs)) cs cs'"
  proof (cases xs)
    case Nil
    with d i p show ?thesis
      by (auto simp: push_def dll_def same_data_def unchanged_off_def nth_list_update)
  next
    case (Cons h ys)
    with d i have h: "h < length cs" "h \<noteq> i" "lhead li = Some h" by (auto simp: dll_def)
    with p have li': "li' = li\<lparr>lhead := Some i\<rparr>"
      and cs': "cs' = cs[i := (cs ! i)\<lparr>nxt := Some h, prv := None\<rparr>, h := (cs ! h)\<lparr>prv := Some i\<rparr>]"
      by (auto simp: push_def Let_def)
    have upd: "nxt (cs' ! x) = (if x = i then Some h else nxt (cs ! x))"
      "prv (cs' ! x) = (if x = h then Some i else if x = i then None else prv (cs ! x))" for x
      using h i by (simp_all add: cs' nth_list_update)
    have l: "links cs' xs = links cs xs"
    proof (rule links_cong)
      fix x assume "x \<in> set (butlast xs)"
      then have "x \<noteq> i" using i by (auto dest: in_set_butlastD)
      then show "nxt (cs' ! x) = nxt (cs ! x)" by (simp add: upd)
    next
      fix x assume "x \<in> set (tl xs)"
      then have "x \<noteq> h" "x \<noteq> i" using d i Cons by (auto simp: dll_def)
      then show "prv (cs' ! x) = prv (cs ! x)" by (simp add: upd)
    qed
    have "last xs \<noteq> i" using i Cons by (metis last_in_set list.distinct(1))
    then have "nxt (cs' ! last xs) = nxt (cs ! last xs)" by (simp add: upd)
    with l d i h Cons have "dll cs' li' (i # xs)"
      by (simp add: dll_def li' upd) (simp add: cs')
    moreover have "same_data cs cs'" "unchanged_off (set (i # xs)) cs cs'"
      using h i Cons by (auto simp: cs' same_data_def unchanged_off_def nth_list_update)
    ultimately show ?thesis by simp
  qed
  then show "dll cs' li' (i # xs)" "same_data cs cs'" "unchanged_off (set (i # xs)) cs cs'" by auto
qed

lemma pop_Nil: "dll cs li [] \<Longrightarrow> pop li cs = (None, li, cs)"
  by (cases li) (auto simp: pop_def dll_def)

lemma pop_dll:
  assumes d: "dll cs li (x # xs)" and p: "pop li cs = (r, li', cs')"
  shows "r = Some x" and "dll cs' li' xs" and "same_data cs cs'" and "unchanged_off {x} cs cs'"
proof -
  from d have x: "x < length cs" "lhead li = Some x" by (auto simp: dll_def)
  define cs1 where "cs1 = cs[x := (cs ! x)\<lparr>prv := None\<rparr>]"
  have n: "nxt (cs ! x) = (if xs = [] then None else Some (hd xs))"
    using d by (cases xs) (auto simp: dll_def)
  from p x n have r: "r = Some x" and cs': "cs' = cs1"
    and li': "li' = (if xs = [] then li\<lparr>lhead := None, ltail := None\<rparr> else li\<lparr>lhead := Some (hd xs)\<rparr>)"
    by (auto simp: pop_def Let_def cs1_def split: if_splits)
  have u: "unchanged_off {x} cs cs'" and s: "same_data cs cs'"
    using x by (auto simp: cs' cs1_def unchanged_off_def same_data_def nth_list_update)
  have "dll cs (li\<lparr>lhead := lhead li', ltail := ltail li'\<rparr>) xs"
    using d by (cases xs) (auto simp: dll_def li')
  moreover have "li\<lparr>lhead := lhead li', ltail := ltail li'\<rparr> = li'" by (auto simp: li')
  ultimately have "dll cs li' xs" by simp
  moreover have "{x} \<inter> set xs = {}" using d by (auto simp: dll_def)
  ultimately have "dll cs' li' xs" using u by (blast intro: dll_frame)
  with r s u show "r = Some x" "dll cs' li' xs" "same_data cs cs'" "unchanged_off {x} cs cs'" by auto
qed

lemma rem_here_dll:
  assumes d: "dll cs li (as @ i # bs)"
  shows "\<exists>li' cs'. rem_here li i cs = Inr (li', cs') \<and> dll cs' li' (as @ bs) \<and> same_data cs cs' \<and>
    unchanged_off (set (as @ i # bs)) cs cs'"
proof (cases "as = []")
  case True
  obtain r li' cs' where p: "pop li cs = (r, li', cs')" by (cases "pop li cs")
  from d True have "dll cs li (i # bs)" by simp
  from pop_dll [OF this p] dll_head [OF this] p True show ?thesis
    by (auto simp: rem_here_def intro: unchanged_off_mono)
next
  case as: False
  define p where "p = last as"
  have pin: "p \<in> set as" using as by (simp add: p_def)
  with d have p: "p \<in> set as" "p < length cs" "p \<noteq> i" by (auto simp: dll_def)
  have pb: "p \<notin> set (butlast as)" using d as unfolding p_def
    by (intro distinct_last_notin_butlast) (auto simp: dll_def)
  have hd: "lhead li \<noteq> Some i" using d as by (auto simp: dll_def hd_append)
  have prv: "prv (cs ! i) = Some p" using d as by (auto simp: dll_def links_append p_def)
  show ?thesis
  proof (cases "bs = []")
    case True
    define cs' where "cs' = cs[p := (cs ! p)\<lparr>nxt := None\<rparr>]"
    have tl: "ltail li = Some i" using d True by (simp add: dll_def)
    have upd: "nxt (cs' ! x) = (if x = p then None else nxt (cs ! x))"
      "prv (cs' ! x) = prv (cs ! x)" for x
      using p by (simp_all add: cs'_def nth_list_update)
    have "links cs' as = links cs as"
      using pb by (intro links_cong) (auto simp: upd)
    moreover have "length cs' = length cs" by (simp add: cs'_def)
    ultimately have "dll cs' (li\<lparr>ltail := Some p\<rparr>) as"
      using d as True by (auto simp: dll_def links_append upd p_def)
    moreover have "same_data cs cs'" "unchanged_off (set (as @ i # bs)) cs cs'"
      using p by (auto simp: cs'_def same_data_def unchanged_off_def nth_list_update)
    ultimately show ?thesis
      using hd tl prv True by (auto simp: rem_here_def cs'_def)
  next
    case False
    define n where "n = hd bs"
    have "n \<in> set bs" using False by (simp add: n_def)
    with d p have n: "n \<in> set bs" "n < length cs" "n \<noteq> i" "n \<noteq> p" by (auto simp: dll_def)
    have nxt: "nxt (cs ! i) = Some n" using d False by (cases bs) (auto simp: dll_def links_append n_def)
    have tl: "ltail li \<noteq> Some i" using d False by (auto simp: dll_def)
    define cs' where "cs' = cs[p := (cs ! p)\<lparr>nxt := Some n\<rparr>, n := (cs ! n)\<lparr>prv := Some p\<rparr>]"
    have upd: "nxt (cs' ! x) = (if x = p then Some n else nxt (cs ! x))"
      "prv (cs' ! x) = (if x = n then Some p else prv (cs ! x))" for x
      using p n by (simp_all add: cs'_def nth_list_update)
    have disj: "n \<notin> set as" "p \<notin> set bs" "n \<notin> set (tl bs)"
      using d p n False by (cases bs; auto simp: dll_def n_def)+
    have la: "links cs' as = links cs as"
      using pb disj by (intro links_cong) (auto simp: upd dest: in_set_tlD)
    have lb: "links cs' bs = links cs bs"
      using disj by (intro links_cong) (auto simp: upd dest: in_set_butlastD)
    have "links cs as" "links cs bs" using d by (cases bs; simp add: dll_def links_append)+
    moreover have "nxt (cs' ! last bs) = None"
      using d False disj last_in_set [OF False] by (auto simp: dll_def upd)
    moreover have "length cs' = length cs" by (simp add: cs'_def)
    ultimately have "dll cs' li (as @ bs)"
      using d as la lb False by (auto simp: dll_def links_append upd p_def [symmetric] n_def [symmetric])
    moreover have "same_data cs cs'" "unchanged_off (set (as @ i # bs)) cs cs'"
      using p n by (auto simp: cs'_def same_data_def unchanged_off_def nth_list_update)
    ultimately show ?thesis
      using hd tl prv nxt p n by (auto simp: rem_here_def cs'_def Let_def)
  qed
qed
lemma rem_loop_dll:
  assumes "dll cs li (as @ bs)" and "i \<notin> set as" and "length bs < fuel"
  shows "rem_loop fuel li (if bs = [] then None else Some (hd bs)) i cs =
    (if i \<in> set bs then rbind (rem_here li i cs) (\<lambda>(li, cs). Inr (True, li, cs))
     else Inr (False, li, cs))"
  using assms
proof (induction bs arbitrary: as fuel)
  case Nil
  then show ?case by (cases fuel) auto
next
  case (Cons b bs)
  obtain f where f: "fuel = Suc f" using Cons.prems(3) by (cases fuel) auto
  show ?case
  proof (cases "b = i")
    case True
    then show ?thesis by (simp add: f)
  next
    case False
    have "nxt (cs ! b) = (if bs = [] then None else Some (hd bs))"
      using Cons.prems(1) by (cases bs) (auto simp: dll_def links_append)
    with Cons.IH [of "as @ [b]" f] Cons.prems False show ?thesis by (simp add: f)
  qed
qed

lemma rem_dll:
  assumes d: "dll cs li xs" and i: "i \<in> set xs"
  shows "\<exists>li' cs'. rem li i cs = Inr (True, li', cs') \<and> dll cs' li' (remove1 i xs) \<and>
    same_data cs cs' \<and> unchanged_off (set xs) cs cs'"
proof -
  obtain as bs where xs: "xs = as @ i # bs" and ni: "i \<notin> set as"
    using i by (meson split_list_first)
  have "rem li i cs = rbind (rem_here li i cs) (\<lambda>(li, cs). Inr (True, li, cs))"
    using rem_loop_dll [of cs li "[]" xs i "Suc (length cs)"] d i dll_length [OF d]
    by (auto simp: rem_def dll_def split: if_splits)
  then show ?thesis
    using rem_here_dll [of cs li as i bs] d ni by (auto simp: xs remove1_append)
qed

lemma rem_absent:
  assumes d: "dll cs li xs" and i: "i \<notin> set xs"
  shows "rem li i cs = Inr (False, li, cs)"
  using rem_loop_dll [of cs li "[]" xs i "Suc (length cs)"] d i dll_length [OF d]
  by (auto simp: rem_def dll_def split: if_splits)

subsection \<open>The interface the allocator uses\<close>

text \<open>
  A queue of descriptors over a shared array: \<open>rep cs li xs\<close> is the abstraction,
  \<open>off S\<close> the frame (nothing outside \<open>S\<close> changes) and \<open>same\<close> says that the payload is
  kept. The two transfers are what the allocator does with its lists.
\<close>

locale ctl_queue =
  fixes pushq :: "'li \<Rightarrow> nat \<Rightarrow> 'cs \<Rightarrow> 'li \<times> 'cs"
    and popq :: "'li \<Rightarrow> 'cs \<Rightarrow> nat option \<times> 'li \<times> 'cs"
    and remq :: "'li \<Rightarrow> nat \<Rightarrow> 'cs \<Rightarrow> (bool \<times> 'li \<times> 'cs) res"
    and rep :: "'cs \<Rightarrow> 'li \<Rightarrow> nat list \<Rightarrow> bool"
    and same :: "'cs \<Rightarrow> 'cs \<Rightarrow> bool"
    and off :: "nat set \<Rightarrow> 'cs \<Rightarrow> 'cs \<Rightarrow> bool"
    and sz :: "'cs \<Rightarrow> nat"
  assumes push_law: "rep cs li xs \<Longrightarrow> i < sz cs \<Longrightarrow> i \<notin> set xs \<Longrightarrow> pushq li i cs = (li', cs') \<Longrightarrow>
      rep cs' li' (i # xs) \<and> same cs cs' \<and> off (set (i # xs)) cs cs'"
    and pop_nil_law: "rep cs li [] \<Longrightarrow> popq li cs = (None, li, cs)"
    and pop_law: "rep cs li (x # xs) \<Longrightarrow> popq li cs = (r, li', cs') \<Longrightarrow>
      r = Some x \<and> rep cs' li' xs \<and> same cs cs' \<and> off {x} cs cs'"
    and rem_law: "rep cs li xs \<Longrightarrow> i \<in> set xs \<Longrightarrow>
      \<exists>li' cs'. remq li i cs = Inr (True, li', cs') \<and> rep cs' li' (remove1 i xs) \<and>
        same cs cs' \<and> off (set xs) cs cs'"
    and rem_absent_law: "rep cs li xs \<Longrightarrow> i \<notin> set xs \<Longrightarrow> remq li i cs = Inr (False, li, cs)"
    and frame_law: "rep cs li xs \<Longrightarrow> off S cs cs' \<Longrightarrow> S \<inter> set xs = {} \<Longrightarrow> rep cs' li xs"
    and rep_bound: "rep cs li xs \<Longrightarrow> set xs \<subseteq> {..<sz cs} \<and> distinct xs"
    and same_sz: "same cs cs' \<Longrightarrow> sz cs' = sz cs"
    and same_comp: "same a b \<Longrightarrow> same b c \<Longrightarrow> same a c"
    and off_comp: "off S a b \<Longrightarrow> off T b c \<Longrightarrow> off (S \<union> T) a c"
begin

lemma transfer_pop:
  assumes a: "rep cs la (x # xs)" and b: "rep cs lb ys" and disj: "set (x # xs) \<inter> set ys = {}"
  shows "\<exists>la' lb' cs1 cs2. popq la cs = (Some x, la', cs1) \<and> pushq lb x cs1 = (lb', cs2) \<and>
    rep cs2 la' xs \<and> rep cs2 lb' (x # ys) \<and> same cs cs2 \<and> off (set (x # ys)) cs cs2"
proof -
  obtain r la' cs1 where p: "popq la cs = (r, la', cs1)" by (cases "popq la cs")
  from pop_law [OF a p] have r: "r = Some x" and a1: "rep cs1 la' xs"
    and s1: "same cs cs1" and o1: "off {x} cs cs1" by auto
  obtain lb' cs2 where q: "pushq lb x cs1 = (lb', cs2)" by (cases "pushq lb x cs1")
  have b1: "rep cs1 lb ys" using frame_law [OF b o1] disj by auto
  have x: "x < sz cs1" using rep_bound [OF a] same_sz [OF s1] by auto
  from push_law [OF b1 x _ q] disj have b2: "rep cs2 lb' (x # ys)" and s2: "same cs1 cs2"
    and o2: "off (set (x # ys)) cs1 cs2" by auto
  have a2: "rep cs2 la' xs" using frame_law [OF a1 o2] disj rep_bound [OF a] by auto
  have "off (set (x # ys)) cs cs2" using off_comp [OF o1 o2] by (simp add: insert_absorb)
  with p q r a2 b2 same_comp [OF s1 s2] show ?thesis by blast
qed

lemma transfer_rem:
  assumes a: "rep cs la xs" and x: "x \<in> set xs" and b: "rep cs lb ys" and disj: "set xs \<inter> set ys = {}"
  shows "\<exists>la' lb' cs1 cs2. remq la x cs = Inr (True, la', cs1) \<and> pushq lb x cs1 = (lb', cs2) \<and>
    rep cs2 la' (remove1 x xs) \<and> rep cs2 lb' (x # ys) \<and> same cs cs2 \<and>
    off (set xs \<union> set ys) cs cs2"
proof -
  from rem_law [OF a x] obtain la' cs1 where p: "remq la x cs = Inr (True, la', cs1)"
    and a1: "rep cs1 la' (remove1 x xs)" and s1: "same cs cs1" and o1: "off (set xs) cs cs1" by blast
  obtain lb' cs2 where q: "pushq lb x cs1 = (lb', cs2)" by (cases "pushq lb x cs1")
  have b1: "rep cs1 lb ys" using frame_law [OF b o1] disj by auto
  have xs: "x < sz cs1" "x \<notin> set ys" using rep_bound [OF a] same_sz [OF s1] x disj by auto
  from push_law [OF b1 xs q] have b2: "rep cs2 lb' (x # ys)" and s2: "same cs1 cs2"
    and o2: "off (set (x # ys)) cs1 cs2" by auto
  have "set (x # ys) \<inter> set (remove1 x xs) = {}" using rep_bound [OF a] disj by auto
  then have a2: "rep cs2 la' (remove1 x xs)" using frame_law [OF a1 o2] by auto
  have "off (set xs \<union> set (x # ys)) cs cs2" by (rule off_comp [OF o1 o2])
  moreover have "set xs \<union> set (x # ys) = set xs \<union> set ys" using x by auto
  ultimately show ?thesis using p q a2 b2 same_comp [OF s1 s2] by metis
qed

end

interpretation ctlq: ctl_queue push pop rem dll same_data unchanged_off length
proof (unfold_locales, goal_cases)
  case (1 cs li xs i li' cs')
  then show ?case using push_dll by blast
next
  case (2 cs li)
  then show ?case by (rule pop_Nil)
next
  case (3 cs li x xs r li' cs')
  show ?case using pop_dll [OF 3] by simp
next
  case (4 cs li xs i)
  then show ?case by (rule rem_dll)
next
  case (5 cs li xs i)
  then show ?case by (rule rem_absent)
next
  case (6 cs li xs S cs')
  then show ?case by (rule dll_frame)
next
  case (7 cs li xs)
  then show ?case by (simp add: dll_def)
qed (auto simp: same_data_def intro: unchanged_off_trans same_data_trans)

text \<open>The two composed moves of the code.\<close>

lemma pop_and_push_dll:
  assumes "dll cs la (x # xs)" and "dll cs lb ys" and "set (x # xs) \<inter> set ys = {}"
  shows "\<exists>la' lb' cs'. pop_and_push la lb cs = (True, la', lb', cs') \<and> dll cs' la' xs \<and>
    dll cs' lb' (x # ys) \<and> same_data cs cs' \<and> unchanged_off (set (x # ys)) cs cs'"
  using ctlq.transfer_pop [OF assms] by (auto simp: pop_and_push_def)

lemma rem_and_push_dll:
  assumes "dll cs la xs" and "x \<in> set xs" and "dll cs lb ys" and "set xs \<inter> set ys = {}"
  shows "\<exists>la' lb' cs'. rem_and_push la lb x cs = Inr (True, la', lb', cs') \<and>
    dll cs' la' (remove1 x xs) \<and> dll cs' lb' (x # ys) \<and> same_data cs cs' \<and>
    unchanged_off (set xs \<union> set ys) cs cs'"
  using ctlq.transfer_rem [OF assms] by (auto simp: rem_and_push_def)

lemma rem_and_push_absent:
  assumes "dll cs la xs" and "x \<notin> set xs"
  shows "rem_and_push la lb x cs = Inr (False, la, lb, cs)"
  by (simp add: rem_and_push_def rem_absent [OF assms])

subsection \<open>Properties\<close>

text \<open>
  C19: on well-linked, disjoint lists \<open>rem_and_push\<close> terminates without tripping its assert,
  and moves the item, if the source list holds it, from there to the head of the
  destination, keeping both lists well linked and every descriptor's payload.
\<close>

theorem rem_and_push_correct:
  assumes "dll cs src xs" and "dll cs dest ys" and "set xs \<inter> set ys = {}"
  shows "\<exists>src' dest' cs'. rem_and_push src dest i cs = Inr (i \<in> set xs, src', dest', cs') \<and>
    dll cs' src' (remove1 i xs) \<and> dll cs' dest' (if i \<in> set xs then i # ys else ys) \<and>
    same_data cs cs'"
proof (cases "i \<in> set xs")
  case True
  then show ?thesis using rem_and_push_dll [OF assms(1) True assms(2,3)] by auto
next
  case False
  then show ?thesis
    using assms rem_and_push_absent [OF assms(1) False] by (simp add: remove1_idem)
qed

definition ctl0 :: slab_ctl where
  "ctl0 = \<lparr>nused = 0, nindex = 0, slots = [], nxt = None, prv = None, ctl_cache = None\<rparr>"

theorem rem_and_push_correct_witness:
  "\<exists>src' dest' cs'.
     rem_and_push \<lparr>lhead = Some 0, ltail = Some 1\<rparr> \<lparr>lhead = Some 2, ltail = Some 2\<rparr> 1
       [ctl0\<lparr>nxt := Some 1\<rparr>, ctl0\<lparr>prv := Some 0\<rparr>, ctl0] = Inr (True, src', dest', cs') \<and>
     dll cs' src' [0] \<and> dll cs' dest' [1, 2]"
proof -
  define cs where "cs = [ctl0\<lparr>nxt := Some 1\<rparr>, ctl0\<lparr>prv := Some 0\<rparr>, ctl0]"
  have "dll cs \<lparr>lhead = Some 0, ltail = Some 1\<rparr> [0, 1]"
    and "dll cs \<lparr>lhead = Some 2, ltail = Some 2\<rparr> [2]"
    by (simp_all add: cs_def dll_def ctl0_def)
  from rem_and_push_correct [OF this, of 1] show ?thesis by (auto simp: cs_def)
qed

end
