(* ===== verification/Size_Class.thy ===== *)
theory Size_Class
  imports Complex_Main Ctl_List
begin

text \<open>
  The size classes of \<open>src/slab.c\<close>: the table of caches that \<open>init_cache_manager\<close> builds
  and the binary-search-like \<open>size_to_cache\<close> that rounds a request up to a class. The
  C doubles \<open>chunk_size_factor\<close>, \<open>log\<close> and \<open>floor\<close> are read as exact real numbers; for
  the factor 1.25 the server uses, 52428 lies well between two powers of it
  (\<open>cache_count_125\<close>), so rounding cannot change the count, and \<open>size * 1.25\<close> is exact
  in a double.
\<close>

subsection \<open>Data\<close>

record cache_t =
  chunk_size :: nat
  chunk_count_perslab :: nat
  slabs_full :: list_t
  slabs_partial :: list_t

definition INT_MAX :: nat where
  "INT_MAX = 2147483647"

subsection \<open>Mapping a size to its cache\<close>

text \<open>
  The loop of \<open>size_to_cache\<close>: \<open>Inr m\<close> is the early return of \<open>&arr[m]\<close>, \<open>Inl r\<close> the
  value of \<open>r\<close> when the loop ends. The bounds are the \<open>int\<close>s of the code; with at most
  \<open>2 ^ 30\<close> classes \<open>l + r\<close> does not overflow.
\<close>

function size_to_cache_loop :: "cache_t list \<Rightarrow> nat \<Rightarrow> int \<Rightarrow> int \<Rightarrow> int + nat" where
  "size_to_cache_loop arr key l r =
     (if l < r then
        (let m = (l + r) div 2; msize = chunk_size (arr ! nat m) in
         if msize < key then size_to_cache_loop arr key (m + 1) r
         else if key < msize then size_to_cache_loop arr key l (m - 1)
         else Inr (nat m))
      else Inl r)"
  by pat_completeness auto
termination
  by (relation "measure (\<lambda>(arr, key, l, r). nat (r - l))") auto

declare size_to_cache_loop.simps [simp del]

definition size_to_cache :: "cache_t list option \<Rightarrow> nat \<Rightarrow> nat \<Rightarrow> nat option" where
  "size_to_cache arr arr_size key =
     (case arr of
        None \<Rightarrow> None
      | Some arr \<Rightarrow>
          if INT_MAX \<le> arr_size \<or> arr_size < 1 then None
          else
            (case size_to_cache_loop arr key 0 (int arr_size - 1) of
               Inr m \<Rightarrow> Some m
             | Inl r \<Rightarrow>
                 (let r = nat (if r < 0 then 0 else r) in
                  if key \<le> chunk_size (arr ! r) then Some r
                  else if r < arr_size - 1 then
                    (if key \<le> chunk_size (arr ! (r + 1)) then Some (r + 1) else None)
                  else None)))"

subsection \<open>The table of caches\<close>

text \<open>\<open>logbn\<close>, the number of caches and the loop that fills them in \<open>init_cache_manager\<close>.\<close>

definition logbn :: "real \<Rightarrow> real \<Rightarrow> real" where
  "logbn base x = ln x / ln base"

definition cache_count_for :: "real \<Rightarrow> nat" where
  "cache_count_for factor =
     u32 (nat \<lfloor>logbn factor (real (SLAB_SIZE div MIN_SLAB_CHUNK_SIZE))\<rfloor> + (2 ^ 32 - 1))"

definition align_chunk :: "nat \<Rightarrow> nat" where
  "align_chunk sz =
     (if sz mod CHUNK_ALIGN_BYTES \<noteq> 0
      then u32 (sz + (CHUNK_ALIGN_BYTES - sz mod CHUNK_ALIGN_BYTES)) else sz)"

definition scale_chunk :: "real \<Rightarrow> nat \<Rightarrow> nat" where
  "scale_chunk factor sz = u32 (nat \<lfloor>real sz * factor\<rfloor>)"

fun init_caches_loop :: "real \<Rightarrow> nat \<Rightarrow> nat \<Rightarrow> cache_t list" where
  "init_caches_loop factor 0 sz = []"
| "init_caches_loop factor (Suc n) sz =
     (let sz = align_chunk sz in
      \<lparr>chunk_size = sz, chunk_count_perslab = SLAB_SIZE div sz,
       slabs_full = empty_list, slabs_partial = empty_list\<rparr>
      # init_caches_loop factor n (scale_chunk factor sz))"

definition init_caches :: "real \<Rightarrow> cache_t list" where
  "init_caches factor = init_caches_loop factor (cache_count_for factor) MIN_SLAB_CHUNK_SIZE"

definition SLAB_SIZE_FACTOR :: real where
  "SLAB_SIZE_FACTOR = 5 / 4"

subsection \<open>Well-formed tables\<close>

definition class_ok :: "cache_t \<Rightarrow> bool" where
  "class_ok c \<longleftrightarrow>
     0 < chunk_size c \<and> CHUNK_ALIGN_BYTES dvd chunk_size c \<and> chunk_size c \<le> SLAB_SIZE \<and>
     chunk_count_perslab c = SLAB_SIZE div chunk_size c \<and> chunk_count_perslab c \<le> BIT_COUNT"

definition classes_ok :: "cache_t list \<Rightarrow> bool" where
  "classes_ok cs \<longleftrightarrow> cs \<noteq> [] \<and> length cs < 2 ^ 30 \<and>
     sorted_wrt (<) (map chunk_size cs) \<and> list_all class_ok cs"

lemma class_count_pos: "class_ok c \<Longrightarrow> 0 < chunk_count_perslab c"
  by (simp add: class_ok_def div_greater_zero_iff)

lemma class_fits: "class_ok c \<Longrightarrow> chunk_count_perslab c * chunk_size c \<le> SLAB_SIZE"
  by (simp add: class_ok_def)

lemma classes_ok_nth: "classes_ok cs \<Longrightarrow> i < length cs \<Longrightarrow> class_ok (cs ! i)"
  by (simp add: classes_ok_def list_all_length)

lemma classes_strict:
  "classes_ok cs \<Longrightarrow> i < j \<Longrightarrow> j < length cs \<Longrightarrow> chunk_size (cs ! i) < chunk_size (cs ! j)"
  by (simp add: classes_ok_def sorted_wrt_iff_nth_less)

subsection \<open>The search is the linear search\<close>

text \<open>
  \<open>c\<close> is the answer when every class below it is too small and it is big enough (or it is
  past the end). The loop keeps \<open>l \<le> c \<le> r + 1\<close>.
\<close>

lemma size_to_cache_loop_spec:
  assumes "\<And>i j. i < j \<Longrightarrow> j < n \<Longrightarrow> chunk_size (arr ! i) < chunk_size (arr ! j)"
    and "\<And>i. i < c \<Longrightarrow> i < n \<Longrightarrow> chunk_size (arr ! i) < key"
    and "c < n \<Longrightarrow> key \<le> chunk_size (arr ! c)" and "c \<le> n"
    and "0 \<le> l" and "l \<le> int c" and "int c \<le> r + 1" and "r < int n" and "l \<le> r + 1"
  shows "case size_to_cache_loop arr key l r of
      Inr m \<Rightarrow> m = c \<and> c < n
    | Inl r' \<Rightarrow> r' \<le> int c \<and> int c \<le> r' + 1 \<and> -1 \<le> r' \<and> r' < int n"
  using assms(5-)
proof (induction "nat (r - l)" arbitrary: l r rule: less_induct)
  case less
  show ?case
  proof (cases "l < r")
    case False
    with less.prems show ?thesis by (subst size_to_cache_loop.simps) auto
  next
    case True
    define m where "m = (l + r) div 2"
    have m: "l \<le> m" "m < r" using True by (auto simp: m_def)
    with less.prems have mn: "nat m < n" by auto
    consider "chunk_size (arr ! nat m) < key" | "key < chunk_size (arr ! nat m)"
      | "key = chunk_size (arr ! nat m)" by linarith
    then show ?thesis
    proof cases
      case 1
      have "nat m < c"
      proof (rule ccontr)
        assume "\<not> nat m < c"
        then have "c < n" "c \<le> nat m" using mn by auto
        then have "key \<le> chunk_size (arr ! nat m)"
          using assms(1) [of c "nat m"] assms(3) mn by (cases "c = nat m") auto
        with 1 show False by simp
      qed
      with less.hyps [of r "m + 1"] less.prems m True 1 show ?thesis
        by (subst size_to_cache_loop.simps) (auto simp: m_def Let_def)
    next
      case 2
      have "c \<le> nat m"
      proof (rule ccontr)
        assume "\<not> c \<le> nat m"
        then have "chunk_size (arr ! nat m) < key" using assms(2) mn by auto
        with 2 show False by simp
      qed
      with less.hyps [of "m - 1" l] less.prems m True 2 show ?thesis
        by (subst size_to_cache_loop.simps) (auto simp: m_def Let_def)
    next
      case 3
      have "nat m = c"
      proof (rule ccontr)
        assume "nat m \<noteq> c"
        then consider "nat m < c" | "c < nat m" by linarith
        then show False
        proof cases
          case 1
          with assms(2) [OF _ mn] 3 show False by simp
        next
          case 2
          with assms(1) [OF 2 mn] assms(3) mn 3 show False by simp
        qed
      qed
      with True 3 mn show ?thesis
        by (subst size_to_cache_loop.simps) (auto simp: m_def Let_def)
    qed
  qed
qed

lemma find_first_index:
  assumes "c \<le> n" and "\<And>i. i < c \<Longrightarrow> \<not> P i" and "c < n \<Longrightarrow> P c"
  shows "find P [0..<n] = (if c < n then Some c else None)"
  using assms by (auto simp: find_Some_iff find_None_iff intro!: exI [of _ c])

lemma find_first_split:
  fixes n :: nat
  obtains c where "c \<le> n" and "\<And>i. i < c \<Longrightarrow> \<not> P i" and "c < n \<Longrightarrow> P c"
proof (cases "\<exists>i < n. P i")
  case True
  define c where "c = (LEAST i. P i)"
  from True obtain i where i: "i < n" "P i" by blast
  have "P c" unfolding c_def by (rule LeastI [of P, OF i(2)])
  moreover have "c < n" using i Least_le [of P i] by (simp add: c_def)
  moreover have "\<not> P j" if "j < c" for j using that unfolding c_def by (rule not_less_Least)
  ultimately show thesis by (intro that [of c]) auto
next
  case False
  with that [of n] show thesis by auto
qed

lemma size_to_cache_find:
  assumes cs: "classes_ok cs" and n: "n \<le> length cs" "0 < n"
  shows "size_to_cache (Some cs) n key = find (\<lambda>i. key \<le> chunk_size (cs ! i)) [0..<n]"
proof -
  obtain c where c: "c \<le> n" "\<And>i. i < c \<Longrightarrow> chunk_size (cs ! i) < key"
    "c < n \<Longrightarrow> key \<le> chunk_size (cs ! c)"
    using find_first_split [of n "\<lambda>i. key \<le> chunk_size (cs ! i)"] by (metis linorder_not_le)
  have len: "n < INT_MAX" using cs n by (simp add: classes_ok_def INT_MAX_def)
  have strict: "\<And>i j. i < j \<Longrightarrow> j < n \<Longrightarrow> chunk_size (cs ! i) < chunk_size (cs ! j)"
    using classes_strict [OF cs] n by simp
  note spec = size_to_cache_loop_spec [of n cs c key 0 "int n - 1"]
  have f: "find (\<lambda>i. key \<le> chunk_size (cs ! i)) [0..<n] = (if c < n then Some c else None)"
    using c by (intro find_first_index) (auto simp: not_le)
  show ?thesis
  proof (cases "size_to_cache_loop cs key 0 (int n - 1)")
    case (Inr m)
    have "m = c \<and> c < n" using spec strict c n Inr by auto
    with Inr len n f show ?thesis by (simp add: size_to_cache_def)
  next
    case (Inl r)
    have r: "r \<le> int c" "int c \<le> r + 1" "-1 \<le> r" "r < int n" using spec strict c n Inl by auto
    define q where "q = nat (if r < 0 then 0 else r)"
    have q: "c = q \<or> c = q + 1" "q < n" using r n by (auto simp: q_def split: if_splits)
    have eval: "size_to_cache (Some cs) n key =
        (if key \<le> chunk_size (cs ! q) then Some q
         else if q < n - 1 then
           (if key \<le> chunk_size (cs ! (q + 1)) then Some (q + 1) else None) else None)"
      using Inl len n by (simp add: size_to_cache_def q_def Let_def)
    from q(1) show ?thesis
    proof
      assume "c = q"
      with c q f eval show ?thesis by simp
    next
      assume cq: "c = q + 1"
      then have "\<not> key \<le> chunk_size (cs ! q)" using c(2) [of q] by (simp add: not_le)
      moreover have "q < n - 1 \<longleftrightarrow> c < n" using cq by auto
      ultimately show ?thesis using cq c(3) f eval by auto
    qed
  qed
qed

lemma size_to_cache_fits:
  assumes cs: "classes_ok cs" and k: "key \<le> chunk_size (last cs)"
  shows "\<exists>i. size_to_cache (Some cs) (length cs) key = Some i \<and> i < length cs \<and>
    key \<le> chunk_size (cs ! i) \<and> (\<forall>j < i. chunk_size (cs ! j) < key)"
proof -
  have ne: "cs \<noteq> []" using cs by (simp add: classes_ok_def)
  then have l: "key \<le> chunk_size (cs ! (length cs - 1))" using k by (simp add: last_conv_nth)
  obtain i where "find (\<lambda>i. key \<le> chunk_size (cs ! i)) [0..<length cs] = Some i"
    using l ne by (metis (no_types, lifting) atLeastLessThan_iff diff_less find_None_iff
        length_greater_0_conv not_Some_eq set_upt zero_le zero_less_one)
  with size_to_cache_find [OF cs, of "length cs" key] ne show ?thesis
    by (auto simp: find_Some_iff not_le)
qed

subsection \<open>The table for the factor 1.25\<close>

lemma floor_log_eq:
  assumes b: "1 < b" and "b ^ n \<le> x" and "x < b ^ Suc n"
  shows "\<lfloor>logbn b x\<rfloor> = int n"
proof -
  have x: "0 < x" using assms by (meson less_le_trans zero_less_one zero_less_power less_trans)
  have "real n * ln b \<le> ln x"
    using assms x by (simp add: ln_realpow [symmetric])
  moreover have "ln x < (real n + 1) * ln b"
  proof -
    have "ln x < ln (b ^ Suc n)" using assms x by (subst ln_less_cancel_iff) auto
    then have "ln x < real (Suc n) * ln b" using b by (simp only: ln_realpow)
    then show ?thesis by (simp add: add.commute)
  qed
  moreover have "0 < ln b" using b by simp
  ultimately have "real n \<le> logbn b x" "logbn b x < real n + 1"
    by (simp_all add: logbn_def field_simps)
  then show ?thesis by (simp add: floor_unique)
qed

lemma cache_count_125: "cache_count_for SLAB_SIZE_FACTOR = 47"
proof -
  have "\<lfloor>logbn (5 / 4) 52428\<rfloor> = int 48"
    by (rule floor_log_eq) (simp_all add: power_divide divide_simps)
  then show ?thesis
    by (simp add: cache_count_for_def SLAB_SIZE_FACTOR_def slab_consts u32_def)
qed

lemma scale_chunk_125: "scale_chunk SLAB_SIZE_FACTOR n = u32 (n * 5 div 4)"
proof -
  have "\<lfloor>real n * (5 / 4)\<rfloor> = int (n * 5 div 4)"
  proof -
    have "real n * (5 / 4) = real (n * 5) / real 4" by simp
    then show ?thesis by (simp only: floor_divide_of_nat_eq)
  qed
  then show ?thesis by (simp add: scale_chunk_def SLAB_SIZE_FACTOR_def del: of_nat_mult)
qed

definition sizes_125 :: "nat list" where
  "sizes_125 =
    [24, 32, 40, 56, 72, 96, 120, 152, 192, 240, 304, 384, 480, 600, 752, 944, 1184, 1480,
     1856, 2320, 2904, 3632, 4544, 5680, 7104, 8880, 11104, 13880, 17352, 21696, 27120, 33904,
     42384, 52984, 66232, 82792, 103496, 129376, 161720, 202152, 252696, 315872, 394840,
     493552, 616944, 771184, 963984]"

definition cache_of_size :: "nat \<Rightarrow> cache_t" where
  "cache_of_size n = \<lparr>chunk_size = n, chunk_count_perslab = SLAB_SIZE div n,
     slabs_full = empty_list, slabs_partial = empty_list\<rparr>"

lemma init_caches_loop_numeral:
  "init_caches_loop f (numeral k) n =
     \<lparr>chunk_size = align_chunk n, chunk_count_perslab = SLAB_SIZE div align_chunk n,
      slabs_full = empty_list, slabs_partial = empty_list\<rparr>
     # init_caches_loop f (pred_numeral k) (scale_chunk f (align_chunk n))"
  by (simp add: numeral_eq_Suc Let_def)

lemma init_caches_125: "init_caches SLAB_SIZE_FACTOR = map cache_of_size sizes_125"
proof -
  have "init_caches_loop SLAB_SIZE_FACTOR 47 20 = map cache_of_size sizes_125"
    by (simp add: init_caches_loop_numeral scale_chunk_125 align_chunk_def
        CHUNK_ALIGN_BYTES_def u32_def sizes_125_def cache_of_size_def Let_def)
  then show ?thesis by (simp add: init_caches_def cache_count_125 MIN_SLAB_CHUNK_SIZE_def)
qed

lemma classes_ok_125: "classes_ok (init_caches SLAB_SIZE_FACTOR)"
proof -
  have "sorted_wrt (<) sizes_125" by (simp add: sizes_125_def)
  moreover have "list_all (\<lambda>n. class_ok (cache_of_size n)) sizes_125"
    by (simp add: sizes_125_def class_ok_def cache_of_size_def slab_consts WORD_COUNT_eq)
  moreover have "map chunk_size (map cache_of_size sizes_125) = sizes_125"
    by (simp add: comp_def cache_of_size_def)
  moreover have "sizes_125 \<noteq> []" "length sizes_125 < 2 ^ 30" by (simp_all add: sizes_125_def)
  ultimately show ?thesis
    by (simp only: classes_ok_def init_caches_125) (simp add: list_all_iff)
qed

subsection \<open>Properties\<close>

text \<open>
  C20: on every well-formed table \<open>size_to_cache\<close> is the linear search for the first class
  that is big enough: the smallest one that holds the key, and NULL when none does.
\<close>

theorem size_to_cache_linear:
  assumes "classes_ok cs" and "0 < n" and "n \<le> length cs"
  shows "size_to_cache (Some cs) n key = find (\<lambda>i. key \<le> chunk_size (cs ! i)) [0..<n]"
  using size_to_cache_find assms by blast

theorem size_to_cache_linear_witness:
  "classes_ok (init_caches SLAB_SIZE_FACTOR) \<and>
   size_to_cache (Some (init_caches SLAB_SIZE_FACTOR)) 3 33 = Some 2"
proof -
  have ok: "classes_ok (init_caches SLAB_SIZE_FACTOR)" by (rule classes_ok_125)
  have l: "(3 :: nat) \<le> length (init_caches SLAB_SIZE_FACTOR)"
    by (simp add: init_caches_125 sizes_125_def)
  have "find (\<lambda>i. 33 \<le> chunk_size (init_caches SLAB_SIZE_FACTOR ! i)) [0..<3] = Some 2"
    by (simp add: init_caches_125 sizes_125_def cache_of_size_def upt_rec)
  then show ?thesis using ok size_to_cache_linear [OF ok _ l, of 33] by simp
qed

text \<open>
  C21: with the factor 1.25 \<open>init_cache_manager\<close> makes 47 caches whose chunk sizes grow
  strictly from 24 to 963984, are multiples of 8, fit in a slab, and whose chunks per slab
  fit in the bit set of a slab descriptor.
\<close>

theorem init_caches_well_formed:
  "length (init_caches SLAB_SIZE_FACTOR) = 47 \<and> classes_ok (init_caches SLAB_SIZE_FACTOR) \<and>
   chunk_size (hd (init_caches SLAB_SIZE_FACTOR)) = 24 \<and>
   chunk_size (last (init_caches SLAB_SIZE_FACTOR)) = 963984 \<and>
   list_all (\<lambda>c. 0 < chunk_count_perslab c \<and>
     chunk_count_perslab c * chunk_size c \<le> SLAB_SIZE) (init_caches SLAB_SIZE_FACTOR)"
proof -
  have "list_all class_ok (init_caches SLAB_SIZE_FACTOR)"
    using classes_ok_125 by (simp add: classes_ok_def)
  then have "list_all (\<lambda>c. 0 < chunk_count_perslab c \<and>
      chunk_count_perslab c * chunk_size c \<le> SLAB_SIZE) (init_caches SLAB_SIZE_FACTOR)"
    by (auto simp: list_all_iff class_count_pos class_fits)
  moreover have "length (init_caches SLAB_SIZE_FACTOR) = 47"
    "chunk_size (hd (init_caches SLAB_SIZE_FACTOR)) = 24"
    "chunk_size (last (init_caches SLAB_SIZE_FACTOR)) = 963984"
    by (simp_all add: init_caches_125 sizes_125_def cache_of_size_def)
  ultimately show ?thesis using classes_ok_125 by blast
qed

end
