(* ===== verification/Slab.thy ===== *)
theory Slab
  imports Size_Class
begin

text \<open>
  The slab allocator of \<open>src/slab.c\<close>: \<open>init_cache_manager\<close>, \<open>deinit_cache_manager\<close>,
  \<open>scmalloc\<close> and \<open>scfree\<close> with the state they share. Addresses are natural numbers and 0
  is NULL. The C library's \<open>malloc\<close> is the argument \<open>mf\<close>, which sees the blocks that are
  allocated and the size asked for; \<open>malloc_ok\<close> is what the C standard promises of it.
\<close>

subsection \<open>The C library heap, malloci and freei\<close>

text \<open>A block: its base address, its length and the word \<open>malloci\<close> stores at its start.\<close>

type_synonym sysheap = "(nat \<times> nat \<times> nat) list"
type_synonym malloc_fun = "sysheap \<Rightarrow> nat \<Rightarrow> nat option"

definition block_free :: "sysheap \<Rightarrow> nat \<Rightarrow> nat \<Rightarrow> bool" where
  "block_free h a n \<longleftrightarrow> list_all (\<lambda>(b, l, _). a + n \<le> b \<or> b + l \<le> a) h"

definition malloc_ok :: "malloc_fun \<Rightarrow> bool" where
  "malloc_ok mf \<longleftrightarrow>
     (\<forall>h n a. mf h n = Some a \<longrightarrow> 0 < a \<and> a + n < 2 ^ 64 \<and> block_free h a (max n 1))"

record slab_stats_t =
  sl_mem_used :: nat
  sl_mem_mallocd :: nat
  sl_mem_limit :: nat
  sl_mem_used_metadata :: nat
  sl_cache_count :: nat
  sl_slab_count :: nat

record cache_manager_t =
  cm_self :: nat
  caches_ptr :: nat
  caches :: "cache_t list"
  cache_count :: nat
  slab_ctls_ptr :: nat
  slab_ctls :: ctls
  slabctl_count :: nat
  slabs_free :: list_t
  slabs :: nat

record slab_state =
  cm :: "cache_manager_t option"
  slab_stats :: slab_stats_t
  sysheap :: sysheap

definition malloci :: "malloc_fun \<Rightarrow> nat \<Rightarrow> slab_state \<Rightarrow> nat option \<times> slab_state" where
  "malloci mf n s =
     (let real_size = u64 (n + 8) in
      case mf (sysheap s) real_size of
        None \<Rightarrow> (None, s)
      | Some p \<Rightarrow>
          (Some (p + 8),
           s\<lparr>sysheap := (p, real_size, real_size) # sysheap s,
             slab_stats := (slab_stats s)
               \<lparr>sl_mem_mallocd := u64 (sl_mem_mallocd (slab_stats s) + real_size)\<rparr>\<rparr>))"

definition freei :: "nat \<Rightarrow> slab_state \<Rightarrow> slab_state res" where
  "freei ptr s =
     rbind (rassert (ptr \<noteq> 0)) (\<lambda>_.
       let real_ptr = ptr - 8 in
       case find (\<lambda>b. fst b = real_ptr) (sysheap s) of
         None \<Rightarrow> Inl Bad_free
       | Some b \<Rightarrow>
           Inr (s\<lparr>sysheap := remove1 b (sysheap s),
             slab_stats := (slab_stats s)
               \<lparr>sl_mem_mallocd := sub64 (sl_mem_mallocd (slab_stats s)) (snd (snd b))\<rparr>\<rparr>))"

subsection \<open>Set-up and tear-down\<close>

text \<open>Sizes of the structures on a 64-bit target.\<close>

definition sizeof_cache_manager :: nat where
  "sizeof_cache_manager = 56"

definition sizeof_cache :: nat where
  "sizeof_cache = 40"

definition sizeof_slab_ctl :: nat where
  "sizeof_slab_ctl = 4 + 4 + 8 * WORD_COUNT + 3 * 8"

definition init_slab_ctls :: "nat \<Rightarrow> ctls" where
  "init_slab_ctls n =
     map (\<lambda>i. \<lparr>nused = 0, nindex = i, slots = full_bitset,
                nxt = (if i = n - 1 then None else Some (i + 1)),
                prv = (if i = 0 then None else Some (i - 1)), ctl_cache = None\<rparr>) [0..<n]"

definition freei_if :: "nat \<Rightarrow> slab_state \<Rightarrow> slab_state res" where
  "freei_if ptr s = (if ptr \<noteq> 0 then freei ptr s else Inr s)"

definition deinit_cache_manager :: "slab_state \<Rightarrow> slab_state res" where
  "deinit_cache_manager s =
     (case cm s of
        None \<Rightarrow> Inr s
      | Some c \<Rightarrow>
          rbind (freei_if (caches_ptr c) s) (\<lambda>s.
          rbind (freei_if (slab_ctls_ptr c) s) (\<lambda>s.
          rbind (freei_if (slabs c) s) (\<lambda>s.
          rbind (freei (cm_self c) s) (\<lambda>s.
            let s = s\<lparr>cm := None, slab_stats := (slab_stats s)
                \<lparr>sl_mem_used_metadata := 0, sl_mem_used := 0, sl_mem_limit := 0,
                 sl_cache_count := 0, sl_slab_count := 0\<rparr>\<rparr> in
            rbind (rassert (sl_mem_mallocd (slab_stats s) = 0)) (\<lambda>_. Inr s))))))"

text \<open>\<open>goto err\<close> in \<open>init_cache_manager\<close>.\<close>

definition init_err :: "slab_state \<Rightarrow> (bool \<times> slab_state) res" where
  "init_err s = rbind (deinit_cache_manager s) (\<lambda>s. Inr (False, s))"

definition slabctl_count_for :: "nat \<Rightarrow> nat \<Rightarrow> nat" where
  "slabctl_count_for limit mallocd =
     u32 (sub64 (sub64 limit mallocd) (2 * 8) div (SLAB_SIZE + sizeof_slab_ctl))"

definition init_cache_manager ::
  "malloc_fun \<Rightarrow> nat \<Rightarrow> real \<Rightarrow> slab_state \<Rightarrow> (bool \<times> slab_state) res" where
  "init_cache_manager mf memory_limit factor s =
     (if cm s \<noteq> None then init_err s
      else
        (let s = s\<lparr>slab_stats := (slab_stats s)\<lparr>sl_mem_limit := u64 (memory_limit * 1024 * 1024)\<rparr>\<rparr> in
         case malloci mf sizeof_cache_manager s of
           (None, s) \<Rightarrow> init_err s
         | (Some self, s) \<Rightarrow>
        (let count = cache_count_for factor;
             c = \<lparr>cm_self = self, caches_ptr = 0, caches = [], cache_count = count,
                  slab_ctls_ptr = 0, slab_ctls = [], slabctl_count = 0,
                  slabs_free = empty_list, slabs = 0\<rparr>;
             s = s\<lparr>cm := Some c, slab_stats := (slab_stats s)\<lparr>sl_cache_count := count\<rparr>\<rparr> in
         case malloci mf (sizeof_cache * count) s of
           (None, s) \<Rightarrow> init_err s
         | (Some cp, s) \<Rightarrow>
        (let n = slabctl_count_for (sl_mem_limit (slab_stats s)) (sl_mem_mallocd (slab_stats s));
             c = c\<lparr>caches_ptr := cp, caches := init_caches factor, slabctl_count := n\<rparr>;
             s = s\<lparr>cm := Some c\<rparr> in
         if n \<le> 1 then init_err s
         else
        (let s = s\<lparr>slab_stats := (slab_stats s)\<lparr>sl_slab_count := n\<rparr>\<rparr> in
         case malloci mf (sizeof_slab_ctl * n) s of
           (None, s) \<Rightarrow> init_err s
         | (Some tp, s) \<Rightarrow>
        (let c = c\<lparr>slab_ctls_ptr := tp\<rparr>;
             s = s\<lparr>cm := Some c, slab_stats := (slab_stats s)
                   \<lparr>sl_mem_used_metadata := sl_mem_mallocd (slab_stats s)\<rparr>\<rparr> in
         case malloci mf (u32 (SLAB_SIZE * n)) s of
           (None, s) \<Rightarrow> init_err s
         | (Some sp, s) \<Rightarrow>
        (let c = c\<lparr>slabs := sp, slabs_free := \<lparr>lhead = Some 0, ltail = Some (n - 1)\<rparr>,
                   slab_ctls := init_slab_ctls n\<rparr>;
             s = s\<lparr>cm := Some c\<rparr> in
         rbind (rassert (sl_mem_mallocd (slab_stats s) \<le> sl_mem_limit (slab_stats s)))
           (\<lambda>_. Inr (True, s)))))))))"

subsection \<open>Allocating a chunk\<close>

text \<open>
  The slab a request of cache \<open>k\<close> is served from: the head of its partial list, or a free
  slab moved there. \<open>None\<close> is the \<open>return NULL\<close> of a memory that is used up.
\<close>

definition pick_slab :: "nat \<Rightarrow> cache_manager_t \<Rightarrow> nat option \<times> cache_manager_t" where
  "pick_slab k c =
     (case peek (slabs_partial (caches c ! k)) of
        Some i \<Rightarrow> (Some i, c)
      | None \<Rightarrow>
          (case pop (slabs_free c) (slab_ctls c) of
             (None, fr, cs) \<Rightarrow> (None, c\<lparr>slabs_free := fr, slab_ctls := cs\<rparr>)
           | (Some i, fr, cs) \<Rightarrow>
               (case push (slabs_partial (caches c ! k)) i cs of
                  (pa, cs) \<Rightarrow>
                    (Some i,
                     c\<lparr>slabs_free := fr,
                       caches := (caches c)[k := (caches c ! k)\<lparr>slabs_partial := pa\<rparr>],
                       slab_ctls := cs[i := (cs ! i)\<lparr>ctl_cache := Some k\<rparr>]\<rparr>))))"

text \<open>Taking the first free chunk of slab \<open>i\<close> for cache \<open>k\<close>; the result is the chunk's index.\<close>

definition take_chunk :: "nat \<Rightarrow> nat \<Rightarrow> cache_manager_t \<Rightarrow> (nat \<times> cache_manager_t) res" where
  "take_chunk k i c =
     (let ffindex = ff_setbit (slots (slab_ctls c ! i)) in
      rbind (rassert (ffindex \<noteq> -1)) (\<lambda>_.
      rbind (clear_bit_s (slots (slab_ctls c ! i)) (nat ffindex)) (\<lambda>b.
        let ctl = (slab_ctls c ! i)\<lparr>slots := b, nused := u32 (nused (slab_ctls c ! i) + 1)\<rparr>;
            c = c\<lparr>slab_ctls := (slab_ctls c)[i := ctl]\<rparr> in
        if nused ctl = chunk_count_perslab (caches c ! k) then
          (case pop_and_push (slabs_partial (caches c ! k)) (slabs_full (caches c ! k)) (slab_ctls c) of
             (_, pa, fu, cs) \<Rightarrow>
               Inr (nat ffindex,
                 c\<lparr>caches := (caches c)[k := (caches c ! k)\<lparr>slabs_partial := pa, slabs_full := fu\<rparr>],
                   slab_ctls := cs\<rparr>))
        else Inr (nat ffindex, c))))"

definition scmalloc :: "nat \<Rightarrow> slab_state \<Rightarrow> (nat option \<times> slab_state) res" where
  "scmalloc n s =
     (case cm s of
        None \<Rightarrow> Inl Assert_failed
      | Some c \<Rightarrow>
          rbind (rassert (caches_ptr c \<noteq> 0)) (\<lambda>_.
          if chunk_size (caches c ! (cache_count c - 1)) < n then Inr (None, s)
          else
            (case size_to_cache (Some (caches c)) (cache_count c) (u32 n) of
               None \<Rightarrow> Inl Null_deref
             | Some k \<Rightarrow>
                 (case pick_slab k c of
                    (None, c) \<Rightarrow> Inr (None, s\<lparr>cm := Some c\<rparr>)
                  | (Some i, c) \<Rightarrow>
                      rbind (rassert (ctl_cache (slab_ctls c ! i) = Some k)) (\<lambda>_.
                      rbind (take_chunk k i c) (\<lambda>(ffindex, c).
                        let result = slabs c + u32 (nindex (slab_ctls c ! i) * SLAB_SIZE)
                              + u32 (chunk_size (caches c ! k) * ffindex);
                            st = (slab_stats s)\<lparr>sl_mem_used :=
                              u64 (sl_mem_used (slab_stats s) + chunk_size (caches c ! k))\<rparr>;
                            s = s\<lparr>cm := Some c, slab_stats := st\<rparr> in
                        rbind (rassert (sl_mem_used st \<le> sl_mem_mallocd st))
                          (\<lambda>_. Inr (Some result, s))))))))"

subsection \<open>Freeing a chunk\<close>

text \<open>The list moves at the end of \<open>scfree\<close>, for slab \<open>i\<close> of cache \<open>k\<close> after \<open>--nused\<close>.\<close>

definition release_slab :: "nat \<Rightarrow> nat \<Rightarrow> cache_manager_t \<Rightarrow> cache_manager_t res" where
  "release_slab k i c =
     (let cc = caches c ! k in
      if nused (slab_ctls c ! i) = 0 then
        rbind (rem_and_push (slabs_partial cc) (slabs_free c) i (slab_ctls c)) (\<lambda>(r, pa, fr, cs).
        if r then
          Inr (c\<lparr>caches := (caches c)[k := cc\<lparr>slabs_partial := pa\<rparr>], slabs_free := fr, slab_ctls := cs\<rparr>)
        else
          rbind (rem_and_push (slabs_full cc) fr i cs) (\<lambda>(r, fu, fr, cs).
          rbind (rassert r) (\<lambda>_.
            Inr (c\<lparr>caches := (caches c)[k := cc\<lparr>slabs_partial := pa, slabs_full := fu\<rparr>],
                   slabs_free := fr, slab_ctls := cs\<rparr>))))
      else if nused (slab_ctls c ! i) = dec32 (chunk_count_perslab cc) then
        rbind (rem_and_push (slabs_full cc) (slabs_partial cc) i (slab_ctls c)) (\<lambda>(r, fu, pa, cs).
        rbind (rassert r) (\<lambda>_.
          Inr (c\<lparr>caches := (caches c)[k := cc\<lparr>slabs_partial := pa, slabs_full := fu\<rparr>],
                 slab_ctls := cs\<rparr>)))
      else Inr c)"

definition scfree :: "nat \<Rightarrow> slab_state \<Rightarrow> slab_state res" where
  "scfree ptr s =
     (case cm s of
        None \<Rightarrow> Inl Null_deref
      | Some c \<Rightarrow>
          (let pdiff = u32 (sub64 ptr (slabs c)) in
           if u32 (slabctl_count c * SLAB_SIZE) < pdiff then Inl Assert_failed
           else
             (let sidx = pdiff div SLAB_SIZE in
              if length (slab_ctls c) \<le> sidx then Inl Out_of_bounds
              else
                (case ctl_cache (slab_ctls c ! sidx) of
                   None \<Rightarrow> Inl Null_deref
                 | Some k \<Rightarrow>
                     (let ctl = slab_ctls c ! sidx;
                          cidx = (pdiff mod SLAB_SIZE) div chunk_size (caches c ! k) in
                      rbind (get_bit_s (slots ctl) cidx) (\<lambda>v.
                      if v \<noteq> 0 then Inl Assert_failed
                      else
                        rbind (set_bit_s (slots ctl) cidx) (\<lambda>b.
                        rbind (release_slab k sidx
                            (c\<lparr>slab_ctls := (slab_ctls c)
                                [sidx := ctl\<lparr>slots := b, nused := dec32 (nused ctl)\<rparr>]\<rparr>)) (\<lambda>c.
                          Inr (s\<lparr>cm := Some c, slab_stats := (slab_stats s)\<lparr>sl_mem_used :=
                            sub64 (sl_mem_used (slab_stats s)) (chunk_size (caches c ! k))\<rparr>\<rparr>)))))))))"

end
