(* ===== verification/Slab_Inv.thy ===== *)
theory Slab_Inv
  imports Slab
begin

text \<open>
  The invariant of the slab allocator and the abstract view its theorems are stated in: the
  set of chunks in use, the address of each, and the bytes they take. The lemmas say how
  the view changes when a slab moves between lists, is bound to a cache, or gives one chunk.
\<close>

subsection \<open>Where a slab is\<close>

text \<open>
  Every slab is in one place: the free list, or the partial or the full list of a cache.
  \<open>loc\<close> maps a slab to its place and \<open>own\<close> lists the slabs of a place in list order.
\<close>

datatype place = Free | Partial nat | Full nat

definition places :: "cache_manager_t \<Rightarrow> place set" where
  "places c = insert Free (Partial ` {..<length (caches c)} \<union> Full ` {..<length (caches c)})"

fun place_list :: "cache_manager_t \<Rightarrow> place \<Rightarrow> list_t" where
  "place_list c Free = slabs_free c"
| "place_list c (Partial k) = slabs_partial (caches c ! k)"
| "place_list c (Full k) = slabs_full (caches c ! k)"

definition lists_ok :: "cache_manager_t \<Rightarrow> (place \<Rightarrow> nat list) \<Rightarrow> (nat \<Rightarrow> place) \<Rightarrow> bool" where
  "lists_ok c own loc \<longleftrightarrow>
     (\<forall>p \<in> places c. dll (slab_ctls c) (place_list c p) (own p) \<and>
        set (own p) = {i. i < length (slab_ctls c) \<and> loc i = p}) \<and>
     (\<forall>i < length (slab_ctls c). loc i \<in> places c)"

text \<open>The chunks of slab descriptor \<open>d\<close>, of \<open>n\<close> chunks, that are in use.\<close>

definition taken :: "nat \<Rightarrow> slab_ctl \<Rightarrow> nat set" where
  "taken n d = {..<n} - bits_of (slots d)"

definition slots_ok :: "nat \<Rightarrow> slab_ctl \<Rightarrow> bool" where
  "slots_ok n d \<longleftrightarrow> bitset_ok (slots d) \<and> {n..<BIT_COUNT} \<subseteq> bits_of (slots d) \<and>
     nused d = card (taken n d)"

fun ctl_ok :: "cache_t list \<Rightarrow> place \<Rightarrow> slab_ctl \<Rightarrow> bool" where
  "ctl_ok cs Free d \<longleftrightarrow> slots_ok 0 d \<and> (\<forall>k. ctl_cache d = Some k \<longrightarrow> k < length cs)"
| "ctl_ok cs (Partial k) d \<longleftrightarrow> ctl_cache d = Some k \<and> slots_ok (chunk_count_perslab (cs ! k)) d \<and>
     0 < nused d \<and> nused d < chunk_count_perslab (cs ! k)"
| "ctl_ok cs (Full k) d \<longleftrightarrow> ctl_cache d = Some k \<and> slots_ok (chunk_count_perslab (cs ! k)) d \<and>
     nused d = chunk_count_perslab (cs ! k)"

definition frame_ok :: "cache_manager_t \<Rightarrow> bool" where
  "frame_ok c \<longleftrightarrow> classes_ok (caches c) \<and> cache_count c = length (caches c) \<and> caches_ptr c \<noteq> 0 \<and>
     slabctl_count c = length (slab_ctls c) \<and> length (slab_ctls c) * SLAB_SIZE < 2 ^ 32 \<and>
     slabs c + length (slab_ctls c) * SLAB_SIZE < 2 ^ 64 \<and> 0 < slabs c \<and>
     (\<forall>i < length (slab_ctls c). nindex (slab_ctls c ! i) = i)"

definition cm_ok :: "cache_manager_t \<Rightarrow> (place \<Rightarrow> nat list) \<Rightarrow> (nat \<Rightarrow> place) \<Rightarrow> bool" where
  "cm_ok c own loc \<longleftrightarrow> frame_ok c \<and> lists_ok c own loc \<and>
     (\<forall>i < length (slab_ctls c). ctl_ok (caches c) (loc i) (slab_ctls c ! i))"

subsection \<open>What is allocated\<close>

text \<open>A chunk is a slab index and a chunk index; \<open>csize\<close> is the chunk size of a slab.\<close>

definition csize :: "cache_manager_t \<Rightarrow> nat \<Rightarrow> nat" where
  "csize c i = (case ctl_cache (slab_ctls c ! i) of None \<Rightarrow> 0 | Some k \<Rightarrow> chunk_size (caches c ! k))"

definition ccount :: "cache_manager_t \<Rightarrow> nat \<Rightarrow> nat" where
  "ccount c i =
     (case ctl_cache (slab_ctls c ! i) of None \<Rightarrow> 0 | Some k \<Rightarrow> chunk_count_perslab (caches c ! k))"

definition chunks :: "cache_manager_t \<Rightarrow> (nat \<times> nat) set" where
  "chunks c = {(i, b). i < length (slab_ctls c) \<and> b \<in> taken (ccount c i) (slab_ctls c ! i)}"

definition chunk_addr :: "cache_manager_t \<Rightarrow> nat \<times> nat \<Rightarrow> nat" where
  "chunk_addr c = (\<lambda>(i, b). slabs c + i * SLAB_SIZE + csize c i * b)"

definition live_addrs :: "cache_manager_t \<Rightarrow> nat set" where
  "live_addrs c = chunk_addr c ` chunks c"

definition used_bytes :: "cache_manager_t \<Rightarrow> nat" where
  "used_bytes c = (\<Sum>i < length (slab_ctls c). nused (slab_ctls c ! i) * csize c i)"

definition slab_ok :: "slab_state \<Rightarrow> bool" where
  "slab_ok s \<longleftrightarrow> (\<exists>c own loc. cm s = Some c \<and> cm_ok c own loc \<and>
     sl_mem_used (slab_stats s) = used_bytes c \<and>
     length (slab_ctls c) * SLAB_SIZE \<le> sl_mem_mallocd (slab_stats s) \<and>
     sl_mem_mallocd (slab_stats s) < 2 ^ 64)"

subsection \<open>Places\<close>

lemma places_simps [simp]:
  "Free \<in> places c" "Partial k \<in> places c \<longleftrightarrow> k < length (caches c)"
  "Full k \<in> places c \<longleftrightarrow> k < length (caches c)"
  by (auto simp: places_def)

lemma ctl_ok_cache_lt:
  "p \<in> places c \<Longrightarrow> ctl_ok (caches c) p d \<Longrightarrow> ctl_cache d = Some k \<Longrightarrow> k < length (caches c)"
  by (cases p) auto

lemma slots_ok_0: "slots_ok 0 d \<longleftrightarrow> bitset_ok (slots d) \<and> bits_of (slots d) = {..<BIT_COUNT} \<and> nused d = 0"
  by (auto simp: slots_ok_def taken_def dest: bits_of_less)

lemma slots_ok_all_free:
  "slots_ok 0 d \<Longrightarrow> n \<le> BIT_COUNT \<Longrightarrow> slots_ok n d \<and> taken n d = {}"
  by (auto simp: slots_ok_0 slots_ok_def taken_def)

lemma slots_ok_empty:
  assumes "slots_ok n d" and "nused d = 0"
  shows "slots_ok 0 d"
proof -
  have ok: "bitset_ok (slots d)" and sub: "{n..<BIT_COUNT} \<subseteq> bits_of (slots d)"
    and "{..<n} - bits_of (slots d) = {}"
    using assms by (simp_all add: slots_ok_def taken_def)
  moreover have "{..<BIT_COUNT} \<subseteq> {..<n} \<union> {n..<BIT_COUNT}" by auto
  ultimately have "{..<BIT_COUNT} \<subseteq> bits_of (slots d)" by blast
  then show ?thesis using ok assms(2) by (auto simp: slots_ok_0 dest: bits_of_less)
qed

lemma dll_payload:
  assumes "dll cs li xs" and "\<And>j. j < length cs \<Longrightarrow> nxt (cs' ! j) = nxt (cs ! j) \<and> prv (cs' ! j) = prv (cs ! j)"
    and "length cs' = length cs"
  shows "dll cs' li xs"
proof -
  have s: "x \<in> set xs \<Longrightarrow> x < length cs" for x using assms(1) by (auto simp: dll_def)
  then have "links cs' xs = links cs xs"
    using assms(2) by (intro links_cong) (auto dest: in_set_butlastD in_set_tlD)
  moreover have "xs \<noteq> [] \<Longrightarrow> nxt (cs' ! last xs) = nxt (cs ! last xs)" using assms(2) s by simp
  ultimately show ?thesis using assms(1,3) by (auto simp: dll_def)
qed

text \<open>A change to payloads and to nothing the lists use keeps the lists.\<close>

lemma lists_ok_payload:
  assumes "lists_ok c own loc" and "caches c' = caches c" and "slabs_free c' = slabs_free c"
    and "length (slab_ctls c') = length (slab_ctls c)"
    and "\<And>j. j < length (slab_ctls c) \<Longrightarrow> nxt (slab_ctls c' ! j) = nxt (slab_ctls c ! j) \<and>
      prv (slab_ctls c' ! j) = prv (slab_ctls c ! j)"
  shows "lists_ok c' own loc"
proof -
  have "place_list c' p = place_list c p" for p by (cases p) (simp_all add: assms)
  moreover have "places c' = places c" by (simp add: places_def assms)
  ultimately show ?thesis
    using assms by (auto simp: lists_ok_def intro: dll_payload [of "slab_ctls c"])
qed

text \<open>
  Moving slab \<open>i\<close> from place \<open>p\<close> to the head of place \<open>q\<close>: if the two lists are right
  afterwards and every other list is framed, all lists are right.
\<close>

lemma lists_ok_move:
  assumes l: "lists_ok c own loc" and i: "i < length (slab_ctls c)" "loc i = p"
    and pq: "p \<in> places c" "q \<in> places c" "p \<noteq> q"
    and dp: "dll (slab_ctls c') (place_list c' p) (remove1 i (own p))"
    and dq: "dll (slab_ctls c') (place_list c' q) (i # own q)"
    and other: "\<And>r. r \<noteq> p \<Longrightarrow> r \<noteq> q \<Longrightarrow> r \<in> places c \<Longrightarrow> place_list c' r = place_list c r"
    and off: "unchanged_off (set (own p) \<union> set (own q)) (slab_ctls c) (slab_ctls c')"
    and pl: "places c' = places c"
  shows "lists_ok c' (own(p := remove1 i (own p), q := i # own q)) (loc(i := q))"
proof -
  have len: "length (slab_ctls c') = length (slab_ctls c)" using off by (simp add: unchanged_off_def)
  have own: "\<And>r. r \<in> places c \<Longrightarrow> set (own r) = {j. j < length (slab_ctls c) \<and> loc j = r}"
    and dl: "\<And>r. r \<in> places c \<Longrightarrow> dll (slab_ctls c) (place_list c r) (own r)"
    using l by (auto simp: lists_ok_def)
  have dist: "distinct (own p)" using dl pq dll_distinct by blast
  have disj: "(set (own p) \<union> set (own q)) \<inter> set (own r) = {}"
    if "r \<noteq> p" "r \<noteq> q" "r \<in> places c" for r
    using own [of p] own [of q] own [of r] pq that by auto
  have "dll (slab_ctls c') (place_list c' r) (own r)"
    if "r \<noteq> p" "r \<noteq> q" "r \<in> places c" for r
    using dll_frame [OF dl off disj] other that by simp
  then show ?thesis
    using dp dq l i pq own dist len unfolding lists_ok_def pl
    by (auto simp: set_remove1_eq)
qed

subsection \<open>Tables that differ in their lists only\<close>

definition same_classes :: "cache_t list \<Rightarrow> cache_t list \<Rightarrow> bool" where
  "same_classes cs cs' \<longleftrightarrow> length cs' = length cs \<and>
     (\<forall>k < length cs. chunk_size (cs' ! k) = chunk_size (cs ! k) \<and>
        chunk_count_perslab (cs' ! k) = chunk_count_perslab (cs ! k))"

lemma same_classes_refl [simp]: "same_classes cs cs"
  by (simp add: same_classes_def)

lemma same_classes_trans: "same_classes a b \<Longrightarrow> same_classes b c \<Longrightarrow> same_classes a c"
  by (simp add: same_classes_def)

lemma same_classes_update:
  "chunk_size x = chunk_size (cs ! k) \<Longrightarrow> chunk_count_perslab x = chunk_count_perslab (cs ! k) \<Longrightarrow>
   same_classes cs (cs[k := x])"
  unfolding same_classes_def by (metis length_list_update nth_list_update_eq nth_list_update_neq)

lemma classes_ok_cong: "same_classes cs cs' \<Longrightarrow> classes_ok cs \<Longrightarrow> classes_ok cs'"
  by (auto simp: same_classes_def classes_ok_def class_ok_def list_all_length sorted_wrt_iff_nth_less)

lemma ctl_ok_cong:
  "same_classes (caches c) cs' \<Longrightarrow> p \<in> places c \<Longrightarrow> ctl_ok cs' p d = ctl_ok (caches c) p d"
  by (cases p) (auto simp: same_classes_def)

lemma places_cong: "same_classes (caches c) (caches c') \<Longrightarrow> places c' = places c"
  by (simp add: same_classes_def places_def)

text \<open>The parts of a manager that fix where the chunks are.\<close>

definition same_layout :: "cache_manager_t \<Rightarrow> cache_manager_t \<Rightarrow> bool" where
  "same_layout c c' \<longleftrightarrow> same_classes (caches c) (caches c') \<and> slabs c' = slabs c \<and>
     cache_count c' = cache_count c \<and> caches_ptr c' = caches_ptr c \<and>
     cm_self c' = cm_self c \<and> slab_ctls_ptr c' = slab_ctls_ptr c \<and>
     slabctl_count c' = slabctl_count c \<and> length (slab_ctls c') = length (slab_ctls c) \<and>
     (\<forall>j < length (slab_ctls c). nindex (slab_ctls c' ! j) = nindex (slab_ctls c ! j))"

lemma same_layout_refl [simp]: "same_layout c c"
  by (simp add: same_layout_def)

lemma same_layout_trans: "same_layout a b \<Longrightarrow> same_layout b c \<Longrightarrow> same_layout a c"
  by (auto simp: same_layout_def intro: same_classes_trans)

lemma frame_ok_cong: "same_layout c c' \<Longrightarrow> frame_ok c \<Longrightarrow> frame_ok c'"
  by (auto simp: same_layout_def frame_ok_def intro: classes_ok_cong dest: same_classes_def [THEN iffD1])

lemma frame_class_ok: "frame_ok c \<Longrightarrow> k < length (caches c) \<Longrightarrow> class_ok (caches c ! k)"
  by (simp add: frame_ok_def classes_ok_nth)

lemma frame_count_le: "frame_ok c \<Longrightarrow> k < length (caches c) \<Longrightarrow> chunk_count_perslab (caches c ! k) \<le> BIT_COUNT"
  using frame_class_ok class_ok_def by blast

lemma ccount_csize:
  "ctl_cache (slab_ctls c ! i) = Some k \<Longrightarrow>
   ccount c i = chunk_count_perslab (caches c ! k) \<and> csize c i = chunk_size (caches c ! k)"
  by (simp add: ccount_def csize_def)

lemma view_eq:
  assumes lay: "same_layout c c'"
    and lt: "\<And>j k. j < length (slab_ctls c) \<Longrightarrow> ctl_cache (slab_ctls c ! j) = Some k \<Longrightarrow> k < length (caches c)"
    and same: "ctl_cache (slab_ctls c' ! j) = ctl_cache (slab_ctls c ! j)" "j < length (slab_ctls c)"
  shows "csize c' j = csize c j \<and> ccount c' j = ccount c j"
  using assms by (auto simp: csize_def ccount_def same_layout_def same_classes_def split: option.splits)

text \<open>Binding an empty slab to a cache changes nothing that is allocated.\<close>

lemma view_rebind:
  assumes lay: "same_layout c c'" and f: "frame_ok c"
    and lt: "\<And>j k. j < length (slab_ctls c) \<Longrightarrow> ctl_cache (slab_ctls c ! j) = Some k \<Longrightarrow> k < length (caches c)"
    and lt': "\<And>j k. j < length (slab_ctls c) \<Longrightarrow> ctl_cache (slab_ctls c' ! j) = Some k \<Longrightarrow> k < length (caches c)"
    and same: "\<And>j. j < length (slab_ctls c) \<Longrightarrow> slots (slab_ctls c' ! j) = slots (slab_ctls c ! j) \<and>
      nused (slab_ctls c' ! j) = nused (slab_ctls c ! j) \<and>
      (ctl_cache (slab_ctls c' ! j) = ctl_cache (slab_ctls c ! j) \<or> slots_ok 0 (slab_ctls c ! j))"
  shows "chunks c' = chunks c \<and> (\<forall>x \<in> chunks c. chunk_addr c' x = chunk_addr c x) \<and>
    used_bytes c' = used_bytes c"
proof -
  have len: "length (slab_ctls c') = length (slab_ctls c)" and sl: "slabs c' = slabs c"
    using lay by (simp_all add: same_layout_def)
  have le: "ccount c j \<le> BIT_COUNT \<and> ccount c' j \<le> BIT_COUNT" if "j < length (slab_ctls c)" for j
    using lt [OF that] lt' [OF that] f lay frame_count_le [OF f]
    by (auto simp: ccount_def same_layout_def same_classes_def split: option.splits)
  have tk: "taken (ccount c' j) (slab_ctls c' ! j) = taken (ccount c j) (slab_ctls c ! j)"
    and nu: "nused (slab_ctls c' ! j) * csize c' j = nused (slab_ctls c ! j) * csize c j"
    and cs: "taken (ccount c j) (slab_ctls c ! j) \<noteq> {} \<longrightarrow> csize c' j = csize c j"
    if j: "j < length (slab_ctls c)" for j
  proof -
    show "taken (ccount c' j) (slab_ctls c' ! j) = taken (ccount c j) (slab_ctls c ! j)"
      "nused (slab_ctls c' ! j) * csize c' j = nused (slab_ctls c ! j) * csize c j"
      "taken (ccount c j) (slab_ctls c ! j) \<noteq> {} \<longrightarrow> csize c' j = csize c j"
    proof (atomize (full), cases "ctl_cache (slab_ctls c' ! j) = ctl_cache (slab_ctls c ! j)")
      case True
      with view_eq [OF lay lt True j] same [OF j]
      show "taken (ccount c' j) (slab_ctls c' ! j) = taken (ccount c j) (slab_ctls c ! j) \<and>
        nused (slab_ctls c' ! j) * csize c' j = nused (slab_ctls c ! j) * csize c j \<and>
        (taken (ccount c j) (slab_ctls c ! j) \<noteq> {} \<longrightarrow> csize c' j = csize c j)"
        by (simp add: taken_def)
    next
      case False
      then have z: "slots_ok 0 (slab_ctls c ! j)" using same [OF j] by blast
      then have "slots_ok 0 (slab_ctls c' ! j)" using same [OF j] by (simp add: slots_ok_0)
      with z le [OF j] slots_ok_all_free
      show "taken (ccount c' j) (slab_ctls c' ! j) = taken (ccount c j) (slab_ctls c ! j) \<and>
        nused (slab_ctls c' ! j) * csize c' j = nused (slab_ctls c ! j) * csize c j \<and>
        (taken (ccount c j) (slab_ctls c ! j) \<noteq> {} \<longrightarrow> csize c' j = csize c j)"
        by (simp add: slots_ok_0)
    qed
  qed
  have "chunks c' = chunks c" using tk by (auto simp: chunks_def len)
  moreover have "\<forall>x \<in> chunks c. chunk_addr c' x = chunk_addr c x"
    using cs by (auto simp: chunks_def chunk_addr_def sl)
  moreover have "used_bytes c' = used_bytes c" using nu by (simp add: used_bytes_def len)
  ultimately show ?thesis by blast
qed

text \<open>One more chunk of slab \<open>i\<close> in use; read from right to left it is one chunk less.\<close>

lemma view_step:
  assumes lay: "same_layout c c'" and i: "i < length (slab_ctls c)"
    and lt: "\<And>j k. j < length (slab_ctls c) \<Longrightarrow> ctl_cache (slab_ctls c ! j) = Some k \<Longrightarrow> k < length (caches c)"
    and cc: "\<And>j. j < length (slab_ctls c) \<Longrightarrow> ctl_cache (slab_ctls c' ! j) = ctl_cache (slab_ctls c ! j)"
    and same: "\<And>j. j < length (slab_ctls c) \<Longrightarrow> j \<noteq> i \<Longrightarrow>
      slots (slab_ctls c' ! j) = slots (slab_ctls c ! j) \<and> nused (slab_ctls c' ! j) = nused (slab_ctls c ! j)"
    and tk: "taken (ccount c i) (slab_ctls c' ! i) = insert b (taken (ccount c i) (slab_ctls c ! i))"
    and nu: "nused (slab_ctls c' ! i) = Suc (nused (slab_ctls c ! i))"
  shows "chunks c' = insert (i, b) (chunks c) \<and>
    (\<forall>x. fst x < length (slab_ctls c) \<longrightarrow> chunk_addr c' x = chunk_addr c x) \<and>
    used_bytes c' = used_bytes c + csize c i"
proof -
  have len: "length (slab_ctls c') = length (slab_ctls c)" and sl: "slabs c' = slabs c"
    using lay by (simp_all add: same_layout_def)
  have v: "csize c' j = csize c j" "ccount c' j = ccount c j" if "j < length (slab_ctls c)" for j
    using view_eq [OF lay lt cc [OF that] that] by auto
  have "(j, x) \<in> chunks c' \<longleftrightarrow> (j, x) = (i, b) \<or> (j, x) \<in> chunks c" for j x
  proof (cases "j = i")
    case True
    then show ?thesis by (simp add: chunks_def len v(2) [OF i] tk i)
  next
    case False
    have "taken (ccount c j) (slab_ctls c' ! j) = taken (ccount c j) (slab_ctls c ! j)"
      if "j < length (slab_ctls c)"
      using same [OF that False] by (simp add: taken_def)
    then show ?thesis using False v(2) [of j]
      by (cases "j < length (slab_ctls c)") (simp_all add: chunks_def len)
  qed
  then have "chunks c' = insert (i, b) (chunks c)" by auto
  moreover have "\<forall>x. fst x < length (slab_ctls c) \<longrightarrow> chunk_addr c' x = chunk_addr c x"
    using v by (auto simp: chunk_addr_def sl)
  moreover have "used_bytes c' = used_bytes c + csize c i"
  proof -
    let ?f = "\<lambda>c j. nused (slab_ctls c ! j) * csize c j"
    have "used_bytes c' = ?f c' i + (\<Sum>j \<in> {..<length (slab_ctls c)} - {i}. ?f c' j)"
      using i by (simp add: used_bytes_def len sum.remove)
    also have "(\<Sum>j \<in> {..<length (slab_ctls c)} - {i}. ?f c' j) =
        (\<Sum>j \<in> {..<length (slab_ctls c)} - {i}. ?f c j)"
      using v same by (intro sum.cong) auto
    also have "?f c' i = ?f c i + csize c i" using v i nu by simp
    finally show ?thesis using i by (simp add: used_bytes_def sum.remove)
  qed
  ultimately show ?thesis by blast
qed

subsection \<open>Picking a slab\<close>

text \<open>After \<open>pick_slab\<close> slab \<open>i\<close> heads the partial list of cache \<open>k\<close> and has room.\<close>

definition picked :: "nat \<Rightarrow> nat \<Rightarrow> cache_manager_t \<Rightarrow> (place \<Rightarrow> nat list) \<Rightarrow> (nat \<Rightarrow> place) \<Rightarrow> bool" where
  "picked k i c own loc \<longleftrightarrow> frame_ok c \<and> lists_ok c own loc \<and> k < length (caches c) \<and>
     i < length (slab_ctls c) \<and> own (Partial k) \<noteq> [] \<and> hd (own (Partial k)) = i \<and>
     ctl_cache (slab_ctls c ! i) = Some k \<and>
     slots_ok (chunk_count_perslab (caches c ! k)) (slab_ctls c ! i) \<and>
     nused (slab_ctls c ! i) < chunk_count_perslab (caches c ! k) \<and>
     (\<forall>j < length (slab_ctls c). j \<noteq> i \<longrightarrow> ctl_ok (caches c) (loc j) (slab_ctls c ! j))"

lemma cm_ok_ctl: "cm_ok c own loc \<Longrightarrow> j < length (slab_ctls c) \<Longrightarrow> ctl_ok (caches c) (loc j) (slab_ctls c ! j)"
  by (simp add: cm_ok_def)

lemma cm_ok_cache_lt:
  assumes "cm_ok c own loc" and "j < length (slab_ctls c)" and "ctl_cache (slab_ctls c ! j) = Some k"
  shows "k < length (caches c)"
  using assms ctl_ok_cache_lt [of "loc j" c] by (auto simp: cm_ok_def lists_ok_def)

lemma lists_okD:
  assumes "lists_ok c own loc" and "p \<in> places c"
  shows "dll (slab_ctls c) (place_list c p) (own p)"
    and "set (own p) = {i. i < length (slab_ctls c) \<and> loc i = p}"
  using assms by (auto simp: lists_ok_def)

lemma pick_slab_head:
  assumes ok: "cm_ok c own loc" and k: "k < length (caches c)" and ne: "own (Partial k) \<noteq> []"
  shows "pick_slab k c = (Some (hd (own (Partial k))), c)" and "picked k (hd (own (Partial k))) c own loc"
proof -
  define i where "i = hd (own (Partial k))"
  have l: "lists_ok c own loc" using ok by (simp add: cm_ok_def)
  note d = lists_okD [OF l, of "Partial k"]
  have "i \<in> set (own (Partial k))" using ne by (simp add: i_def)
  then have i: "i < length (slab_ctls c)" "loc i = Partial k" using d(2) k by auto
  have "lhead (slabs_partial (caches c ! k)) = Some i" using d(1) k ne by (simp add: dll_def i_def)
  then show "pick_slab k c = (Some (hd (own (Partial k))), c)" by (simp add: pick_slab_def peek_def i_def)
  have "ctl_ok (caches c) (Partial k) (slab_ctls c ! i)" using cm_ok_ctl [OF ok i(1)] i(2) by simp
  then have "picked k i c own loc"
    using ok k ne i(1) i_def [symmetric] by (simp add: picked_def cm_ok_def)
  then show "picked k (hd (own (Partial k))) c own loc" by (simp only: i_def)
qed

lemma pick_slab_none:
  assumes ok: "cm_ok c own loc" and k: "k < length (caches c)"
    and "own (Partial k) = []" and "own Free = []"
  shows "pick_slab k c = (None, c)"
proof -
  have l: "lists_ok c own loc" using ok by (simp add: cm_ok_def)
  have "dll (slab_ctls c) (slabs_partial (caches c ! k)) []" "dll (slab_ctls c) (slabs_free c) []"
    using lists_okD(1) [OF l, of "Partial k"] lists_okD(1) [OF l, of Free] k assms(3,4) by auto
  then show ?thesis by (simp add: pick_slab_def peek_def dll_def pop_Nil)
qed

end
