(* ===== verification/Slab_Alloc.thy ===== *)
theory Slab_Alloc
  imports Slab_Inv
begin

text \<open>
  \<open>scmalloc\<close> is correct: from a state that satisfies the invariant it trips no assert, returns
  NULL only when the request is too big or no slab has room, and otherwise hands out one
  chunk that was not in use and changes nothing else that is allocated.
\<close>

lemma ctl_ok_data:
  "slots d' = slots d \<Longrightarrow> nused d' = nused d \<Longrightarrow> ctl_cache d' = ctl_cache d \<Longrightarrow>
   ctl_ok cs p d' = ctl_ok cs p d"
  by (cases p) (simp_all add: slots_ok_def taken_def)

lemma own_disjoint:
  assumes l: "lists_ok c own loc" and "p \<in> places c" and "q \<in> places c" and "p \<noteq> q"
  shows "set (own p) \<inter> set (own q) = {}"
  unfolding lists_okD(2) [OF l assms(2)] lists_okD(2) [OF l assms(3)] using assms(4) by blast

lemma pick_slab_free:
  assumes ok: "cm_ok c own loc" and k: "k < length (caches c)"
    and pe: "own (Partial k) = []" and fr: "own Free = i # rest"
  shows "\<exists>c'. pick_slab k c = (Some i, c') \<and>
    picked k i c' (own(Free := rest, Partial k := [i])) (loc(i := Partial k)) \<and> same_layout c c' \<and>
    chunks c' = chunks c \<and> (\<forall>x \<in> chunks c. chunk_addr c' x = chunk_addr c x) \<and>
    used_bytes c' = used_bytes c"
proof -
  have l: "lists_ok c own loc" and f: "frame_ok c" using ok by (simp_all add: cm_ok_def)
  note dF = lists_okD [OF l, of Free] and dP = lists_okD [OF l, of "Partial k"]
  have "i \<in> set (own Free)" using fr by simp
  then have i: "i < length (slab_ctls c)" "loc i = Free" using dF by auto
  have dist: "distinct (i # rest)" using dF(1) fr dll_distinct by fastforce
  have "dll (slab_ctls c) (slabs_free c) (i # rest)" using dF fr by simp
  moreover have "dll (slab_ctls c) (slabs_partial (caches c ! k)) []" using dP k pe by simp
  ultimately obtain fr' pa cs1 cs2 where
      pop: "pop (slabs_free c) (slab_ctls c) = (Some i, fr', cs1)"
    and push: "push (slabs_partial (caches c ! k)) i cs1 = (pa, cs2)"
    and d: "dll cs2 fr' rest" "dll cs2 pa [i]" and s: "same_data (slab_ctls c) cs2"
    and o: "unchanged_off (set [i]) (slab_ctls c) cs2"
    using ctlq.transfer_pop [of "slab_ctls c" "slabs_free c" i rest
        "slabs_partial (caches c ! k)" "[]"] by auto
  define c1 where "c1 = c\<lparr>slabs_free := fr',
      caches := (caches c)[k := (caches c ! k)\<lparr>slabs_partial := pa\<rparr>], slab_ctls := cs2\<rparr>"
  define c' where "c' = c1\<lparr>slab_ctls := cs2[i := (cs2 ! i)\<lparr>ctl_cache := Some k\<rparr>]\<rparr>"
  have len: "length cs2 = length (slab_ctls c)" using s by (simp add: same_data_def)
  have lay: "same_layout c c'"
    using s i len by (auto simp: same_layout_def c'_def c1_def same_data_def nth_list_update
        intro: same_classes_update)
  have "place_list c (Partial k) = slabs_partial (caches c ! k)" by simp
  have "lists_ok c1 (own(Free := remove1 i (own Free), Partial k := i # own (Partial k))) (loc(i := Partial k))"
  proof (rule lists_ok_move [OF l i])
    show "dll (slab_ctls c1) (place_list c1 Free) (remove1 i (own Free))"
      using d fr by (simp add: c1_def)
    show "dll (slab_ctls c1) (place_list c1 (Partial k)) (i # own (Partial k))"
      using d k pe by (simp add: c1_def)
    show "place_list c1 r = place_list c r" if "r \<noteq> Free" "r \<noteq> Partial k" "r \<in> places c" for r
      using that k by (cases r) (auto simp: c1_def nth_list_update)
    show "unchanged_off (set (own Free) \<union> set (own (Partial k))) (slab_ctls c) (slab_ctls c1)"
      using o fr by (auto simp: c1_def intro: unchanged_off_mono)
  qed (use k in \<open>simp_all add: c1_def places_def\<close>)
  then have "lists_ok c1 (own(Free := rest, Partial k := [i])) (loc(i := Partial k))"
    using fr pe by simp
  then have lists: "lists_ok c' (own(Free := rest, Partial k := [i])) (loc(i := Partial k))"
    by (rule lists_ok_payload) (use i len in \<open>auto simp: c'_def c1_def nth_list_update\<close>)
  have f': "frame_ok c'" using frame_ok_cong [OF lay f] .
  have ds: "slots (slab_ctls c' ! j) = slots (slab_ctls c ! j) \<and> nused (slab_ctls c' ! j) = nused (slab_ctls c ! j)
      \<and> ctl_cache (slab_ctls c' ! j) = (if j = i then Some k else ctl_cache (slab_ctls c ! j))"
    if "j < length (slab_ctls c)" for j
    using that s i len by (auto simp: c'_def c1_def nth_list_update same_data_def)
  have z: "slots_ok 0 (slab_ctls c ! i)" using cm_ok_ctl [OF ok i(1)] i(2) by simp
  then have z': "slots_ok 0 (slab_ctls c' ! i)" using ds [OF i(1)] by (simp add: slots_ok_0)
  have cnt: "chunk_count_perslab (caches c' ! k) = chunk_count_perslab (caches c ! k)"
    using k by (simp add: c'_def c1_def)
  have kc: "k < length (caches c')" using k by (simp add: c'_def c1_def)
  have "ctl_ok (caches c') ((loc(i := Partial k)) j) (slab_ctls c' ! j)"
    if j: "j < length (slab_ctls c)" "j \<noteq> i" for j
  proof -
    have p: "loc j \<in> places c" using l j by (simp add: lists_ok_def)
    have "ctl_ok (caches c) (loc j) (slab_ctls c ! j)" using cm_ok_ctl [OF ok j(1)] .
    then have "ctl_ok (caches c) (loc j) (slab_ctls c' ! j)"
      using ds [OF j(1)] j(2) by (subst ctl_ok_data [where d = "slab_ctls c ! j"]) simp_all
    moreover have "same_classes (caches c) (caches c')" using lay by (simp only: same_layout_def)
    ultimately have "ctl_ok (caches c') (loc j) (slab_ctls c' ! j)"
      using ctl_ok_cong [OF _ p] by blast
    then show ?thesis using j(2) by simp
  qed
  moreover have "slots_ok (chunk_count_perslab (caches c' ! k)) (slab_ctls c' ! i)"
    using slots_ok_all_free [OF z'] frame_count_le [OF f' kc] by blast
  moreover have "nused (slab_ctls c' ! i) < chunk_count_perslab (caches c' ! k)"
    using z' class_count_pos [OF frame_class_ok [OF f' kc]] by (simp add: slots_ok_0)
  ultimately have "picked k i c' (own(Free := rest, Partial k := [i])) (loc(i := Partial k))"
    using lists f' i ds [OF i(1)] kc len by (simp add: picked_def c'_def c1_def)
  moreover have "pick_slab k c = (Some i, c')"
    using pe dP(1) k pop push by (simp add: pick_slab_def peek_def dll_def c'_def c1_def)
  moreover have "chunks c' = chunks c \<and> (\<forall>x \<in> chunks c. chunk_addr c' x = chunk_addr c x) \<and>
      used_bytes c' = used_bytes c"
  proof (rule view_rebind [OF lay f])
    show "m < length (caches c)" if "j < length (slab_ctls c)" "ctl_cache (slab_ctls c ! j) = Some m" for j m
      using cm_ok_cache_lt [OF ok that] .
    show "m < length (caches c)" if "j < length (slab_ctls c)" "ctl_cache (slab_ctls c' ! j) = Some m" for j m
      using cm_ok_cache_lt [OF ok that(1)] that ds [OF that(1)] k by (auto split: if_splits)
  qed (use ds z in auto)
  ultimately show ?thesis using lay by blast
qed

subsection \<open>Taking a chunk\<close>

lemma taken_insert:
  assumes "bits_of b' = bits_of b - {x}" and "x < n" and "x \<in> bits_of b"
    and "slots d = b" and "slots d' = b'"
  shows "taken n d' = insert x (taken n d)" and "x \<notin> taken n d"
  using assms by (auto simp: taken_def)

lemma take_chunk_ok:
  assumes pk: "picked k i c own loc"
  shows "\<exists>b c' own' loc'. take_chunk k i c = Inr (b, c') \<and> cm_ok c' own' loc' \<and> same_layout c c' \<and>
    b < chunk_count_perslab (caches c ! k) \<and> (i, b) \<notin> chunks c \<and>
    chunks c' = insert (i, b) (chunks c) \<and>
    (\<forall>x. fst x < length (slab_ctls c) \<longrightarrow> chunk_addr c' x = chunk_addr c x) \<and>
    used_bytes c' = used_bytes c + chunk_size (caches c ! k)"
proof -
  define n where "n = chunk_count_perslab (caches c ! k)"
  define d where "d = slab_ctls c ! i"
  from pk have f: "frame_ok c" and l: "lists_ok c own loc" and k: "k < length (caches c)"
    and i: "i < length (slab_ctls c)" and ck: "ctl_cache d = Some k" and so: "slots_ok n d"
    and room: "nused d < n"
    and others: "\<And>j. j < length (slab_ctls c) \<Longrightarrow> j \<noteq> i \<Longrightarrow> ctl_ok (caches c) (loc j) (slab_ctls c ! j)"
    by (auto simp: picked_def n_def d_def)
  obtain rest where own: "own (Partial k) = i # rest"
    using pk by (auto simp: picked_def neq_Nil_conv)
  note dP = lists_okD [OF l, of "Partial k"] and dFu = lists_okD [OF l, of "Full k"]
  have li: "loc i = Partial k" using dP(2) own k by auto
  have nb: "n \<le> BIT_COUNT" using frame_count_le [OF f k] by (simp add: n_def)
  have n32: "n < 2 ^ 32" using nb by (simp add: WORD_COUNT_eq WORD_SIZE_IN_BITS_def)
  have bok: "bitset_ok (slots d)" and card: "card ({..<n} - bits_of (slots d)) < n"
    using so room by (simp_all add: slots_ok_def taken_def)
  obtain b bs where ff: "ff_setbit (slots d) = int b" and b: "b < n" "b \<in> bits_of (slots d)"
    and clr: "clear_bit_s (slots d) b = Inr bs" and bs: "bitset_ok bs" "bits_of bs = bits_of (slots d) - {b}"
    and card': "card ({..<n} - bits_of bs) = Suc (card ({..<n} - bits_of (slots d)))"
    using bts.take_first [OF bok nb card] by blast
  define d' where "d' = d\<lparr>slots := bs, nused := Suc (nused d)\<rparr>"
  define c1 where "c1 = c\<lparr>slab_ctls := (slab_ctls c)[i := d']\<rparr>"
  have u: "u32 (nused d + 1) = Suc (nused d)" using room n32 by simp
  have d1: "slab_ctls c1 ! j = (if j = i then d' else slab_ctls c ! j)" if "j < length (slab_ctls c)" for j
    using that by (auto simp: c1_def)
  have l1: "lists_ok c1 own loc"
    by (rule lists_ok_payload [OF l]) (use i in \<open>auto simp: c1_def d'_def d_def nth_list_update\<close>)
  have so': "slots_ok n d'"
    using so bs card' b by (auto simp: slots_ok_def d'_def taken_def)
  have tk: "taken n d' = insert b (taken n d)" "b \<notin> taken n d"
    using taken_insert [OF bs(2) b, of d d'] by (simp_all add: d'_def)
  have lt: "m < length (caches c)" if "j < length (slab_ctls c)" "ctl_cache (slab_ctls c ! j) = Some m" for j m
  proof (cases "j = i")
    case True
    with that ck k show ?thesis by (simp add: d_def)
  next
    case False
    then show ?thesis
      using ctl_ok_cache_lt [OF _ others [OF that(1) False] that(2)] l that(1) by (auto simp: lists_ok_def)
  qed
  have ccs: "ccount c i = n" "csize c i = chunk_size (caches c ! k)"
    using ccount_csize [of c i k] ck by (simp_all add: d_def n_def)
  have new: "(i, b) \<notin> chunks c" using tk(2) ccs by (simp add: chunks_def d_def)
  \<comment> \<open>what holds for every final state that keeps the payload of \<open>c1\<close>\<close>
  have view: "chunks c2 = insert (i, b) (chunks c) \<and>
      (\<forall>x. fst x < length (slab_ctls c) \<longrightarrow> chunk_addr c2 x = chunk_addr c x) \<and>
      used_bytes c2 = used_bytes c + chunk_size (caches c ! k)"
    if lay: "same_layout c c2" and sd: "same_data (slab_ctls c1) (slab_ctls c2)" for c2
  proof -
    have e: "slots (slab_ctls c2 ! j) = slots (slab_ctls c1 ! j) \<and> nused (slab_ctls c2 ! j) = nused (slab_ctls c1 ! j)
        \<and> ctl_cache (slab_ctls c2 ! j) = ctl_cache (slab_ctls c1 ! j)" if "j < length (slab_ctls c)" for j
      using sd that by (simp add: same_data_def c1_def)
    have "chunks c2 = insert (i, b) (chunks c) \<and>
        (\<forall>x. fst x < length (slab_ctls c) \<longrightarrow> chunk_addr c2 x = chunk_addr c x) \<and>
        used_bytes c2 = used_bytes c + csize c i"
    proof (rule view_step [OF lay i])
      show "m < length (caches c)" if "j < length (slab_ctls c)" "ctl_cache (slab_ctls c ! j) = Some m" for j m
        using lt that .
      show "ctl_cache (slab_ctls c2 ! j) = ctl_cache (slab_ctls c ! j)" if "j < length (slab_ctls c)" for j
        using e [OF that] d1 [OF that] by (simp add: d'_def d_def)
      show "slots (slab_ctls c2 ! j) = slots (slab_ctls c ! j) \<and> nused (slab_ctls c2 ! j) = nused (slab_ctls c ! j)"
        if "j < length (slab_ctls c)" "j \<noteq> i" for j
        using e [OF that(1)] d1 [OF that(1)] that by simp
      show "taken (ccount c i) (slab_ctls c2 ! i) = insert b (taken (ccount c i) (slab_ctls c ! i))"
        using e [OF i] d1 [OF i] tk(1) ccs(1) by (simp add: taken_def d_def)
      show "nused (slab_ctls c2 ! i) = Suc (nused (slab_ctls c ! i))"
        using e [OF i] d1 [OF i] by (simp add: d'_def d_def)
    qed
    then show ?thesis unfolding ccs(2) .
  qed
  have ctls: "ctl_ok (caches c2) (loc2 j) (slab_ctls c2 ! j)"
    if lay: "same_layout c c2" and sd: "same_data (slab_ctls c1) (slab_ctls c2)"
      and j: "j < length (slab_ctls c)" and lj: "j \<noteq> i \<Longrightarrow> loc2 j = loc j"
      and lii: "loc2 i = (if Suc (nused d) = n then Full k else Partial k)" for c2 loc2 j
  proof -
    have e: "slots (slab_ctls c2 ! j) = slots (slab_ctls c1 ! j)" "nused (slab_ctls c2 ! j) = nused (slab_ctls c1 ! j)"
        "ctl_cache (slab_ctls c2 ! j) = ctl_cache (slab_ctls c1 ! j)"
      using sd j by (simp_all add: same_data_def c1_def)
    have same: "same_classes (caches c) (caches c2)" using lay by (simp add: same_layout_def)
    show ?thesis
    proof (cases "j = i")
      case True
      have "slots_ok n (slab_ctls c2 ! i)" using so' e d1 [OF j] True by (simp add: slots_ok_def taken_def)
      then show ?thesis
        using True lii same k room e d1 [OF j] ck by (auto simp: same_classes_def n_def d'_def d_def)
    next
      case False
      have "ctl_ok (caches c) (loc j) (slab_ctls c2 ! j)"
        using others [OF j False] e d1 [OF j] False
        by (subst ctl_ok_data [where d = "slab_ctls c ! j"]) simp_all
      moreover have "loc j \<in> places c" using l j by (simp add: lists_ok_def)
      ultimately have "ctl_ok (caches c2) (loc j) (slab_ctls c2 ! j)"
        using ctl_ok_cong [OF same] by blast
      then show ?thesis using lj [OF False] by simp
    qed
  qed
  show ?thesis
  proof (cases "Suc (nused d) = n")
    case False
    have lay: "same_layout c c1" using i by (auto simp: same_layout_def c1_def d'_def d_def nth_list_update)
    have "take_chunk k i c = Inr (b, c1)"
      using False ff clr u by (simp add: take_chunk_def d_def [symmetric] n_def [symmetric] d'_def c1_def Let_def)
    moreover have "cm_ok c1 own loc"
      using frame_ok_cong [OF lay f] l1 ctls [OF lay, of _ loc] False li by (simp add: cm_ok_def c1_def)
    ultimately show ?thesis using lay b(1) new view [OF lay same_data_refl] unfolding n_def by blast
  next
    case True
    have "dll (slab_ctls c1) (slabs_partial (caches c ! k)) (i # rest)"
      using lists_okD(1) [OF l1, of "Partial k"] k own by (simp add: c1_def)
    moreover have "dll (slab_ctls c1) (slabs_full (caches c ! k)) (own (Full k))"
      using lists_okD(1) [OF l1, of "Full k"] k by (simp add: c1_def)
    moreover have "set (i # rest) \<inter> set (own (Full k)) = {}"
      using own_disjoint [OF l, of "Partial k" "Full k"] k own by simp
    ultimately obtain pa fu cs where
        pp: "pop_and_push (slabs_partial (caches c ! k)) (slabs_full (caches c ! k)) (slab_ctls c1) = (True, pa, fu, cs)"
      and d: "dll cs pa rest" "dll cs fu (i # own (Full k))" and s: "same_data (slab_ctls c1) cs"
      and o: "unchanged_off (set (i # own (Full k))) (slab_ctls c1) cs"
      using pop_and_push_dll by blast
    define c2 where "c2 = c1\<lparr>caches := (caches c)[k := (caches c ! k)\<lparr>slabs_partial := pa, slabs_full := fu\<rparr>],
        slab_ctls := cs\<rparr>"
    have lay: "same_layout c c2"
      using s i by (auto simp: same_layout_def c2_def c1_def d'_def d_def same_data_def nth_list_update
          intro: same_classes_update)
    have i1: "i < length (slab_ctls c1)" using i by (simp add: c1_def)
    have "lists_ok c2 (own(Partial k := remove1 i (own (Partial k)), Full k := i # own (Full k))) (loc(i := Full k))"
    proof (rule lists_ok_move [OF l1 i1 li])
      show "dll (slab_ctls c2) (place_list c2 (Partial k)) (remove1 i (own (Partial k)))"
        "dll (slab_ctls c2) (place_list c2 (Full k)) (i # own (Full k))"
        using d k own by (simp_all add: c2_def)
      show "place_list c2 r = place_list c1 r" if "r \<noteq> Partial k" "r \<noteq> Full k" "r \<in> places c1" for r
        using that k by (cases r) (auto simp: c2_def c1_def nth_list_update)
      show "unchanged_off (set (own (Partial k)) \<union> set (own (Full k))) (slab_ctls c1) (slab_ctls c2)"
        using o own by (auto simp: c2_def intro: unchanged_off_mono)
    qed (use k in \<open>simp_all add: c2_def c1_def places_def\<close>)
    moreover have "take_chunk k i c = Inr (b, c2)"
      using True ff clr u pp
      by (simp add: take_chunk_def d_def [symmetric] n_def [symmetric] d'_def c2_def c1_def Let_def)
    ultimately have "cm_ok c2 (own(Partial k := remove1 i (own (Partial k)), Full k := i # own (Full k))) (loc(i := Full k))"
      and t: "take_chunk k i c = Inr (b, c2)"
      using frame_ok_cong [OF lay f] ctls [OF lay, of _ "loc(i := Full k)"] True s
      by (simp_all add: cm_ok_def c2_def c1_def same_data_def)
    moreover have "same_data (slab_ctls c1) (slab_ctls c2)" using s by (simp add: c2_def)
    ultimately show ?thesis using lay b(1) new view [OF lay] unfolding n_def by blast
  qed
qed


subsection \<open>scmalloc\<close>

lemma slots_ok_view:
  assumes ok: "cm_ok c own loc" and i: "i < length (slab_ctls c)"
  shows "slots_ok (ccount c i) (slab_ctls c ! i)" and "ccount c i \<le> BIT_COUNT"
    and "ccount c i * csize c i \<le> SLAB_SIZE"
proof -
  have f: "frame_ok c" using ok by (simp add: cm_ok_def)
  have o: "ctl_ok (caches c) (loc i) (slab_ctls c ! i)" using cm_ok_ctl [OF ok i] .
  have "slots_ok (ccount c i) (slab_ctls c ! i) \<and> ccount c i \<le> BIT_COUNT \<and> ccount c i * csize c i \<le> SLAB_SIZE"
  proof (cases "ctl_cache (slab_ctls c ! i)")
    case None
    with o show ?thesis by (cases "loc i") (auto simp: ccount_def)
  next
    case (Some k)
    have k: "k < length (caches c)" using cm_ok_cache_lt [OF ok i Some] .
    then have "class_ok (caches c ! k)" using frame_class_ok [OF f] by blast
    then have "ccount c i \<le> BIT_COUNT \<and> ccount c i * csize c i \<le> SLAB_SIZE"
      using Some class_fits by (auto simp: class_ok_def ccount_def csize_def)
    moreover have "slots_ok (ccount c i) (slab_ctls c ! i)"
      using o Some slots_ok_all_free [of "slab_ctls c ! i" "ccount c i"] calculation
      by (cases "loc i") (auto simp: ccount_def)
    ultimately show ?thesis by blast
  qed
  then show "slots_ok (ccount c i) (slab_ctls c ! i)" "ccount c i \<le> BIT_COUNT"
    "ccount c i * csize c i \<le> SLAB_SIZE" by auto
qed

lemma nused_le_ccount:
  assumes "cm_ok c own loc" and "i < length (slab_ctls c)"
  shows "nused (slab_ctls c ! i) \<le> ccount c i"
proof -
  have "nused (slab_ctls c ! i) = card (taken (ccount c i) (slab_ctls c ! i))"
    using slots_ok_view [OF assms] by (simp add: slots_ok_def)
  also have "\<dots> \<le> card {..<ccount c i}" by (rule card_mono) (auto simp: taken_def)
  finally show ?thesis by simp
qed

lemma used_bytes_le:
  assumes ok: "cm_ok c own loc"
  shows "used_bytes c \<le> length (slab_ctls c) * SLAB_SIZE"
proof -
  have "nused (slab_ctls c ! i) * csize c i \<le> SLAB_SIZE" if "i \<in> {..<length (slab_ctls c)}" for i
  proof -
    have i: "i < length (slab_ctls c)" using that by simp
    show ?thesis using mult_le_mono1 [OF nused_le_ccount [OF ok i]] slots_ok_view(3) [OF ok i]
      by (rule le_trans)
  qed
  then have "(\<Sum>i < length (slab_ctls c). nused (slab_ctls c ! i) * csize c i) \<le>
      of_nat (card {..<length (slab_ctls c)}) * SLAB_SIZE" by (rule sum_bounded_above)
  then show ?thesis by (simp add: used_bytes_def)
qed

lemma chunk_bounds:
  assumes ok: "cm_ok c own loc" and x: "(i, b) \<in> chunks c"
  shows "i < length (slab_ctls c)" and "b < ccount c i" and "0 < csize c i"
    and "csize c i * b + csize c i \<le> SLAB_SIZE"
proof -
  show i: "i < length (slab_ctls c)" and b: "b < ccount c i" using x by (auto simp: chunks_def taken_def)
  then obtain k where k: "ctl_cache (slab_ctls c ! i) = Some k" by (auto simp: ccount_def split: option.splits)
  have "class_ok (caches c ! k)"
    using cm_ok_cache_lt [OF ok i k] ok by (simp add: cm_ok_def frame_class_ok)
  then show "0 < csize c i" using k by (simp add: csize_def class_ok_def)
  have "csize c i * b + csize c i = csize c i * Suc b" by simp
  also have "\<dots> \<le> csize c i * ccount c i" using b by (intro mult_le_mono2) simp
  also have "\<dots> \<le> SLAB_SIZE" using slots_ok_view(3) [OF ok i] by (simp add: mult.commute)
  finally show "csize c i * b + csize c i \<le> SLAB_SIZE" .
qed

text \<open>A request of class \<open>k\<close> can be served: a slab is empty, or one of the class is not full.\<close>

definition has_room :: "cache_manager_t \<Rightarrow> nat \<Rightarrow> bool" where
  "has_room c k \<longleftrightarrow> (\<exists>i < length (slab_ctls c). nused (slab_ctls c ! i) = 0 \<or>
     (ctl_cache (slab_ctls c ! i) = Some k \<and>
      nused (slab_ctls c ! i) < chunk_count_perslab (caches c ! k)))"

lemma has_room_lists:
  assumes ok: "cm_ok c own loc" and k: "k < length (caches c)"
  shows "has_room c k \<longleftrightarrow> own (Partial k) \<noteq> [] \<or> own Free \<noteq> []"
proof -
  have l: "lists_ok c own loc" and f: "frame_ok c" using ok by (simp_all add: cm_ok_def)
  have iff: "nused (slab_ctls c ! i) = 0 \<or> (ctl_cache (slab_ctls c ! i) = Some k \<and>
      nused (slab_ctls c ! i) < chunk_count_perslab (caches c ! k)) \<longleftrightarrow> loc i = Free \<or> loc i = Partial k"
    if i: "i < length (slab_ctls c)" for i
  proof (cases "loc i")
    case Free
    with cm_ok_ctl [OF ok i] show ?thesis by (simp add: slots_ok_0)
  next
    case (Partial m)
    with cm_ok_ctl [OF ok i] show ?thesis by auto
  next
    case (Full m)
    have "Full m \<in> places c" using l i Full by (auto simp: lists_ok_def)
    then have "0 < chunk_count_perslab (caches c ! m)"
      using class_count_pos [OF frame_class_ok [OF f]] by simp
    with cm_ok_ctl [OF ok i] Full show ?thesis by auto
  qed
  have "has_room c k \<longleftrightarrow> (\<exists>i < length (slab_ctls c). loc i = Free \<or> loc i = Partial k)"
    using iff by (auto simp: has_room_def)
  also have "\<dots> \<longleftrightarrow> set (own (Partial k)) \<union> set (own Free) \<noteq> {}"
    unfolding lists_okD(2) [OF l places_simps(1)] lists_okD(2) [OF l, of "Partial k", unfolded places_simps, OF k]
    by auto
  finally show ?thesis by auto
qed

lemma chunk_addr_machine:
  assumes ok: "cm_ok c own loc" and x: "(i, b) \<in> chunks c"
  shows "slabs c + u32 (nindex (slab_ctls c ! i) * SLAB_SIZE) + u32 (csize c i * b) = chunk_addr c (i, b)"
proof -
  note bd = chunk_bounds [OF ok x]
  have f: "frame_ok c" using ok by (simp add: cm_ok_def)
  have "i * SLAB_SIZE \<le> length (slab_ctls c) * SLAB_SIZE" using bd(1) by (intro mult_le_mono1) simp
  also have "\<dots> < 2 ^ 32" using f by (simp add: frame_ok_def)
  finally have "i * SLAB_SIZE < 2 ^ 32" .
  moreover have "csize c i * b < 2 ^ 32" using bd(4) by (simp add: SLAB_SIZE_def)
  ultimately show ?thesis using f bd(1) by (simp add: frame_ok_def chunk_addr_def)
qed

lemma pick_slab_spec:
  assumes ok: "cm_ok c own loc" and k: "k < length (caches c)" and room: "has_room c k"
  shows "\<exists>i c' own' loc'. pick_slab k c = (Some i, c') \<and> picked k i c' own' loc' \<and> same_layout c c' \<and>
    chunks c' = chunks c \<and> (\<forall>x \<in> chunks c. chunk_addr c' x = chunk_addr c x) \<and>
    used_bytes c' = used_bytes c"
proof (cases "own (Partial k) = []")
  case False
  from pick_slab_head [OF ok k False] show ?thesis by (intro exI conjI) auto
next
  case True
  with room has_room_lists [OF ok k] obtain i rest where "own Free = i # rest" by (auto simp: neq_Nil_conv)
  from pick_slab_free [OF ok k True this] show ?thesis by blast
qed

lemma scmalloc_too_big:
  assumes "cm s = Some c" and "cm_ok c own loc" and "chunk_size (last (caches c)) < n"
  shows "scmalloc n s = Inr (None, s)"
proof -
  have "caches c \<noteq> []" using assms(2) by (simp add: cm_ok_def frame_ok_def classes_ok_def)
  then show ?thesis
    using assms by (simp add: scmalloc_def cm_ok_def frame_ok_def last_conv_nth)
qed

lemma scmalloc_class:
  assumes "cm s = Some c" and ok: "cm_ok c own loc" and n: "n \<le> chunk_size (last (caches c))"
  obtains k where "k < length (caches c)" and "n \<le> chunk_size (caches c ! k)"
    and "\<And>j. j < k \<Longrightarrow> chunk_size (caches c ! j) < n"
    and "size_to_cache (Some (caches c)) (cache_count c) (u32 n) = Some k"
    and "\<not> chunk_size (caches c ! (cache_count c - 1)) < n" and "caches_ptr c \<noteq> 0"
proof -
  have f: "frame_ok c" using ok by (simp add: cm_ok_def)
  have ne: "caches c \<noteq> []" using f by (simp add: frame_ok_def classes_ok_def)
  have "class_ok (last (caches c))" using frame_class_ok [OF f] ne by (simp add: last_conv_nth)
  then have "n < 2 ^ 32" using n by (simp add: class_ok_def SLAB_SIZE_def)
  moreover have "cache_count c = length (caches c)" "caches_ptr c \<noteq> 0" "classes_ok (caches c)"
    using f by (simp_all add: frame_ok_def)
  ultimately show thesis
    using size_to_cache_fits [OF _ n] that ne n by (auto simp: last_conv_nth not_less)
qed

text \<open>What a successful allocation of class \<open>k\<close> does to the manager.\<close>

definition alloc_step :: "cache_manager_t \<Rightarrow> nat \<times> nat \<Rightarrow> cache_manager_t \<Rightarrow> bool" where
  "alloc_step c x c' \<longleftrightarrow> same_layout c c' \<and> x \<notin> chunks c \<and> chunks c' = insert x (chunks c) \<and>
     (\<forall>y \<in> chunks c. chunk_addr c' y = chunk_addr c y)"

lemma scmalloc_served:
  assumes cm: "cm s = Some c" and ok: "cm_ok c own loc" and st: "slab_ok s"
    and k: "k < length (caches c)" and size: "size_to_cache (Some (caches c)) (cache_count c) (u32 n) = Some k"
    and big: "\<not> chunk_size (caches c ! (cache_count c - 1)) < n" and cp: "caches_ptr c \<noteq> 0"
    and room: "has_room c k"
  shows "\<exists>i b c' s'. scmalloc n s = Inr (Some (chunk_addr c' (i, b)), s') \<and> cm s' = Some c' \<and> slab_ok s' \<and>
    alloc_step c (i, b) c' \<and> csize c' i = chunk_size (caches c ! k) \<and> sysheap s' = sysheap s \<and>
    slab_stats s' = (slab_stats s)\<lparr>sl_mem_used := sl_mem_used (slab_stats s) + chunk_size (caches c ! k)\<rparr>"
proof -
  obtain i c1 own1 loc1 where p: "pick_slab k c = (Some i, c1)" "picked k i c1 own1 loc1"
    and l1: "same_layout c c1" and v1: "chunks c1 = chunks c" "\<forall>x \<in> chunks c. chunk_addr c1 x = chunk_addr c x"
      "used_bytes c1 = used_bytes c"
    using pick_slab_spec [OF ok k room] by blast
  obtain b c2 own2 loc2 where t: "take_chunk k i c1 = Inr (b, c2)" "cm_ok c2 own2 loc2" "same_layout c1 c2"
    and new: "(i, b) \<notin> chunks c1" and v2: "chunks c2 = insert (i, b) (chunks c1)"
      "\<forall>x. fst x < length (slab_ctls c1) \<longrightarrow> chunk_addr c2 x = chunk_addr c1 x"
      "used_bytes c2 = used_bytes c1 + chunk_size (caches c1 ! k)"
    using take_chunk_ok [OF p(2)] by blast
  have lay: "same_layout c c2" using same_layout_trans [OF l1 t(3)] .
  have ck1: "ctl_cache (slab_ctls c1 ! i) = Some k" using p(2) by (simp add: picked_def)
  have i: "i < length (slab_ctls c1)" using p(2) by (simp add: picked_def)
  have csz: "chunk_size (caches c1 ! k) = chunk_size (caches c ! k)" "chunk_size (caches c2 ! k) = chunk_size (caches c ! k)"
    using l1 lay k by (simp_all add: same_layout_def same_classes_def)
  have len: "length (slab_ctls c2) = length (slab_ctls c)" using lay by (simp add: same_layout_def)
  have x: "(i, b) \<in> chunks c2" by (simp add: v2)
  have "chunk_addr c2 (i, 1) = chunk_addr c1 (i, 1)" "slabs c2 = slabs c1"
    using v2(2) i t(3) by (simp_all add: same_layout_def)
  then have cs2: "csize c2 i = chunk_size (caches c ! k)"
    using ccount_csize [OF ck1] csz by (simp add: chunk_addr_def)
  note addr = chunk_addr_machine [OF t(2) x, unfolded cs2]
  have used: "sl_mem_used (slab_stats s) = used_bytes c" and lim: "length (slab_ctls c) * SLAB_SIZE \<le> sl_mem_mallocd (slab_stats s)"
    and m64: "sl_mem_mallocd (slab_stats s) < 2 ^ 64"
    using st cm by (auto simp: slab_ok_def)
  have ub: "used_bytes c2 = used_bytes c + chunk_size (caches c ! k)" by (simp add: v1 v2 csz)
  have le: "used_bytes c + chunk_size (caches c ! k) \<le> sl_mem_mallocd (slab_stats s)"
    using used_bytes_le [OF t(2)] lim unfolding ub len by simp
  define s' where "s' = s\<lparr>cm := Some c2, slab_stats := (slab_stats s)
      \<lparr>sl_mem_used := sl_mem_used (slab_stats s) + chunk_size (caches c ! k)\<rparr>\<rparr>"
  have "slab_ok s'" unfolding slab_ok_def
    using t(2) used lim m64 len ub by (intro exI [of _ c2] exI [of _ own2] exI [of _ loc2]) (simp add: s'_def)
  moreover have "scmalloc n s = Inr (Some (chunk_addr c2 (i, b)), s')"
    using cm cp big size p(1) ck1 t(1) addr csz used le m64 by (simp add: scmalloc_def s'_def)
  moreover have "alloc_step c (i, b) c2"
  proof -
    have "chunk_addr c2 y = chunk_addr c y" if y: "y \<in> chunks c" for y
    proof -
      have "fst y < length (slab_ctls c1)"
        using y l1 by (auto simp: chunks_def same_layout_def)
      then show ?thesis using v1(2) v2(2) y by metis
    qed
    then show ?thesis using lay new v1(1) v2(1) by (simp add: alloc_step_def)
  qed
  moreover have "cm s' = Some c2 \<and> sysheap s' = sysheap s \<and> slab_stats s' = (slab_stats s)
      \<lparr>sl_mem_used := sl_mem_used (slab_stats s) + chunk_size (caches c ! k)\<rparr>" by (simp add: s'_def)
  ultimately show ?thesis using cs2 by blast
qed

lemma scmalloc_full:
  assumes cm: "cm s = Some c" and ok: "cm_ok c own loc"
    and k: "k < length (caches c)" and size: "size_to_cache (Some (caches c)) (cache_count c) (u32 n) = Some k"
    and big: "\<not> chunk_size (caches c ! (cache_count c - 1)) < n" and cp: "caches_ptr c \<noteq> 0"
    and room: "\<not> has_room c k"
  shows "scmalloc n s = Inr (None, s)"
proof -
  have "pick_slab k c = (None, c)"
    using room has_room_lists [OF ok k] by (intro pick_slab_none [OF ok k]) auto
  moreover have "s\<lparr>cm := Some c\<rparr> = s" using cm by (cases s) simp
  ultimately show ?thesis using cm cp big size by (simp add: scmalloc_def)
qed

end
