(* ===== verification/Slab_Release.thy ===== *)
theory Slab_Release
  imports Slab_Alloc
begin

text \<open>
  \<open>scfree\<close> is correct: freeing a chunk in use trips no assert, takes exactly that chunk out
  of the set of chunks in use and keeps the invariant, whichever of the three list moves it
  makes; freeing a chunk that is not in use stops at the double-free check.
\<close>

lemma same_layout_sym:
  assumes "same_layout c c'"
  shows "same_layout c' c"
  using assms by (auto simp: same_layout_def same_classes_def)

text \<open>A state change that moves slab \<open>i\<close> to place \<open>q\<close> and keeps the data of the others.\<close>

lemma cm_ok_step:
  assumes ok: "cm_ok c own loc" and lay: "same_layout c c'" and l: "lists_ok c' own' (loc(i := q))"
    and data: "\<And>j. j < length (slab_ctls c) \<Longrightarrow> j \<noteq> i \<Longrightarrow>
      slots (slab_ctls c' ! j) = slots (slab_ctls c ! j) \<and> nused (slab_ctls c' ! j) = nused (slab_ctls c ! j) \<and>
      ctl_cache (slab_ctls c' ! j) = ctl_cache (slab_ctls c ! j)"
    and i: "ctl_ok (caches c') q (slab_ctls c' ! i)"
  shows "cm_ok c' own' (loc(i := q))"
proof -
  have len: "length (slab_ctls c') = length (slab_ctls c)" and same: "same_classes (caches c) (caches c')"
    using lay by (simp_all only: same_layout_def)
  have "ctl_ok (caches c') ((loc(i := q)) j) (slab_ctls c' ! j)" if j: "j < length (slab_ctls c')" for j
  proof (cases "j = i")
    case True
    with i show ?thesis by simp
  next
    case False
    have jc: "j < length (slab_ctls c)" using j len by simp
    have "ctl_ok (caches c) (loc j) (slab_ctls c' ! j)"
      using cm_ok_ctl [OF ok jc] data [OF jc False]
      by (subst ctl_ok_data [where d = "slab_ctls c ! j"]) simp_all
    moreover have "loc j \<in> places c" using ok jc by (simp add: cm_ok_def lists_ok_def)
    ultimately have "ctl_ok (caches c') (loc j) (slab_ctls c' ! j)" using ctl_ok_cong [OF same] by blast
    then show ?thesis using False by simp
  qed
  moreover have "frame_ok c'" using ok frame_ok_cong [OF lay] by (simp add: cm_ok_def)
  ultimately show ?thesis using l by (simp add: cm_ok_def)
qed

subsection \<open>Moving a slab between two lists\<close>

fun put_list :: "place \<Rightarrow> list_t \<Rightarrow> cache_manager_t \<Rightarrow> cache_manager_t" where
  "put_list Free li c = c\<lparr>slabs_free := li\<rparr>"
| "put_list (Partial k) li c = c\<lparr>caches := (caches c)[k := (caches c ! k)\<lparr>slabs_partial := li\<rparr>]\<rparr>"
| "put_list (Full k) li c = c\<lparr>caches := (caches c)[k := (caches c ! k)\<lparr>slabs_full := li\<rparr>]\<rparr>"

lemma put_list_frame [simp]:
  "length (caches (put_list p li c)) = length (caches c)"
  "slab_ctls (put_list p li c) = slab_ctls c" "slabs (put_list p li c) = slabs c"
  "cache_count (put_list p li c) = cache_count c" "caches_ptr (put_list p li c) = caches_ptr c"
  "slabctl_count (put_list p li c) = slabctl_count c"
  "cm_self (put_list p li c) = cm_self c" "slab_ctls_ptr (put_list p li c) = slab_ctls_ptr c"
  by (cases p; simp)+

lemma put_list_classes: "same_classes (caches c) (caches (put_list p li c))"
  by (cases p) (auto intro: same_classes_update)

lemma place_list_put:
  "p \<in> places c \<Longrightarrow> place_list (put_list p li c) r = (if r = p then li else place_list c r)"
  by (cases p; cases r) (auto simp: nth_list_update)

lemma rem_move:
  assumes l: "lists_ok c own loc" and i: "i < length (slab_ctls c)" "loc i = p"
    and pq: "p \<in> places c" "q \<in> places c" "p \<noteq> q"
  shows "\<exists>lp lq cs. rem_and_push (place_list c p) (place_list c q) i (slab_ctls c) = Inr (True, lp, lq, cs) \<and>
    same_data (slab_ctls c) cs \<and>
    lists_ok (put_list q lq (put_list p lp c)\<lparr>slab_ctls := cs\<rparr>)
      (own(p := remove1 i (own p), q := i # own q)) (loc(i := q)) \<and>
    same_layout c (put_list q lq (put_list p lp c)\<lparr>slab_ctls := cs\<rparr>)"
proof -
  note dp = lists_okD [OF l pq(1)] and dq = lists_okD [OF l pq(2)]
  have "i \<in> set (own p)" using dp(2) i by blast
  from rem_and_push_dll [OF dp(1) this dq(1) own_disjoint [OF l pq]]
  obtain lp lq cs where r: "rem_and_push (place_list c p) (place_list c q) i (slab_ctls c) = Inr (True, lp, lq, cs)"
    and d: "dll cs lp (remove1 i (own p))" "dll cs lq (i # own q)" and s: "same_data (slab_ctls c) cs"
    and o: "unchanged_off (set (own p) \<union> set (own q)) (slab_ctls c) cs" by blast
  define c' where "c' = put_list q lq (put_list p lp c)\<lparr>slab_ctls := cs\<rparr>"
  have cls: "same_classes (caches c) (caches c')"
    using same_classes_trans [OF put_list_classes put_list_classes] by (simp add: c'_def)
  have q': "q \<in> places (put_list p lp c)" using pq(2) by (simp add: places_def)
  have pl: "place_list c' r = (if r = q then lq else if r = p then lp else place_list c r)" for r
  proof -
    have "place_list c' r = place_list (put_list q lq (put_list p lp c)) r"
      by (cases r) (simp_all add: c'_def)
    then show ?thesis by (simp add: place_list_put [OF q'] place_list_put [OF pq(1)])
  qed
  have "lists_ok c' (own(p := remove1 i (own p), q := i # own q)) (loc(i := q))"
  proof (rule lists_ok_move [OF l i pq])
    show "dll (slab_ctls c') (place_list c' p) (remove1 i (own p))"
      "dll (slab_ctls c') (place_list c' q) (i # own q)"
      using d pq(3) unfolding pl by (simp_all add: c'_def)
    show "place_list c' r = place_list c r" if "r \<noteq> p" "r \<noteq> q" "r \<in> places c" for r
      using that by (simp add: pl)
    show "unchanged_off (set (own p) \<union> set (own q)) (slab_ctls c) (slab_ctls c')"
      using o by (simp add: c'_def)
    show "places c' = places c" using cls by (rule places_cong)
  qed
  moreover have "same_layout c c'"
    using cls s by (simp add: same_layout_def same_data_def c'_def)
  ultimately show ?thesis using r s unfolding c'_def by blast
qed

subsection \<open>The end of scfree\<close>

lemma cache_lists_commute:
  "c\<lparr>slabs_full := a, slabs_partial := b\<rparr> = c\<lparr>slabs_partial := b, slabs_full := a\<rparr>"
  by (cases c) simp

lemma release_slab_ok:
  fixes c i d' k
  defines "c1 \<equiv> c\<lparr>slab_ctls := (slab_ctls c)[i := d']\<rparr>"
  assumes ok: "cm_ok c own loc" and i: "i < length (slab_ctls c)"
    and ck: "ctl_cache (slab_ctls c ! i) = Some k"
    and d': "nxt d' = nxt (slab_ctls c ! i)" "prv d' = prv (slab_ctls c ! i)"
      "nindex d' = nindex (slab_ctls c ! i)" "ctl_cache d' = Some k"
    and so: "slots_ok (chunk_count_perslab (caches c ! k)) d'"
    and nu: "Suc (nused d') = nused (slab_ctls c ! i)"
  shows "\<exists>c' own' loc'. release_slab k i c1 = Inr c' \<and> cm_ok c' own' loc' \<and> same_layout c c' \<and>
    same_data (slab_ctls c1) (slab_ctls c')"
proof -
  define n where "n = chunk_count_perslab (caches c ! k)"
  have f: "frame_ok c" and l: "lists_ok c own loc" using ok by (simp_all add: cm_ok_def)
  have k: "k < length (caches c)" using cm_ok_cache_lt [OF ok i ck] .
  have ki: "Partial k \<in> places c1" "Full k \<in> places c1" "Free \<in> places c1" using k by (simp_all add: c1_def)
  have n32: "n \<le> 2 ^ 32" using frame_count_le [OF f k] by (simp add: n_def WORD_COUNT_eq WORD_SIZE_IN_BITS_def)
  have o: "ctl_ok (caches c) (loc i) (slab_ctls c ! i)" using cm_ok_ctl [OF ok i] .
  then have loc: "loc i = Partial k \<and> Suc (nused d') < n \<or> loc i = Full k \<and> Suc (nused d') = n"
    using ck nu by (cases "loc i") (auto simp: n_def slots_ok_0)
  have l1: "lists_ok c1 own loc"
    by (rule lists_ok_payload [OF l]) (use d' i in \<open>auto simp: c1_def nth_list_update\<close>)
  have i1: "i < length (slab_ctls c1)" using i by (simp add: c1_def)
  have lay1: "same_layout c c1" using d' i by (auto simp: same_layout_def c1_def nth_list_update)
  have di: "slab_ctls c1 ! i = d'" using i by (simp add: c1_def)
  have step: "\<exists>own' loc'. cm_ok c' own' loc'"
    if ls: "lists_ok c' own' (loc(i := q))" and lay: "same_layout c c'" and sd: "same_data (slab_ctls c1) (slab_ctls c')"
      and q: "ctl_ok (caches c) q d'" "q \<in> places c" for c' own' q
  proof -
    have same: "same_classes (caches c) (caches c')" using lay by (simp only: same_layout_def)
    have "ctl_ok (caches c') q d'" using ctl_ok_cong [OF same q(2)] q(1) by blast
    then have "ctl_ok (caches c') q (slab_ctls c' ! i)"
      using sd i1 di by (subst ctl_ok_data [where d = d']) (simp_all add: same_data_def)
    moreover have "slots (slab_ctls c' ! j) = slots (slab_ctls c ! j) \<and> nused (slab_ctls c' ! j) = nused (slab_ctls c ! j) \<and>
        ctl_cache (slab_ctls c' ! j) = ctl_cache (slab_ctls c ! j)" if "j < length (slab_ctls c)" "j \<noteq> i" for j
      using sd that by (simp add: same_data_def c1_def)
    ultimately show ?thesis using cm_ok_step [OF ok lay ls] by blast
  qed
  have free: "ctl_ok (caches c) Free d'" if "nused d' = 0"
    using slots_ok_empty [OF so that] d' k by simp
  have part: "ctl_ok (caches c) (Partial k) d'" if "nused d' \<noteq> 0" "nused d' < n"
    using so d' that by (simp add: n_def)
  have cc: "caches c1 = caches c" "slabs_free c1 = slabs_free c" by (simp_all add: c1_def)
  have dec: "dec32 n = n - 1" if "0 < n" using dec32_id that n32 by blast
  consider (part_free) "loc i = Partial k" "nused d' = 0" | (full_free) "loc i = Full k" "nused d' = 0"
    | (full_part) "loc i = Full k" "nused d' \<noteq> 0" "Suc (nused d') = n"
    | (stay) "loc i = Partial k" "nused d' \<noteq> 0" "Suc (nused d') < n"
    using loc by blast
  then show ?thesis
  proof cases
    case part_free
    from rem_move [OF l1 i1 part_free(1) ki(1,3)] obtain lp lq cs where
      r: "rem_and_push (slabs_partial (caches c ! k)) (slabs_free c) i (slab_ctls c1) = Inr (True, lp, lq, cs)"
      and m: "same_data (slab_ctls c1) cs" "lists_ok (put_list Free lq (put_list (Partial k) lp c1)\<lparr>slab_ctls := cs\<rparr>)
        (own(Partial k := remove1 i (own (Partial k)), Free := i # own Free)) (loc(i := Free))"
        "same_layout c1 (put_list Free lq (put_list (Partial k) lp c1)\<lparr>slab_ctls := cs\<rparr>)"
      by (auto simp: cc)
    have "release_slab k i c1 = Inr (put_list Free lq (put_list (Partial k) lp c1)\<lparr>slab_ctls := cs\<rparr>)"
      using r di part_free(2) by (simp add: release_slab_def cc)
    moreover have "\<exists>own' loc'. cm_ok (put_list Free lq (put_list (Partial k) lp c1)\<lparr>slab_ctls := cs\<rparr>) own' loc'"
      using m free part_free(2) same_layout_trans [OF lay1] by (intro step [OF m(2)]) auto
    ultimately show ?thesis using m same_layout_trans [OF lay1 m(3)] by auto
  next
    case full_free
    have "i \<notin> set (own (Partial k))" using lists_okD(2) [OF l1 ki(1)] full_free(1) by simp
    then have a: "rem_and_push (slabs_partial (caches c ! k)) (slabs_free c) i (slab_ctls c1)
        = Inr (False, slabs_partial (caches c ! k), slabs_free c, slab_ctls c1)"
      using rem_and_push_absent lists_okD(1) [OF l1 ki(1)] by (simp add: cc)
    from rem_move [OF l1 i1 full_free(1) ki(2,3)] obtain lp lq cs where
      r: "rem_and_push (slabs_full (caches c ! k)) (slabs_free c) i (slab_ctls c1) = Inr (True, lp, lq, cs)"
      and m: "same_data (slab_ctls c1) cs" "lists_ok (put_list Free lq (put_list (Full k) lp c1)\<lparr>slab_ctls := cs\<rparr>)
        (own(Full k := remove1 i (own (Full k)), Free := i # own Free)) (loc(i := Free))"
        "same_layout c1 (put_list Free lq (put_list (Full k) lp c1)\<lparr>slab_ctls := cs\<rparr>)"
      by (auto simp: cc)
    have "release_slab k i c1 = Inr (put_list Free lq (put_list (Full k) lp c1)\<lparr>slab_ctls := cs\<rparr>)"
      using r a di full_free(2) by (simp add: release_slab_def cc)
    moreover have "\<exists>own' loc'. cm_ok (put_list Free lq (put_list (Full k) lp c1)\<lparr>slab_ctls := cs\<rparr>) own' loc'"
      using m free full_free(2) same_layout_trans [OF lay1] by (intro step [OF m(2)]) auto
    ultimately show ?thesis using m same_layout_trans [OF lay1 m(3)] by auto
  next
    case full_part
    from rem_move [OF l1 i1 full_part(1) ki(2,1)] obtain lp lq cs where
      r: "rem_and_push (slabs_full (caches c ! k)) (slabs_partial (caches c ! k)) i (slab_ctls c1) = Inr (True, lp, lq, cs)"
      and m: "same_data (slab_ctls c1) cs" "lists_ok (put_list (Partial k) lq (put_list (Full k) lp c1)\<lparr>slab_ctls := cs\<rparr>)
        (own(Full k := remove1 i (own (Full k)), Partial k := i # own (Partial k))) (loc(i := Partial k))"
        "same_layout c1 (put_list (Partial k) lq (put_list (Full k) lp c1)\<lparr>slab_ctls := cs\<rparr>)"
      by (auto simp: cc)
    have "nused d' = dec32 n" using dec full_part by simp
    then have "release_slab k i c1 = Inr (put_list (Partial k) lq (put_list (Full k) lp c1)\<lparr>slab_ctls := cs\<rparr>)"
      using r di full_part(2) k by (simp add: release_slab_def cc n_def cache_lists_commute)
    moreover have "\<exists>own' loc'. cm_ok (put_list (Partial k) lq (put_list (Full k) lp c1)\<lparr>slab_ctls := cs\<rparr>) own' loc'"
      using m part full_part k same_layout_trans [OF lay1] by (intro step [OF m(2)]) auto
    ultimately show ?thesis using m same_layout_trans [OF lay1 m(3)] by auto
  next
    case stay
    have "nused d' \<noteq> dec32 n" using dec stay by simp
    then have "release_slab k i c1 = Inr c1"
      using di stay(2) by (simp add: release_slab_def cc n_def)
    moreover have "lists_ok c1 own (loc(i := Partial k))" using l1 stay(1) by (simp add: fun_upd_idem)
    then have "\<exists>own' loc'. cm_ok c1 own' loc'"
      using part stay k by (intro step [OF _ lay1 same_data_refl]) auto
    ultimately show ?thesis using lay1 by auto
  qed
qed

subsection \<open>scfree\<close>

text \<open>The address arithmetic of \<open>scfree\<close> finds the slab and the chunk of an address.\<close>

lemma scfree_locates:
  assumes f: "frame_ok c" and i: "i < length (slab_ctls c)"
    and b: "0 < csize c i" "csize c i * b + csize c i \<le> SLAB_SIZE"
  defines "p \<equiv> u32 (sub64 (chunk_addr c (i, b)) (slabs c))"
  shows "p div SLAB_SIZE = i" and "(p mod SLAB_SIZE) div csize c i = b"
    and "\<not> u32 (slabctl_count c * SLAB_SIZE) < p"
proof -
  have lt: "csize c i * b < SLAB_SIZE" using b by simp
  have "Suc i * SLAB_SIZE \<le> length (slab_ctls c) * SLAB_SIZE" using i by (intro mult_le_mono1) simp
  then have le: "i * SLAB_SIZE + csize c i * b < length (slab_ctls c) * SLAB_SIZE" using lt by simp
  have b32: "length (slab_ctls c) * SLAB_SIZE < 2 ^ 32" and b64: "slabs c + length (slab_ctls c) * SLAB_SIZE < 2 ^ 64"
    and cnt: "slabctl_count c = length (slab_ctls c)" using f by (simp_all add: frame_ok_def)
  have "sub64 (chunk_addr c (i, b)) (slabs c) = i * SLAB_SIZE + csize c i * b"
    using sub64_id [of "slabs c" "chunk_addr c (i, b)"] le b64 by (simp add: chunk_addr_def)
  then have p: "p = i * SLAB_SIZE + csize c i * b" using le b32 by (simp add: p_def)
  show "p div SLAB_SIZE = i" using lt by (simp add: p)
  show "(p mod SLAB_SIZE) div csize c i = b" using lt b(1) by (simp add: p)
  show "\<not> u32 (slabctl_count c * SLAB_SIZE) < p" using le b32 by (simp add: p cnt)
qed

text \<open>What freeing a chunk does to the manager.\<close>

definition free_step :: "cache_manager_t \<Rightarrow> nat \<times> nat \<Rightarrow> cache_manager_t \<Rightarrow> bool" where
  "free_step c x c' \<longleftrightarrow> same_layout c c' \<and> chunks c' = chunks c - {x} \<and>
     ccount c' (fst x) = ccount c (fst x) \<and>
     (\<forall>y \<in> chunks c. chunk_addr c' y = chunk_addr c y)"

lemma scfree_live:
  assumes cm: "cm s = Some c" and ok: "cm_ok c own loc" and st: "slab_ok s" and x: "(i, b) \<in> chunks c"
  shows "\<exists>c' s'. scfree (chunk_addr c (i, b)) s = Inr s' \<and> cm s' = Some c' \<and> slab_ok s' \<and>
    free_step c (i, b) c' \<and> csize c i \<le> sl_mem_used (slab_stats s) \<and> sysheap s' = sysheap s \<and>
    slab_stats s' = (slab_stats s)\<lparr>sl_mem_used := sl_mem_used (slab_stats s) - csize c i\<rparr>"
proof -
  note bd = chunk_bounds [OF ok x]
  have f: "frame_ok c" using ok by (simp add: cm_ok_def)
  note loc = scfree_locates [OF f bd(1) bd(3,4)]
  define d where "d = slab_ctls c ! i"
  obtain k where k: "ctl_cache d = Some k" using bd(3) by (auto simp: csize_def d_def split: option.splits)
  have kl: "k < length (caches c)" using cm_ok_cache_lt [OF ok bd(1)] k by (simp add: d_def)
  have cc: "ccount c i = chunk_count_perslab (caches c ! k)" "csize c i = chunk_size (caches c ! k)"
    using ccount_csize k by (simp_all add: d_def)
  have so: "slots_ok (ccount c i) d" and nb: "ccount c i \<le> BIT_COUNT"
    using slots_ok_view [OF ok bd(1)] by (simp_all add: d_def)
  have bok: "bitset_ok (slots d)" using so by (simp add: slots_ok_def)
  have bt: "b \<in> taken (ccount c i) d" using x by (simp add: chunks_def d_def)
  then have nb0: "b \<notin> bits_of (slots d)" by (simp add: taken_def)
  have g: "get_bit_s (slots d) b = Inr 0" using get_bit_s_spec [OF bok, of b] nb0 bd(2) nb by simp
  obtain bs where sb: "set_bit_s (slots d) b = Inr bs" "bitset_ok bs" "bits_of bs = insert b (bits_of (slots d))"
    and card: "Suc (card ({..<ccount c i} - bits_of bs)) = card ({..<ccount c i} - bits_of (slots d))"
    using bts.give_back [OF bok nb bd(2) nb0] by blast
  have nu: "Suc (card ({..<ccount c i} - bits_of bs)) = nused d" using card so by (simp add: slots_ok_def taken_def)
  have "nused d \<le> ccount c i" using nused_le_ccount [OF ok bd(1)] by (simp add: d_def)
  then have dec: "dec32 (nused d) = card ({..<ccount c i} - bits_of bs)"
    using dec32_id [of "nused d"] nu nb by (simp add: WORD_COUNT_eq WORD_SIZE_IN_BITS_def)
  define d' where "d' = d\<lparr>slots := bs, nused := dec32 (nused d)\<rparr>"
  have "slots_ok (chunk_count_perslab (caches c ! k)) d'"
    using so sb dec by (auto simp: slots_ok_def taken_def d'_def cc)
  from release_slab_ok [OF ok bd(1), of k d'] this obtain c' own' loc' where
    r: "release_slab k i (c\<lparr>slab_ctls := (slab_ctls c)[i := d']\<rparr>) = Inr c'" "cm_ok c' own' loc'"
    and lay: "same_layout c c'" and sd: "same_data (slab_ctls (c\<lparr>slab_ctls := (slab_ctls c)[i := d']\<rparr>)) (slab_ctls c')"
    using k nu dec by (auto simp: d'_def d_def)
  have e: "slots (slab_ctls c' ! j) = slots (if j = i then d' else slab_ctls c ! j) \<and>
      nused (slab_ctls c' ! j) = nused (if j = i then d' else slab_ctls c ! j) \<and>
      ctl_cache (slab_ctls c' ! j) = ctl_cache (slab_ctls c ! j)" if "j < length (slab_ctls c)" for j
    using sd that by (auto simp: same_data_def nth_list_update d'_def d_def)
  have len: "length (slab_ctls c') = length (slab_ctls c)" using lay by (simp add: same_layout_def)
  have v: "csize c' i = csize c i" "ccount c' i = ccount c i"
    using view_eq [OF lay cm_ok_cache_lt [OF ok] _ bd(1)] e [OF bd(1)] by auto
  have "chunks c = insert (i, b) (chunks c') \<and>
      (\<forall>x. fst x < length (slab_ctls c') \<longrightarrow> chunk_addr c x = chunk_addr c' x) \<and>
      used_bytes c = used_bytes c' + csize c' i"
  proof (rule view_step [OF same_layout_sym [OF lay]])
    show "i < length (slab_ctls c')" using bd(1) len by simp
    show "m < length (caches c')" if "j < length (slab_ctls c')" "ctl_cache (slab_ctls c' ! j) = Some m" for j m
      using cm_ok_cache_lt [OF r(2) that] .
    show "ctl_cache (slab_ctls c ! j) = ctl_cache (slab_ctls c' ! j)" if "j < length (slab_ctls c')" for j
      using e that len by simp
    show "slots (slab_ctls c ! j) = slots (slab_ctls c' ! j) \<and> nused (slab_ctls c ! j) = nused (slab_ctls c' ! j)"
      if "j < length (slab_ctls c')" "j \<noteq> i" for j using e that len by simp
    show "taken (ccount c' i) (slab_ctls c ! i) = insert b (taken (ccount c' i) (slab_ctls c' ! i))"
      using e [OF bd(1)] v bt sb(3) by (auto simp: taken_def d'_def d_def)
    show "nused (slab_ctls c ! i) = Suc (nused (slab_ctls c' ! i))"
      using e [OF bd(1)] nu dec by (simp add: d'_def d_def)
  qed
  moreover have "(i, b) \<notin> chunks c'" using e [OF bd(1)] sb(3) by (simp add: chunks_def taken_def d'_def)
  ultimately have vs: "chunks c = insert (i, b) (chunks c')" "(i, b) \<notin> chunks c'"
      "\<forall>y. fst y < length (slab_ctls c) \<longrightarrow> chunk_addr c y = chunk_addr c' y"
    and ub: "used_bytes c = used_bytes c' + csize c i"
    by (auto simp only: v len)
  have "chunk_addr c' y = chunk_addr c y" if "y \<in> chunks c" for y
  proof -
    have "fst y < length (slab_ctls c)" using that by (auto simp: chunks_def)
    then show ?thesis using vs(3) by metis
  qed
  then have fs: "free_step c (i, b) c'" using lay vs(1,2) v(2) by (simp add: free_step_def)
  have used: "sl_mem_used (slab_stats s) = used_bytes c" and lim: "length (slab_ctls c) * SLAB_SIZE \<le> sl_mem_mallocd (slab_stats s)"
    and m64: "sl_mem_mallocd (slab_stats s) < 2 ^ 64"
    using st cm by (auto simp: slab_ok_def)
  have "used_bytes c < 2 ^ 64" using used_bytes_le [OF ok] lim m64 by linarith
  then have sub: "sub64 (used_bytes c) (csize c i) = used_bytes c - csize c i" using ub by (intro sub64_id) auto
  define s' where "s' = s\<lparr>cm := Some c', slab_stats := (slab_stats s)
      \<lparr>sl_mem_used := sl_mem_used (slab_stats s) - csize c i\<rparr>\<rparr>"
  have "slab_ok s'" unfolding slab_ok_def
    using r(2) used lim m64 len ub by (intro exI [of _ c'] exI [of _ own'] exI [of _ loc']) (simp add: s'_def)
  moreover have "chunk_size (caches c' ! k) = csize c i"
    using lay kl cc by (simp add: same_layout_def same_classes_def)
  then have "scfree (chunk_addr c (i, b)) s = Inr s'"
    using cm loc k g sb(1) r(1) bd(1) sub used cc
    by (simp add: scfree_def Let_def d_def [symmetric] d'_def [symmetric] s'_def)
  ultimately show ?thesis using fs ub used by (auto simp: s'_def)
qed

text \<open>An address of a chunk of a slab that is not in use is a double free.\<close>

lemma scfree_dead:
  assumes cm: "cm s = Some c" and ok: "cm_ok c own loc" and i: "i < length (slab_ctls c)"
    and b: "b < ccount c i" and x: "(i, b) \<notin> chunks c"
  shows "scfree (chunk_addr c (i, b)) s = Inl Assert_failed"
proof -
  have f: "frame_ok c" using ok by (simp add: cm_ok_def)
  obtain k where k: "ctl_cache (slab_ctls c ! i) = Some k" using b by (auto simp: ccount_def split: option.splits)
  have "class_ok (caches c ! k)" using cm_ok_cache_lt [OF ok i k] f frame_class_ok by blast
  then have pos: "0 < csize c i" using k by (simp add: csize_def class_ok_def)
  have "csize c i * b + csize c i = csize c i * Suc b" by simp
  also have "\<dots> \<le> csize c i * ccount c i" using b by (intro mult_le_mono2) simp
  also have "\<dots> \<le> SLAB_SIZE" using slots_ok_view(3) [OF ok i] by (simp add: mult.commute)
  finally have "csize c i * b + csize c i \<le> SLAB_SIZE" .
  note loc = scfree_locates [OF f i pos this]
  have so: "slots_ok (ccount c i) (slab_ctls c ! i)" "ccount c i \<le> BIT_COUNT" using slots_ok_view [OF ok i] by auto
  then have "get_bit_s (slots (slab_ctls c ! i)) b = Inr 1"
    using get_bit_s_spec [of "slots (slab_ctls c ! i)" b] x i b by (simp add: slots_ok_def chunks_def taken_def)
  then show ?thesis using cm loc k i by (simp add: scfree_def Let_def csize_def)
qed

end
