(* ===== verification/Slab_Init.thy ===== *)
theory Slab_Init
  imports Slab_Release
begin

text \<open>
  Setting the slab allocator up and tearing it down. \<open>init_cache_manager\<close> with the factor
  the server uses and a limit of at most 4096 MB either establishes the invariant with
  nothing allocated and stays within the limit, or gives every block back to the C library.
\<close>

definition slab_start :: "sysheap \<Rightarrow> slab_state" where
  "slab_start h = \<lparr>cm = None, slab_stats = \<lparr>sl_mem_used = 0, sl_mem_mallocd = 0, sl_mem_limit = 0,
     sl_mem_used_metadata = 0, sl_cache_count = 0, sl_slab_count = 0\<rparr>, sysheap = h\<rparr>"

subsection \<open>malloci and deinit\<close>

lemma malloci_cases:
  assumes mf: "malloc_ok mf" and n: "n + 8 < 2 ^ 64"
  obtains (fail) "malloci mf n s = (None, s)"
  | (ok) p where "malloci mf n s = (Some (p + 8), s\<lparr>sysheap := (p, n + 8, n + 8) # sysheap s,
       slab_stats := (slab_stats s)\<lparr>sl_mem_mallocd := u64 (sl_mem_mallocd (slab_stats s) + (n + 8))\<rparr>\<rparr>)"
     and "0 < p" and "p + (n + 8) < 2 ^ 64" and "block_free (sysheap s) p (n + 8)"
proof (cases "mf (sysheap s) (n + 8)")
  case None
  with n show thesis by (intro fail) (simp add: malloci_def)
next
  case (Some p)
  then have "0 < p" "p + (n + 8) < 2 ^ 64" "block_free (sysheap s) p (n + 8)"
    using mf by (fastforce simp: malloc_ok_def)+
  with Some n show thesis by (intro ok [of p]) (simp_all add: malloci_def Let_def)
qed

text \<open>The block \<open>malloci\<close> returned pointer \<open>p\<close> for; none for NULL.\<close>

definition block_at :: "nat \<Rightarrow> nat \<Rightarrow> sysheap" where
  "block_at p l = (if p = 0 then [] else [(p - 8, l, l)])"

lemma freei_if_block:
  assumes "sysheap s = bs @ block_at p l @ h" and "p - 8 \<notin> fst ` set bs" and "p = 0 \<longrightarrow> l = 0"
    and "l \<le> sl_mem_mallocd (slab_stats s)" and "sl_mem_mallocd (slab_stats s) < 2 ^ 64"
  shows "freei_if p s = Inr (s\<lparr>sysheap := bs @ h,
    slab_stats := (slab_stats s)\<lparr>sl_mem_mallocd := sl_mem_mallocd (slab_stats s) - l\<rparr>\<rparr>)"
proof (cases "p = 0")
  case True
  with assms show ?thesis by (simp add: freei_if_def block_at_def)
next
  case False
  have f: "find (\<lambda>b. fst b = p - 8) bs = None" using assms(2) by (force simp: find_None_iff)
  have "find (\<lambda>b. fst b = p - 8) (bs @ (p - 8, l, l) # h) = Some (p - 8, l, l)"
    using f by (induction bs) (auto split: if_splits)
  moreover have "(p - 8, l, l) \<notin> set bs" using assms(2) by force
  then have "remove1 (p - 8, l, l) (bs @ (p - 8, l, l) # h) = bs @ h"
    by (simp add: remove1_append)
  ultimately show ?thesis
    using False assms by (simp add: freei_if_def freei_def block_at_def sub64_id)
qed

lemma deinit_ok:
  assumes cm: "cm s = Some c" and self: "cm_self c \<noteq> 0"
    and heap: "sysheap s = block_at (slabs c) l4 @ block_at (slab_ctls_ptr c) l3 @
      block_at (caches_ptr c) l2 @ block_at (cm_self c) l1 @ h"
    and dist: "caches_ptr c - 8 \<notin> fst ` set (block_at (slabs c) l4 @ block_at (slab_ctls_ptr c) l3)"
      "slab_ctls_ptr c - 8 \<notin> fst ` set (block_at (slabs c) l4)"
    and z: "slabs c = 0 \<longrightarrow> l4 = 0" "slab_ctls_ptr c = 0 \<longrightarrow> l3 = 0" "caches_ptr c = 0 \<longrightarrow> l2 = 0"
    and sum: "sl_mem_mallocd (slab_stats s) = l1 + l2 + l3 + l4" and lim: "l1 + l2 + l3 + l4 < 2 ^ 64"
  shows "deinit_cache_manager s = Inr (slab_start h)"
proof -
  define b4 b3 where "b4 = block_at (slabs c) l4" and "b3 = block_at (slab_ctls_ptr c) l3"
  define s1 where "s1 = s\<lparr>sysheap := b4 @ b3 @ block_at (cm_self c) l1 @ h,
    slab_stats := (slab_stats s)\<lparr>sl_mem_mallocd := l1 + l3 + l4\<rparr>\<rparr>"
  define s2 where "s2 = s\<lparr>sysheap := b4 @ block_at (cm_self c) l1 @ h,
    slab_stats := (slab_stats s)\<lparr>sl_mem_mallocd := l1 + l4\<rparr>\<rparr>"
  define s3 where "s3 = s\<lparr>sysheap := block_at (cm_self c) l1 @ h,
    slab_stats := (slab_stats s)\<lparr>sl_mem_mallocd := l1\<rparr>\<rparr>"
  define s4 where "s4 = s\<lparr>sysheap := h, slab_stats := (slab_stats s)\<lparr>sl_mem_mallocd := 0\<rparr>\<rparr>"
  have "freei_if (caches_ptr c) s = Inr s1"
    using freei_if_block [of s "b4 @ b3" "caches_ptr c" l2 "block_at (cm_self c) l1 @ h"] heap dist(1) z(3) sum lim
    by (simp add: s1_def b4_def b3_def add.commute add.left_commute)
  moreover have "freei_if (slab_ctls_ptr c) s1 = Inr s2"
    using freei_if_block [of s1 b4 "slab_ctls_ptr c" l3 "block_at (cm_self c) l1 @ h"] dist(2) z(2) lim
    by (simp add: s1_def s2_def b4_def b3_def add.commute)
  moreover have "freei_if (slabs c) s2 = Inr s3"
    using freei_if_block [of s2 "[]" "slabs c" l4 "block_at (cm_self c) l1 @ h"] z(1) lim
    by (simp add: s2_def s3_def b4_def)
  moreover have "freei (cm_self c) s3 = Inr s4"
    using freei_if_block [of s3 "[]" "cm_self c" l1 h] lim self
    by (simp add: s3_def s4_def freei_if_def)
  ultimately show ?thesis
    using cm by (simp add: deinit_cache_manager_def s4_def slab_start_def)
qed

subsection \<open>The fresh state\<close>

lemma sizeof_slab_ctl_eq: "sizeof_slab_ctl = 6592"
  by (simp add: sizeof_slab_ctl_def WORD_COUNT_eq)

lemma slabctl_count_bound:
  assumes "0 < limit" and "limit \<le> 4096"
  defines "n \<equiv> slabctl_count_for (limit * 1024 * 1024) 1952"
  shows "n * (SLAB_SIZE + sizeof_slab_ctl) + 1968 \<le> limit * 1024 * 1024" and "n < 4096"
proof -
  have l: "1048576 \<le> limit * 1024 * 1024" "limit * 1024 * 1024 \<le> 4096 * 1024 * 1024" using assms by auto
  define q where "q = (limit * 1024 * 1024 - 1968) div (SLAB_SIZE + sizeof_slab_ctl)"
  have "sub64 (sub64 (limit * 1024 * 1024) 1952) (2 * 8) = limit * 1024 * 1024 - 1968"
    using l by (simp add: sub64_id)
  then have n: "n = u32 q" by (simp add: n_def q_def slabctl_count_for_def)
  have "q * (SLAB_SIZE + sizeof_slab_ctl) \<le> limit * 1024 * 1024 - 1968"
    unfolding q_def by (rule div_times_less_eq_dividend)
  then have qle: "q * (SLAB_SIZE + sizeof_slab_ctl) + 1968 \<le> limit * 1024 * 1024" using l by linarith
  have q: "q < 4096"
  proof (rule ccontr)
    assume "\<not> q < 4096"
    then have "4096 * (SLAB_SIZE + sizeof_slab_ctl) \<le> q * (SLAB_SIZE + sizeof_slab_ctl)"
      by (intro mult_le_mono1) simp
    with qle l(2) show False by (simp add: SLAB_SIZE_def sizeof_slab_ctl_eq)
  qed
  then have "n = q" by (simp add: n)
  with q qle show "n < 4096" "n * (SLAB_SIZE + sizeof_slab_ctl) + 1968 \<le> limit * 1024 * 1024" by simp_all
qed

lemma init_slab_ctls_nth:
  "i < n \<Longrightarrow> nused (init_slab_ctls n ! i) = 0 \<and> nindex (init_slab_ctls n ! i) = i \<and>
    slots (init_slab_ctls n ! i) = full_bitset \<and> ctl_cache (init_slab_ctls n ! i) = None \<and>
    nxt (init_slab_ctls n ! i) = (if i = n - 1 then None else Some (i + 1)) \<and>
    prv (init_slab_ctls n ! i) = (if i = 0 then None else Some (i - 1))"
  by (simp add: init_slab_ctls_def)

lemma init_slab_ctls_length [simp]: "length (init_slab_ctls n) = n"
  by (simp add: init_slab_ctls_def)

lemma init_links: "k + m \<le> n \<Longrightarrow> links (init_slab_ctls n) [k..<k + m]"
proof (induction m)
  case (Suc m)
  have "[k..<k + Suc m] = [k..<k + m] @ [k + m]" by simp
  moreover have "m \<noteq> 0 \<Longrightarrow> last [k..<k + m] = k + m - 1" by simp
  ultimately show ?case
    using Suc init_slab_ctls_nth [of "k + m - 1" n] init_slab_ctls_nth [of "k + m" n]
    by (cases "m = 0") (auto simp: links_append)
qed simp

lemma init_dll: "0 < n \<Longrightarrow> dll (init_slab_ctls n) \<lparr>lhead = Some 0, ltail = Some (n - 1)\<rparr> [0..<n]"
  using init_links [of 0 n n] init_slab_ctls_nth [of "n - 1" n] by (simp add: dll_def atLeast0LessThan)

definition fresh_cm :: "cache_manager_t \<Rightarrow> nat \<Rightarrow> bool" where
  "fresh_cm c n \<longleftrightarrow> caches c = init_caches SLAB_SIZE_FACTOR \<and> cache_count c = 47 \<and>
     slab_ctls c = init_slab_ctls n \<and> slabctl_count c = n \<and>
     slabs_free c = \<lparr>lhead = Some 0, ltail = Some (n - 1)\<rparr> \<and> caches_ptr c \<noteq> 0 \<and> 0 < slabs c \<and>
     slabs c + n * SLAB_SIZE < 2 ^ 64"

lemma fresh_cm_ok:
  assumes fr: "fresh_cm c n" and n: "0 < n" "n < 4096"
  shows "cm_ok c (\<lambda>p. if p = Free then [0..<n] else []) (\<lambda>_. Free)" and "chunks c = {}" and "used_bytes c = 0"
proof -
  have cl: "length (caches c) = 47" using fr by (simp add: fresh_cm_def init_caches_125 sizes_125_def)
  have empty: "slabs_full (caches c ! k) = empty_list \<and> slabs_partial (caches c ! k) = empty_list"
    if "k < length (caches c)" for k
    using that fr by (simp add: fresh_cm_def init_caches_125 cache_of_size_def)
  have "n * SLAB_SIZE < 2 ^ 32" using n by (simp add: SLAB_SIZE_def)
  then have "frame_ok c"
    using fr classes_ok_125 cl init_slab_ctls_nth by (simp add: frame_ok_def fresh_cm_def)
  moreover have "lists_ok c (\<lambda>p. if p = Free then [0..<n] else []) (\<lambda>_. Free)"
    using fr n empty init_dll [OF n(1)] by (auto simp: lists_ok_def fresh_cm_def places_def)
  moreover have "slots_ok 0 (init_slab_ctls n ! i)" if "i < n" for i
    using init_slab_ctls_nth [OF that] by (simp add: slots_ok_0 bits_of_full_bitset)
  ultimately show "cm_ok c (\<lambda>p. if p = Free then [0..<n] else []) (\<lambda>_. Free)"
    using fr init_slab_ctls_nth by (simp add: cm_ok_def fresh_cm_def)
  show "chunks c = {}" "used_bytes c = 0"
    using fr init_slab_ctls_nth by (auto simp: chunks_def used_bytes_def fresh_cm_def ccount_def taken_def)
qed

subsection \<open>The run of init_cache_manager\<close>

lemma init_err_ok:
  assumes "cm s = Some c" and "cm_self c \<noteq> 0"
    and "sysheap s = block_at (slabs c) l4 @ block_at (slab_ctls_ptr c) l3 @
      block_at (caches_ptr c) l2 @ block_at (cm_self c) l1 @ h"
    and "caches_ptr c - 8 \<notin> fst ` set (block_at (slabs c) l4 @ block_at (slab_ctls_ptr c) l3)"
      "slab_ctls_ptr c - 8 \<notin> fst ` set (block_at (slabs c) l4)"
    and "slabs c = 0 \<longrightarrow> l4 = 0" "slab_ctls_ptr c = 0 \<longrightarrow> l3 = 0" "caches_ptr c = 0 \<longrightarrow> l2 = 0"
    and "sl_mem_mallocd (slab_stats s) = l1 + l2 + l3 + l4" and "l1 + l2 + l3 + l4 < 2 ^ 64"
  shows "init_err s = Inr (False, slab_start h)"
  by (simp add: init_err_def deinit_ok [OF assms])

lemma block_free_Cons [simp]:
  "block_free ((b, l, x) # h) a n \<longleftrightarrow> (a + n \<le> b \<or> b + l \<le> a) \<and> block_free h a n"
  by (simp add: block_free_def)

definition init_done :: "nat \<Rightarrow> nat \<Rightarrow> sysheap \<Rightarrow> slab_state \<Rightarrow> bool" where
  "init_done limit n h s \<longleftrightarrow> (\<exists>c sp tp cp p. cm s = Some c \<and> fresh_cm c n \<and> slabs c = sp + 8 \<and>
     sl_mem_used (slab_stats s) = 0 \<and> sl_mem_mallocd (slab_stats s) = n * (SLAB_SIZE + 6592) + 1968 \<and>
     sl_mem_limit (slab_stats s) = limit * 1024 * 1024 \<and>
     sysheap s = (sp, n * SLAB_SIZE + 8, n * SLAB_SIZE + 8) # (tp, 6592 * n + 8, 6592 * n + 8) #
       (cp, 1888, 1888) # (p, 64, 64) # h \<and>
     cm_self c = p + 8 \<and> caches_ptr c = cp + 8 \<and> slab_ctls_ptr c = tp + 8 \<and>
     distinct [sp, tp, cp, p])"

lemma init_cases:
  fixes limit h
  defines "n \<equiv> slabctl_count_for (limit * 1024 * 1024) 1952"
  assumes mf: "malloc_ok mf" and lim: "0 < limit" "limit \<le> 4096"
  shows "(\<exists>s'. init_cache_manager mf limit SLAB_SIZE_FACTOR (slab_start h) = Inr (True, s') \<and> 1 < n \<and>
      init_done limit n h s') \<or>
    (\<exists>s'. init_cache_manager mf limit SLAB_SIZE_FACTOR (slab_start h) = Inr (False, s') \<and>
      s' \<in> {slab_start h, (slab_start h)\<lparr>slab_stats := (slab_stats (slab_start h))
        \<lparr>sl_mem_limit := limit * 1024 * 1024\<rparr>\<rparr>})"
proof -
  define L where "L = limit * 1024 * 1024"
  let ?st = "\<lambda>cmv m md cc sc hp. \<lparr>cm = cmv, slab_stats = \<lparr>sl_mem_used = 0, sl_mem_mallocd = m, sl_mem_limit = L,
     sl_mem_used_metadata = md, sl_cache_count = cc, sl_slab_count = sc\<rparr>, sysheap = hp\<rparr>"
  let ?run = "init_cache_manager mf limit SLAB_SIZE_FACTOR (slab_start h)"
  note nb = slabctl_count_bound [OF lim, folded n_def, unfolded sizeof_slab_ctl_eq]
  have L: "u64 L = L" "1048576 * limit = L" using lim by (simp_all add: L_def)
  have n: "slabctl_count_for L 1952 = n" by (simp add: n_def L_def)
  have n4: "u32 (SLAB_SIZE * n) = n * SLAB_SIZE" using nb(2) by (simp add: SLAB_SIZE_def)
  have nS: "n * SLAB_SIZE \<le> 2 ^ 32" "n * (SLAB_SIZE + 6592) \<le> 2 ^ 33" using nb(2) by (simp_all add: SLAB_SIZE_def)
  note defs = init_cache_manager_def slab_start_def Let_def L sizeof_cache_manager_def sizeof_cache_def
    cache_count_125 n sizeof_slab_ctl_eq n4
  consider (f1) "malloci mf 56 (?st None 0 0 0 0 h) = (None, ?st None 0 0 0 0 h)"
    | (o1) p where "malloci mf 56 (?st None 0 0 0 0 h) = (Some (p + 8), ?st None 64 0 0 0 ((p, 64, 64) # h))"
      and "0 < p" by (rule malloci_cases [OF mf, of 56 "?st None 0 0 0 0 h"]) (simp_all)
  then show ?thesis
  proof cases
    case f1
    then show ?thesis by (simp add: defs init_err_def deinit_cache_manager_def)
  next
    case o1
    let ?c1 = "\<lparr>cm_self = p + 8, caches_ptr = 0, caches = [], cache_count = 47,
                  slab_ctls_ptr = 0, slab_ctls = [], slabctl_count = 0,
                  slabs_free = empty_list, slabs = 0\<rparr>"
    let ?h1 = "(p, 64, 64) # h"
    consider (f2) "malloci mf 1880 (?st (Some ?c1) 64 0 47 0 ?h1) = (None, ?st (Some ?c1) 64 0 47 0 ?h1)"
      | (o2) cp where "malloci mf 1880 (?st (Some ?c1) 64 0 47 0 ?h1) =
          (Some (cp + 8), ?st (Some ?c1) 1952 0 47 0 ((cp, 1888, 1888) # ?h1))" and "0 < cp" "cp \<noteq> p"
      by (rule malloci_cases [OF mf, of 1880 "?st (Some ?c1) 64 0 47 0 ?h1"]) (auto)
    then show ?thesis
    proof cases
      case f2
      have "init_err (?st (Some ?c1) 64 0 47 0 ?h1) = Inr (False, slab_start h)"
        by (rule init_err_ok [where c = ?c1 and ?l1.0 = 64 and ?l2.0 = 0 and ?l3.0 = 0 and ?l4.0 = 0])
          (simp_all add: block_at_def)
      then show ?thesis using f2 o1 by (simp add: defs)
    next
      case o2
      let ?c2 = "?c1\<lparr>caches_ptr := cp + 8, caches := init_caches SLAB_SIZE_FACTOR, slabctl_count := n\<rparr>"
      let ?h2 = "(cp, 1888, 1888) # ?h1"
      show ?thesis
      proof (cases "n \<le> 1")
        case True
        have "init_err (?st (Some ?c2) 1952 0 47 0 ?h2) = Inr (False, slab_start h)"
          by (rule init_err_ok [where c = ?c2 and ?l1.0 = 64 and ?l2.0 = 1888 and ?l3.0 = 0 and ?l4.0 = 0])
            (simp_all add: block_at_def)
        then show ?thesis using o1 o2 True by (simp add: defs)
      next
        case False
        consider (f3) "malloci mf (6592 * n) (?st (Some ?c2) 1952 0 47 n ?h2) = (None, ?st (Some ?c2) 1952 0 47 n ?h2)"
          | (o3) tp where "malloci mf (6592 * n) (?st (Some ?c2) 1952 0 47 n ?h2) =
              (Some (tp + 8), ?st (Some ?c2) (6592 * n + 1960) 0 47 n ((tp, 6592 * n + 8, 6592 * n + 8) # ?h2))"
            and "0 < tp" "tp \<noteq> p" "tp \<noteq> cp"
          by (rule malloci_cases [OF mf, of "6592 * n" "?st (Some ?c2) 1952 0 47 n ?h2"])
            (use nb(2) in \<open>auto\<close>)
        then show ?thesis
        proof cases
          case f3
          have "init_err (?st (Some ?c2) 1952 0 47 n ?h2) = Inr (False, slab_start h)"
            by (rule init_err_ok [where c = ?c2 and ?l1.0 = 64 and ?l2.0 = 1888 and ?l3.0 = 0 and ?l4.0 = 0])
              (simp_all add: block_at_def)
          then show ?thesis using o1 o2 False f3 by (simp add: defs)
        next
          case o3
          let ?c3 = "?c2\<lparr>slab_ctls_ptr := tp + 8\<rparr>"
          let ?h3 = "(tp, 6592 * n + 8, 6592 * n + 8) # ?h2"
          let ?s3 = "?st (Some ?c3) (6592 * n + 1960) (6592 * n + 1960) 47 n ?h3"
          let ?s4 = "\<lambda>sp. ?st (Some ?c3) (n * (SLAB_SIZE + 6592) + 1968) (6592 * n + 1960) 47 n
            ((sp, n * SLAB_SIZE + 8, n * SLAB_SIZE + 8) # ?h3)"
          consider (f4) "malloci mf (n * SLAB_SIZE) ?s3 = (None, ?s3)"
            | (o4) sp where "malloci mf (n * SLAB_SIZE) ?s3 = (Some (sp + 8), ?s4 sp)"
              and "0 < sp" "sp \<noteq> p" "sp \<noteq> cp" "sp \<noteq> tp" "sp + 8 + n * SLAB_SIZE < 2 ^ 64"
            by (rule malloci_cases [OF mf, of "n * SLAB_SIZE" ?s3])
              (use nS in \<open>auto simp: algebra_simps\<close>)
          then show ?thesis
          proof cases
            case f4
            have "init_err ?s3 = Inr (False, slab_start h)"
              by (rule init_err_ok [where c = ?c3 and ?l1.0 = 64 and ?l2.0 = 1888 and ?l3.0 = "6592 * n + 8" and ?l4.0 = 0])
                (use o3 nb(2) in \<open>simp_all add: block_at_def\<close>)
            then show ?thesis using o1 o2 False o3 f4 by (simp add: defs)
          next
            case o4
            let ?c4 = "?c3\<lparr>slabs := sp + 8, slabs_free := \<lparr>lhead = Some 0, ltail = Some (n - 1)\<rparr>,
                   slab_ctls := init_slab_ctls n\<rparr>"
            let ?s5 = "(?s4 sp)\<lparr>cm := Some ?c4\<rparr>"
            have "?run = Inr (True, ?s5)"
              using o1 o2 False o3 o4 nb(1) L by (simp add: defs)
            moreover have "init_done limit n h ?s5"
              using o1 o2 o3 o4 L by (simp add: init_done_def fresh_cm_def)
            ultimately show ?thesis using False by fastforce
          qed
        qed
      qed
    qed
  qed
qed

end
