(* ===== verification/Slab_Correct.thy ===== *)
theory Slab_Correct
  imports Slab_Init
begin

text \<open>
  What the slab allocator promises its callers: chunks in use never overlap, the accounting
  is exact, no sequence of calls that only frees what it was given can trip an assert, and
  tearing the manager down returns every block to the C library.
\<close>

subsection \<open>Chunks do not overlap\<close>

lemma chunk_in_slab:
  assumes ok: "cm_ok c own loc" and x: "(i, b) \<in> chunks c"
  shows "slabs c + i * SLAB_SIZE \<le> chunk_addr c (i, b)"
    and "chunk_addr c (i, b) + csize c i \<le> slabs c + Suc i * SLAB_SIZE"
  using chunk_bounds [OF ok x] by (simp_all add: chunk_addr_def)

lemma chunks_apart:
  assumes ok: "cm_ok c own loc" and x: "(i, b) \<in> chunks c" and y: "(j, d) \<in> chunks c"
    and lt: "i < j \<or> i = j \<and> b < d"
  shows "chunk_addr c (i, b) + csize c i \<le> chunk_addr c (j, d)"
proof (cases "i = j")
  case False
  then have "Suc i * SLAB_SIZE \<le> j * SLAB_SIZE" using lt by (intro mult_le_mono1) simp
  with chunk_in_slab(2) [OF ok x] chunk_in_slab(1) [OF ok y] show ?thesis by linarith
next
  case True
  then have "csize c i * Suc b \<le> csize c i * d" using lt by (intro mult_le_mono2) simp
  with True show ?thesis by (simp add: chunk_addr_def)
qed

lemma chunk_addr_inj:
  assumes ok: "cm_ok c own loc" and x: "x \<in> chunks c" and y: "y \<in> chunks c"
    and eq: "chunk_addr c x = chunk_addr c y"
  shows "x = y"
proof -
  obtain i b j d where xy: "x = (i, b)" "y = (j, d)" by (cases x; cases y)
  have "0 < csize c i" "0 < csize c j" using chunk_bounds(3) [OF ok] x y xy by auto
  moreover have "\<not> (i < j \<or> i = j \<and> b < d)"
    using chunks_apart [OF ok, of i b j d] x y xy eq calculation by auto
  moreover have "\<not> (j < i \<or> j = i \<and> d < b)"
    using chunks_apart [OF ok, of j d i b] x y xy eq calculation by auto
  ultimately show ?thesis using xy by (metis linorder_neqE_nat)
qed

lemma finite_taken [simp]: "finite (taken n d)"
  by (simp add: taken_def)

lemma used_bytes_chunks:
  assumes ok: "cm_ok c own loc"
  shows "used_bytes c = (\<Sum>x \<in> chunks c. csize c (fst x))"
proof -
  have "chunks c = (SIGMA i:{..<length (slab_ctls c)}. taken (ccount c i) (slab_ctls c ! i))"
    by (auto simp: chunks_def)
  then have "(\<Sum>x \<in> chunks c. csize c (fst x))
      = (\<Sum>(i, b) \<in> (SIGMA i:{..<length (slab_ctls c)}. taken (ccount c i) (slab_ctls c ! i)). csize c i)"
    by (simp add: case_prod_unfold)
  also have "\<dots> = (\<Sum>i < length (slab_ctls c). \<Sum>b \<in> taken (ccount c i) (slab_ctls c ! i). csize c i)"
    by (rule sum.Sigma [symmetric]) auto
  also have "\<dots> = used_bytes c"
    using slots_ok_view(1) [OF ok] by (simp add: used_bytes_def slots_ok_def)
  finally show ?thesis by simp
qed

subsection \<open>A state to evaluate at\<close>

definition sample_cm :: cache_manager_t where
  "sample_cm = \<lparr>cm_self = 24, caches_ptr = 88, caches = init_caches SLAB_SIZE_FACTOR, cache_count = 47,
     slab_ctls_ptr = 4096, slab_ctls = init_slab_ctls 63, slabctl_count = 63,
     slabs_free = \<lparr>lhead = Some 0, ltail = Some 62\<rparr>, slabs = 1048584\<rparr>"

definition sample_state :: slab_state where
  "sample_state = \<lparr>cm = Some sample_cm, slab_stats = \<lparr>sl_mem_used = 0, sl_mem_mallocd = 67108864,
     sl_mem_limit = 67108864, sl_mem_used_metadata = 0, sl_cache_count = 47, sl_slab_count = 63\<rparr>, sysheap = []\<rparr>"

lemma sample_fresh: "fresh_cm sample_cm 63"
  by (simp add: fresh_cm_def sample_cm_def SLAB_SIZE_def)

lemma sample_ok: "slab_ok sample_state" and sample_cm [simp]: "cm sample_state = Some sample_cm"
proof -
  show c: "cm sample_state = Some sample_cm" by (simp add: sample_state_def)
  show "slab_ok sample_state"
    unfolding slab_ok_def
    by (rule exI [of _ sample_cm], rule exI, rule exI, intro conjI, rule c, rule fresh_cm_ok(1) [OF sample_fresh])
      (use fresh_cm_ok(3) [OF sample_fresh] in \<open>simp_all add: sample_state_def SLAB_SIZE_def, simp add: sample_cm_def\<close>)
qed

lemma slab_okE:
  assumes "slab_ok s" and "cm s = Some c"
  obtains own loc where "cm_ok c own loc" and "sl_mem_used (slab_stats s) = used_bytes c"
    and "length (slab_ctls c) * SLAB_SIZE \<le> sl_mem_mallocd (slab_stats s)"
  using assms by (auto simp: slab_ok_def)

lemma sample_room: "has_room sample_cm k"
  using init_slab_ctls_nth [of 0 63] by (auto simp: has_room_def sample_cm_def intro!: exI [of _ 0])

lemma sample_last: "chunk_size (last (caches sample_cm)) = 963984"
  by (simp add: sample_cm_def init_caches_125 sizes_125_def cache_of_size_def)

subsection \<open>Clients\<close>

text \<open>
  The states a client that frees only what it was given can drive the allocator to, with the
  addresses it holds.
\<close>

inductive slab_client :: "malloc_fun \<Rightarrow> nat \<Rightarrow> sysheap \<Rightarrow> slab_state \<Rightarrow> nat set \<Rightarrow> bool"
  for mf limit h where
  start: "init_cache_manager mf limit SLAB_SIZE_FACTOR (slab_start h) = Inr (True, s) \<Longrightarrow>
    slab_client mf limit h s {}"
| alloc: "slab_client mf limit h s L \<Longrightarrow> scmalloc n s = Inr (Some a, s') \<Longrightarrow>
    slab_client mf limit h s' (insert a L)"
| nomem: "slab_client mf limit h s L \<Longrightarrow> scmalloc n s = Inr (None, s') \<Longrightarrow> slab_client mf limit h s' L"
| release: "slab_client mf limit h s L \<Longrightarrow> a \<in> L \<Longrightarrow> scfree a s = Inr s' \<Longrightarrow>
    slab_client mf limit h s' (L - {a})"

text \<open>The blocks \<open>init_cache_manager\<close> took are still there and nothing else is.\<close>

definition area_ok :: "nat \<Rightarrow> sysheap \<Rightarrow> slab_state \<Rightarrow> bool" where
  "area_ok n h s \<longleftrightarrow> (\<exists>c sp tp cp p. cm s = Some c \<and> slabs c = sp + 8 \<and>
     length (slab_ctls c) = n \<and> caches_ptr c = cp + 8 \<and> slab_ctls_ptr c = tp + 8 \<and> cm_self c = p + 8 \<and>
     same_classes (init_caches SLAB_SIZE_FACTOR) (caches c) \<and>
     sl_mem_mallocd (slab_stats s) = n * (SLAB_SIZE + 6592) + 1968 \<and>
     sysheap s = (sp, n * SLAB_SIZE + 8, n * SLAB_SIZE + 8) # (tp, 6592 * n + 8, 6592 * n + 8) #
       (cp, 1888, 1888) # (p, 64, 64) # h \<and> distinct [sp, tp, cp, p])"

lemma area_step:
  assumes a: "area_ok n h s" and cm: "cm s = Some c" and lay: "same_layout c c'" and cm': "cm s' = Some c'"
    and h: "sysheap s' = sysheap s" and m: "sl_mem_mallocd (slab_stats s') = sl_mem_mallocd (slab_stats s)"
  shows "area_ok n h s'"
proof -
  have "same_classes (caches c) (caches c')" and lay': "slabs c' = slabs c \<and> caches_ptr c' = caches_ptr c \<and>
      cm_self c' = cm_self c \<and> slab_ctls_ptr c' = slab_ctls_ptr c \<and> length (slab_ctls c') = length (slab_ctls c)"
    using lay by (simp_all only: same_layout_def)
  with a cm have "same_classes (init_caches SLAB_SIZE_FACTOR) (caches c')"
    by (auto simp: area_ok_def intro: same_classes_trans)
  with a cm cm' h m lay' show ?thesis unfolding area_ok_def by auto
qed

lemma init_done_ok:
  assumes d: "init_done limit n h s" and n: "1 < n" "n < 4096"
  shows "slab_ok s" and "area_ok n h s" and "live_addrs (the (cm s)) = {}"
proof -
  obtain c where c: "cm s = Some c" "fresh_cm c n" and st: "sl_mem_used (slab_stats s) = 0"
    "sl_mem_mallocd (slab_stats s) = n * (SLAB_SIZE + 6592) + 1968"
    using d by (auto simp: init_done_def)
  have n0: "0 < n" using n by simp
  note fr = fresh_cm_ok [OF c(2) n0 n(2)]
  have len: "length (slab_ctls c) = n" using c(2) by (simp add: fresh_cm_def)
  have "n * SLAB_SIZE \<le> sl_mem_mallocd (slab_stats s)" "sl_mem_mallocd (slab_stats s) < 2 ^ 64"
    using n st(2) by (simp_all add: SLAB_SIZE_def)
  with c fr st len show "slab_ok s" unfolding slab_ok_def by fastforce
  show "live_addrs (the (cm s)) = {}" using c fr by (simp add: live_addrs_def)
  show "area_ok n h s" using d unfolding init_done_def area_ok_def by (fastforce simp: fresh_cm_def)
qed

lemma live_addrs_alloc: "alloc_step c x c' \<Longrightarrow> live_addrs c' = insert (chunk_addr c' x) (live_addrs c)"
  by (auto simp: alloc_step_def live_addrs_def image_iff)

lemma live_addrs_free:
  assumes ok: "cm_ok c own loc" and x: "x \<in> chunks c" and f: "free_step c x c'"
  shows "live_addrs c' = live_addrs c - {chunk_addr c x}"
proof -
  have inj: "inj_on (chunk_addr c) (chunks c)" using chunk_addr_inj [OF ok] by (auto intro: inj_onI)
  have "live_addrs c' = chunk_addr c ` (chunks c - {x})"
    using f by (auto simp: free_step_def live_addrs_def image_iff)
  also have "\<dots> = chunk_addr c ` chunks c - chunk_addr c ` {x}"
    using inj x by (intro inj_on_image_set_diff) auto
  finally show ?thesis by (simp add: live_addrs_def)
qed

text \<open>The three outcomes of \<open>scmalloc\<close>.\<close>

lemma scmalloc_cases:
  assumes st: "slab_ok s" and cm: "cm s = Some c"
  obtains (big) "chunk_size (last (caches c)) < n" "scmalloc n s = Inr (None, s)"
  | (full) k where "k < length (caches c)" "n \<le> chunk_size (caches c ! k)"
      "\<And>j. j < k \<Longrightarrow> chunk_size (caches c ! j) < n" "\<not> has_room c k" "scmalloc n s = Inr (None, s)"
  | (served) k i b c' s' where "k < length (caches c)" "n \<le> chunk_size (caches c ! k)"
      "\<And>j. j < k \<Longrightarrow> chunk_size (caches c ! j) < n" "has_room c k"
      "scmalloc n s = Inr (Some (chunk_addr c' (i, b)), s')" "cm s' = Some c'" "slab_ok s'"
      "alloc_step c (i, b) c'" "csize c' i = chunk_size (caches c ! k)" "sysheap s' = sysheap s"
      "slab_stats s' = (slab_stats s)\<lparr>sl_mem_used := sl_mem_used (slab_stats s) + chunk_size (caches c ! k)\<rparr>"
proof -
  obtain own loc where ok: "cm_ok c own loc" using st cm by (rule slab_okE)
  show thesis
  proof (cases "chunk_size (last (caches c)) < n")
    case True
    with scmalloc_too_big [OF cm ok] big show thesis by blast
  next
    case False
    then have "n \<le> chunk_size (last (caches c))" by simp
    from scmalloc_class [OF cm ok this] obtain k where k: "k < length (caches c)" "n \<le> chunk_size (caches c ! k)"
      "\<And>j. j < k \<Longrightarrow> chunk_size (caches c ! j) < n"
      and m: "size_to_cache (Some (caches c)) (cache_count c) (u32 n) = Some k"
        "\<not> chunk_size (caches c ! (cache_count c - 1)) < n" "caches_ptr c \<noteq> 0" by blast
    show thesis
    proof (cases "has_room c k")
      case True
      with scmalloc_served [OF cm ok st k(1) m] k served show thesis by blast
    next
      case False
      with scmalloc_full [OF cm ok k(1) m] k full show thesis by blast
    qed
  qed
qed

lemma slab_client_inv:
  assumes cl: "slab_client mf limit h s L" and mf: "malloc_ok mf" and lim: "0 < limit" "limit \<le> 4096"
  shows "slab_ok s \<and> area_ok (slabctl_count_for (limit * 1024 * 1024) 1952) h s \<and> L = live_addrs (the (cm s))"
  using cl
proof (induction rule: slab_client.induct)
  case (start s)
  from init_cases [OF mf lim, of h] start
  have "1 < slabctl_count_for (limit * 1024 * 1024) 1952"
    "init_done limit (slabctl_count_for (limit * 1024 * 1024) 1952) h s" by auto
  with init_done_ok slabctl_count_bound(2) [OF lim] show ?case by blast
next
  case (alloc s L n a s')
  then obtain c where c: "cm s = Some c" by (auto simp: slab_ok_def)
  from alloc.IH have st: "slab_ok s" by blast
  show ?case using st c
  proof (cases rule: scmalloc_cases [where n = n])
    case (served k i b c' s'')
    then have "s'' = s'" "a = chunk_addr c' (i, b)" using alloc by auto
    with served alloc.IH c live_addrs_alloc [OF served(8)] area_step [OF _ c _ served(6)] show ?thesis
      by (auto simp: alloc_step_def)
  qed (use alloc in auto)
next
  case (nomem s L n s')
  then obtain c where c: "cm s = Some c" by (auto simp: slab_ok_def)
  from nomem.IH have st: "slab_ok s" by blast
  show ?case using st c by (cases rule: scmalloc_cases [where n = n]) (use nomem in auto)
next
  case (release s L a s')
  then obtain c where c: "cm s = Some c" by (auto simp: slab_ok_def)
  from release.IH have st: "slab_ok s" by blast
  obtain own loc where ok: "cm_ok c own loc" using st c by (rule slab_okE)
  from release c obtain i b where x: "(i, b) \<in> chunks c" "a = chunk_addr c (i, b)"
    by (auto simp: live_addrs_def)
  from scfree_live [OF c ok st x(1)] release x obtain c' where s': "cm s' = Some c'" "slab_ok s'"
    "free_step c (i, b) c'" "sysheap s' = sysheap s"
    "slab_stats s' = (slab_stats s)\<lparr>sl_mem_used := sl_mem_used (slab_stats s) - csize c i\<rparr>" by auto
  have "same_layout c c'" using s'(3) by (simp add: free_step_def)
  with s' release.IH c x live_addrs_free [OF ok x(1) s'(3)] area_step [OF _ c _ s'(1)] show ?case by auto
qed

lemma deinit_area:
  assumes a: "area_ok n h s" and n: "n < 4096"
  shows "deinit_cache_manager s = Inr (slab_start h)"
proof -
  obtain c sp tp cp p where c: "cm s = Some c" "slabs c = sp + 8" "caches_ptr c = cp + 8"
      "slab_ctls_ptr c = tp + 8" "cm_self c = p + 8"
    and m: "sl_mem_mallocd (slab_stats s) = n * (SLAB_SIZE + 6592) + 1968"
    and h: "sysheap s = (sp, n * SLAB_SIZE + 8, n * SLAB_SIZE + 8) # (tp, 6592 * n + 8, 6592 * n + 8) #
       (cp, 1888, 1888) # (p, 64, 64) # h" "distinct [sp, tp, cp, p]"
    using a by (auto simp: area_ok_def)
  have sum: "64 + 1888 + (6592 * n + 8) + (n * SLAB_SIZE + 8) = n * (SLAB_SIZE + 6592) + 1968"
    by (simp add: algebra_simps)
  have "n * (SLAB_SIZE + 6592) + 1968 < 2 ^ 64" using n by (simp add: SLAB_SIZE_def)
  then show ?thesis
    using deinit_ok [OF c(1), of "n * SLAB_SIZE + 8" "6592 * n + 8" 1888 64 h] c h m unfolding sum
    by (simp add: block_at_def)
qed

subsection \<open>A heap to evaluate at\<close>

text \<open>A C library that puts every block above all others.\<close>

definition bump_malloc :: malloc_fun where
  "bump_malloc h n =
     (let a = 16 + (\<Sum>(b, l, x) \<leftarrow> h. b + l) in if a + n < 2 ^ 64 then Some a else None)"

lemma bump_malloc_ok: "malloc_ok bump_malloc"
proof -
  have "b + l \<le> (\<Sum>(b, l, x) \<leftarrow> h. b + l)" if "(b, l, x) \<in> set h" for b l x and h :: sysheap
    using that by (induction h) auto
  then have "block_free h (16 + (\<Sum>(b, l, x) \<leftarrow> h. b + l)) m" for h m
    by (fastforce simp: block_free_def list_all_iff)
  then show ?thesis by (auto simp: malloc_ok_def bump_malloc_def Let_def split: if_splits)
qed

lemma bump_init: "\<exists>s. init_cache_manager bump_malloc 64 SLAB_SIZE_FACTOR (slab_start []) = Inr (True, s)"
proof -
  have "slabctl_count_for 67108864 1952 = 63"
    by (simp add: slabctl_count_for_def sub64_id SLAB_SIZE_def sizeof_slab_ctl_eq)
  then show ?thesis
    by (simp add: init_cache_manager_def slab_start_def malloci_def bump_malloc_def Let_def
        sizeof_cache_manager_def sizeof_cache_def cache_count_125 sizeof_slab_ctl_eq SLAB_SIZE_def)
qed

lemma empty_slab_room:
  assumes ok: "cm_ok c own loc" and i: "i < length (slab_ctls c)" and no: "\<And>b. (i, b) \<notin> chunks c"
  shows "has_room c k"
proof -
  have "taken (ccount c i) (slab_ctls c ! i) = {}" using i no by (auto simp: chunks_def)
  then have "nused (slab_ctls c ! i) = 0" using slots_ok_view(1) [OF ok i] by (simp add: slots_ok_def)
  then show ?thesis using i by (auto simp: has_room_def)
qed

lemma sample_step:
  assumes st: "slab_ok s" and cm: "cm s = Some c" and one: "chunks c \<subseteq> {x}"
    and len: "1 < length (slab_ctls c)" and n: "n \<le> chunk_size (last (caches c))"
  shows "\<exists>y c' s'. scmalloc n s = Inr (Some (chunk_addr c' y), s') \<and> cm s' = Some c' \<and> slab_ok s' \<and>
    alloc_step c y c'"
proof -
  obtain own loc where ok: "cm_ok c own loc" using st cm by (rule slab_okE)
  have room: "has_room c k" for k
  proof (cases "fst x = 0")
    case True
    with one len show ?thesis by (intro empty_slab_room [OF ok, of 1]) auto
  next
    case False
    with one len show ?thesis by (intro empty_slab_room [OF ok, of 0]) auto
  qed
  show ?thesis using st cm
    by (cases rule: scmalloc_cases [where n = n]) (use n room in \<open>auto\<close>)
qed

lemma sample_alloc:
  obtains s x c where "slab_ok s" and "cm s = Some c" and "chunks c = {x}" and "same_layout sample_cm c"
    and "scmalloc 100 sample_state = Inr (Some (chunk_addr c x), s)"
proof -
  have e: "chunks sample_cm = {}" using fresh_cm_ok(2) [OF sample_fresh] by simp
  then have "\<exists>y c' s'. scmalloc 100 sample_state = Inr (Some (chunk_addr c' y), s') \<and> cm s' = Some c' \<and>
      slab_ok s' \<and> alloc_step sample_cm y c'"
    by (intro sample_step [OF sample_ok sample_cm, of "(0, 0)"]) (simp_all add: sample_last, simp add: sample_cm_def)
  with e that show thesis by (auto simp: alloc_step_def)
qed

lemma sample_alloc2:
  obtains s x y c where "slab_ok s" and "cm s = Some c" and "x \<in> chunks c" and "y \<in> chunks c" and "x \<noteq> y"
proof -
  obtain s x c where a: "slab_ok s" "cm s = Some c" "chunks c = {x}" "same_layout sample_cm c"
    by (rule sample_alloc)
  have "length (slab_ctls c) = 63" using a(4) by (simp add: same_layout_def) (simp add: sample_cm_def)
  then have "\<exists>y c' s'. scmalloc 0 s = Inr (Some (chunk_addr c' y), s') \<and> cm s' = Some c' \<and>
      slab_ok s' \<and> alloc_step c y c'"
    by (intro sample_step [OF a(1,2), of x]) (simp_all add: a)
  then obtain y c' s' where "cm s' = Some c'" "slab_ok s'" "alloc_step c y c'" by blast
  with a that [of s' c' x y] show thesis by (auto simp: alloc_step_def)
qed

subsection \<open>Properties\<close>

text \<open>
  C11: from every well-formed state \<open>scmalloc\<close> trips no assert. It returns NULL, changing
  nothing, only when the request exceeds the largest chunk or no slab can serve its class;
  otherwise it returns the address of one chunk of the smallest class that fits, which was
  not in use, and keeps every other chunk, its address and the invariant.
\<close>

theorem scmalloc_correct:
  assumes "slab_ok s" and "cm s = Some c"
  shows "\<exists>r s'. scmalloc n s = Inr (r, s') \<and> slab_ok s' \<and> sysheap s' = sysheap s \<and>
    (case r of
       None \<Rightarrow> s' = s \<and> (chunk_size (last (caches c)) < n \<or>
         (\<exists>k < length (caches c). n \<le> chunk_size (caches c ! k) \<and>
            (\<forall>j < k. chunk_size (caches c ! j) < n) \<and> \<not> has_room c k))
     | Some a \<Rightarrow> \<exists>k < length (caches c). n \<le> chunk_size (caches c ! k) \<and>
         (\<forall>j < k. chunk_size (caches c ! j) < n) \<and> has_room c k \<and>
         (\<exists>i b c'. cm s' = Some c' \<and> a = chunk_addr c' (i, b) \<and> csize c' i = chunk_size (caches c ! k) \<and>
            (i, b) \<notin> chunks c \<and> chunks c' = insert (i, b) (chunks c) \<and>
            (\<forall>y \<in> chunks c. chunk_addr c' y = chunk_addr c y) \<and>
            sl_mem_used (slab_stats s') = sl_mem_used (slab_stats s) + chunk_size (caches c ! k)))"
  using assms
proof (cases rule: scmalloc_cases [where n = n])
  case (full k)
  then show ?thesis using assms(1) by auto
next
  case (served k i b c' s')
  then have "\<exists>i b c''. cm s' = Some c'' \<and> chunk_addr c' (i, b) = chunk_addr c'' (i, b) \<and>
      csize c'' i = chunk_size (caches c ! k)" by blast
  with served show ?thesis
    by (intro exI [of _ "Some (chunk_addr c' (i, b))"] exI [of _ s'])
      (simp add: alloc_step_def, blast)
qed (use assms in auto)

theorem scmalloc_correct_witness:
  "slab_ok sample_state \<and> cm sample_state = Some sample_cm \<and>
   (\<exists>a s'. scmalloc 100 sample_state = Inr (Some a, s') \<and> slab_ok s' \<and>
      sl_mem_used (slab_stats s') = 120)"
proof -
  have t: "caches sample_cm = map cache_of_size sizes_125" by (simp add: sample_cm_def init_caches_125)
  then have v: "chunk_size (caches sample_cm ! 0) = 24" "chunk_size (caches sample_cm ! 1) = 32"
    "chunk_size (caches sample_cm ! 2) = 40" "chunk_size (caches sample_cm ! 3) = 56"
    "chunk_size (caches sample_cm ! 4) = 72" "chunk_size (caches sample_cm ! 5) = 96"
    "chunk_size (caches sample_cm ! 6) = 120"
    by (simp_all add: sizes_125_def cache_of_size_def)
  have six: "k = 6" if "100 \<le> chunk_size (caches sample_cm ! k)"
    "\<forall>j < k. chunk_size (caches sample_cm ! j) < 100" for k
  proof -
    have "\<not> 6 < k" using that(2) v(7) by fastforce
    moreover have "k \<noteq> 0" "k \<noteq> 1" "k \<noteq> 2" "k \<noteq> 3" "k \<noteq> 4" "k \<noteq> 5"
      by (rule notI, use that(1) v in simp)+
    ultimately show ?thesis by arith
  qed
  have u: "sl_mem_used (slab_stats sample_state) = 0" by (simp add: sample_state_def)
  from scmalloc_correct [OF sample_ok sample_cm, of 100] obtain r s' where
    r: "scmalloc 100 sample_state = Inr (r, s')" "slab_ok s'" and
    c: "case r of None \<Rightarrow> s' = sample_state \<and> (chunk_size (last (caches sample_cm)) < 100 \<or>
         (\<exists>k < length (caches sample_cm). 100 \<le> chunk_size (caches sample_cm ! k) \<and>
            (\<forall>j < k. chunk_size (caches sample_cm ! j) < 100) \<and> \<not> has_room sample_cm k))
     | Some a \<Rightarrow> \<exists>k < length (caches sample_cm). 100 \<le> chunk_size (caches sample_cm ! k) \<and>
         (\<forall>j < k. chunk_size (caches sample_cm ! j) < 100) \<and> has_room sample_cm k \<and>
         (\<exists>i b c'. cm s' = Some c' \<and> a = chunk_addr c' (i, b) \<and> csize c' i = chunk_size (caches sample_cm ! k) \<and>
            (i, b) \<notin> chunks sample_cm \<and> chunks c' = insert (i, b) (chunks sample_cm) \<and>
            (\<forall>y \<in> chunks sample_cm. chunk_addr c' y = chunk_addr sample_cm y) \<and>
            sl_mem_used (slab_stats s') = sl_mem_used (slab_stats sample_state) + chunk_size (caches sample_cm ! k))"
    by blast
  obtain a where a: "r = Some a" using c by (cases r) (simp_all add: sample_last sample_room)
  with c six v(7) u have "sl_mem_used (slab_stats s') = 120" by auto
  with r a show ?thesis using sample_ok by simp
qed

text \<open>
  C12: freeing a chunk in use trips no assert, takes exactly that chunk out of use, keeps the
  address of every other chunk, gives its bytes back to the accounting and keeps the
  invariant, whether the slab stays partial, stops being full or becomes empty.
\<close>

theorem scfree_correct:
  assumes "slab_ok s" and "cm s = Some c" and "x \<in> chunks c"
  shows "\<exists>c' s'. scfree (chunk_addr c x) s = Inr s' \<and> cm s' = Some c' \<and> slab_ok s' \<and>
    chunks c' = chunks c - {x} \<and> (\<forall>y \<in> chunks c. chunk_addr c' y = chunk_addr c y) \<and>
    sl_mem_used (slab_stats s') + csize c (fst x) = sl_mem_used (slab_stats s) \<and> sysheap s' = sysheap s"
proof -
  obtain own loc where ok: "cm_ok c own loc" using assms(1,2) by (rule slab_okE)
  obtain i b where x: "x = (i, b)" by (cases x)
  from scfree_live [OF assms(2) ok assms(1), of i b] assms(3) x show ?thesis by (auto simp: free_step_def)
qed

theorem scfree_correct_witness:
  "\<exists>s c x c' s'. slab_ok s \<and> cm s = Some c \<and> x \<in> chunks c \<and> scfree (chunk_addr c x) s = Inr s' \<and>
     cm s' = Some c' \<and> x \<notin> chunks c'"
proof -
  obtain s x c where a: "slab_ok s" "cm s = Some c" "chunks c = {x}" by (rule sample_alloc)
  then have x: "x \<in> chunks c" by simp
  from scfree_correct [OF a(1,2) x] a x show ?thesis by (metis Diff_iff insertI1)
qed

text \<open>C13: freeing the same chunk a second time stops at the double-free assert.\<close>

theorem double_free_caught:
  assumes "slab_ok s" and "cm s = Some c" and "x \<in> chunks c"
    and "scfree (chunk_addr c x) s = Inr s'"
  shows "scfree (chunk_addr c x) s' = Inl Assert_failed"
proof -
  obtain own loc where ok: "cm_ok c own loc" using assms(1,2) by (rule slab_okE)
  obtain i b where x: "x = (i, b)" by (cases x)
  from scfree_live [OF assms(2) ok assms(1), of i b] assms(3,4) x obtain c' where
    c': "cm s' = Some c'" "slab_ok s'" "free_step c (i, b) c'" by auto
  obtain own' loc' where ok': "cm_ok c' own' loc'" using c'(2,1) by (rule slab_okE)
  have f: "same_layout c c'" "(i, b) \<notin> chunks c'" "ccount c' i = ccount c i"
    and same: "chunk_addr c' (i, b) = chunk_addr c (i, b)"
    using c'(3) assms(3) x by (simp_all add: free_step_def)
  have "i < length (slab_ctls c')" "b < ccount c' i"
    using chunk_bounds [OF ok, of i b] assms(3) x f by (simp_all add: same_layout_def)
  from scfree_dead [OF c'(1) ok' this f(2)] show ?thesis by (simp add: same x)
qed

theorem double_free_caught_witness:
  "\<exists>s c x s'. slab_ok s \<and> cm s = Some c \<and> x \<in> chunks c \<and> scfree (chunk_addr c x) s = Inr s' \<and>
     scfree (chunk_addr c x) s' = Inl Assert_failed"
proof -
  obtain s x c where "slab_ok s" "cm s = Some c" "chunks c = {x}" by (rule sample_alloc)
  then have a: "slab_ok s" "cm s = Some c" "x \<in> chunks c" by simp_all
  obtain own loc where ok: "cm_ok c own loc" using a(1,2) by (rule slab_okE)
  obtain s' where "scfree (chunk_addr c x) s = Inr s'"
    using scfree_live [OF a(2) ok a(1), of "fst x" "snd x"] a(3) by auto
  with double_free_caught [OF a this] a show ?thesis by blast
qed

text \<open>
  C14: two different chunks in use never share a byte, every one lies inside the slab area,
  and its offset in the area is a multiple of eight.
\<close>

theorem chunks_separate:
  assumes "slab_ok s" and "cm s = Some c" and "x \<in> chunks c" and "y \<in> chunks c" and "x \<noteq> y"
  shows "(chunk_addr c x + csize c (fst x) \<le> chunk_addr c y \<or> chunk_addr c y + csize c (fst y) \<le> chunk_addr c x) \<and>
    0 < csize c (fst x) \<and> slabs c \<le> chunk_addr c x \<and>
    chunk_addr c x + csize c (fst x) \<le> slabs c + slabctl_count c * SLAB_SIZE \<and>
    8 dvd chunk_addr c x - slabs c"
proof -
  obtain own loc where ok: "cm_ok c own loc" using assms(1,2) by (rule slab_okE)
  obtain i b j d where xy: "x = (i, b)" "y = (j, d)" by (cases x; cases y)
  note bd = chunk_bounds [OF ok, of i b]
  have f: "frame_ok c" using ok by (simp add: cm_ok_def)
  have "i < j \<or> i = j \<and> b < d \<or> j < i \<or> j = i \<and> d < b" using assms(5) xy by auto
  then have "chunk_addr c x + csize c (fst x) \<le> chunk_addr c y \<or> chunk_addr c y + csize c (fst y) \<le> chunk_addr c x"
    using chunks_apart [OF ok] assms(3,4) xy by auto
  moreover have "slabs c \<le> chunk_addr c x" by (simp add: xy chunk_addr_def)
  moreover have "Suc i * SLAB_SIZE \<le> slabctl_count c * SLAB_SIZE"
    using bd(1) assms(3) xy f by (intro mult_le_mono1) (simp add: frame_ok_def)
  then have "chunk_addr c x + csize c (fst x) \<le> slabs c + slabctl_count c * SLAB_SIZE"
    using chunk_in_slab(2) [OF ok, of i b] assms(3) xy by auto
  moreover have "0 < csize c i" using bd(3) assms(3) xy by simp
  moreover have "8 dvd csize c i"
  proof -
    obtain k where k: "ctl_cache (slab_ctls c ! i) = Some k"
      using \<open>0 < csize c i\<close> by (auto simp: csize_def split: option.splits)
    have "i < length (slab_ctls c)" using bd(1) assms(3) xy by simp
    from cm_ok_cache_lt [OF ok this k] frame_class_ok [OF f] show ?thesis
      by (simp add: csize_def k class_ok_def CHUNK_ALIGN_BYTES_def)
  qed
  then have "8 dvd chunk_addr c x - slabs c"
    by (simp add: xy chunk_addr_def SLAB_SIZE_def dvd_add)
  ultimately show ?thesis using xy by simp
qed

theorem chunks_separate_witness:
  "\<exists>s c x y. slab_ok s \<and> cm s = Some c \<and> x \<in> chunks c \<and> y \<in> chunks c \<and> x \<noteq> y \<and>
     8 dvd chunk_addr c x - slabs c"
proof -
  obtain s x y c where a: "slab_ok s" "cm s = Some c" "x \<in> chunks c" "y \<in> chunks c" "x \<noteq> y"
    by (rule sample_alloc2)
  with chunks_separate [OF a] show ?thesis by blast
qed

text \<open>
  C9: whatever a client does that frees only what it was given, starting from a successful
  \<open>init_cache_manager\<close> with the server's factor and at most 4096 MB: no further call of
  \<open>scmalloc\<close> and no \<open>scfree\<close> of an address it holds faults, the addresses it holds are
  exactly the chunks in use, and the memory accounted for is the sum of their sizes, within
  the limit.
\<close>

theorem slab_client_safe:
  assumes "malloc_ok mf" and "0 < limit" and "limit \<le> 4096" and "slab_client mf limit h s L"
  shows "\<exists>c. cm s = Some c \<and> L = chunk_addr c ` chunks c \<and>
    sl_mem_used (slab_stats s) = (\<Sum>x \<in> chunks c. csize c (fst x)) \<and>
    sl_mem_used (slab_stats s) \<le> limit * 1024 * 1024 \<and>
    (\<forall>n. \<exists>r. scmalloc n s = Inr r) \<and> (\<forall>a. a \<in> L \<longrightarrow> (\<exists>s'. scfree a s = Inr s'))"
proof -
  note inv = slab_client_inv [OF assms(4,1-3)]
  obtain c where c: "cm s = Some c" using inv by (auto simp: slab_ok_def)
  have st: "slab_ok s" using inv by blast
  obtain own loc where ok: "cm_ok c own loc" and u: "sl_mem_used (slab_stats s) = used_bytes c"
    using st c by (rule slab_okE)
  have "\<exists>r. scmalloc n s = Inr r" for n
    using st c by (cases rule: scmalloc_cases [where n = n]) auto
  moreover have "\<exists>s'. scfree a s = Inr s'" if a: "a \<in> L" for a
  proof -
    obtain i b where "(i, b) \<in> chunks c" "a = chunk_addr c (i, b)"
      using a inv c by (auto simp: live_addrs_def)
    with scfree_live [OF c ok] inv show ?thesis by blast
  qed
  moreover have "used_bytes c \<le> limit * 1024 * 1024"
  proof -
    let ?n = "slabctl_count_for (limit * 1024 * 1024) 1952"
    have "length (slab_ctls c) = ?n" using inv c by (auto simp: area_ok_def)
    then have "used_bytes c \<le> ?n * SLAB_SIZE" using used_bytes_le [OF ok] by simp
    also have "\<dots> \<le> ?n * (SLAB_SIZE + sizeof_slab_ctl)" by (intro mult_le_mono2) simp
    finally show ?thesis using slabctl_count_bound(1) [OF assms(2,3)] by simp
  qed
  ultimately show ?thesis
    using c inv u used_bytes_chunks [OF ok] by (auto simp: live_addrs_def)
qed

theorem slab_client_safe_witness:
  "\<exists>s c. slab_client bump_malloc 64 [] s {} \<and> cm s = Some c \<and> (\<forall>n. \<exists>r. scmalloc n s = Inr r)"
proof -
  obtain s where "init_cache_manager bump_malloc 64 SLAB_SIZE_FACTOR (slab_start []) = Inr (True, s)"
    using bump_init by blast
  then have cl: "slab_client bump_malloc 64 [] s {}" by (rule slab_client.start)
  with slab_client_safe [OF bump_malloc_ok _ _ cl] show ?thesis by auto
qed

text \<open>
  C15: \<open>init_cache_manager\<close> never faults. It either leaves the manager unset with the heap
  and the allocated-bytes counter as they were, or sets it up with no chunk in use, at
  least two slabs and the slab area inside a block of its own, within the memory limit.
\<close>

theorem init_cache_manager_correct:
  assumes "malloc_ok mf" and "0 < limit" and "limit \<le> 4096"
  shows "\<exists>r s. init_cache_manager mf limit SLAB_SIZE_FACTOR (slab_start h) = Inr (r, s) \<and>
    (if r then \<exists>c l. cm s = Some c \<and> slab_ok s \<and> chunks c = {} \<and> 2 \<le> slabctl_count c \<and>
       (slabs c - 8, l, l) \<in> set (sysheap s) \<and> l = slabctl_count c * SLAB_SIZE + 8 \<and>
       sl_mem_mallocd (slab_stats s) \<le> limit * 1024 * 1024
     else cm s = None \<and> sysheap s = h \<and> sl_mem_mallocd (slab_stats s) = 0)"
  using init_cases [OF assms, of h]
proof
  let ?n = "slabctl_count_for (limit * 1024 * 1024) 1952"
  assume "\<exists>s'. init_cache_manager mf limit SLAB_SIZE_FACTOR (slab_start h) = Inr (True, s') \<and> 1 < ?n \<and>
    init_done limit ?n h s'"
  then obtain s where s: "init_cache_manager mf limit SLAB_SIZE_FACTOR (slab_start h) = Inr (True, s)"
    "1 < ?n" "init_done limit ?n h s" by blast
  note n = slabctl_count_bound [OF assms(2,3)]
  obtain c where c: "cm s = Some c" "fresh_cm c ?n"
      "(slabs c - 8, ?n * SLAB_SIZE + 8, ?n * SLAB_SIZE + 8) \<in> set (sysheap s)"
      "sl_mem_mallocd (slab_stats s) = ?n * (SLAB_SIZE + 6592) + 1968"
    using s(3) unfolding init_done_def by fastforce
  have "chunks c = {}" using fresh_cm_ok(2) [OF c(2)] s(2) n(2) by simp
  moreover have "slabctl_count c = ?n" using c(2) by (simp add: fresh_cm_def)
  ultimately show ?thesis
    using s c(1,3,4) n(1) init_done_ok(1) [OF s(3,2) n(2)] by (auto simp: sizeof_slab_ctl_eq)
qed (auto simp: slab_start_def)

theorem init_cache_manager_correct_witness:
  "\<exists>c s. init_cache_manager bump_malloc 64 SLAB_SIZE_FACTOR (slab_start []) = Inr (True, s) \<and>
     cm s = Some c \<and> 2 \<le> slabctl_count c"
proof -
  obtain s where s: "init_cache_manager bump_malloc 64 SLAB_SIZE_FACTOR (slab_start []) = Inr (True, s)"
    using bump_init by blast
  with init_cache_manager_correct [OF bump_malloc_ok, of 64 "[]"] show ?thesis by auto
qed

text \<open>
  C16: after any such run \<open>deinit_cache_manager\<close> passes its assert that everything was freed
  and gives all four blocks back to the C library; so does a second call of
  \<open>init_cache_manager\<close>, which reports failure and destroys the manager it found.
\<close>

theorem slab_teardown:
  assumes "malloc_ok mf" and "0 < limit" and "limit \<le> 4096" and "slab_client mf limit h s L"
  shows "deinit_cache_manager s = Inr (slab_start h) \<and>
    init_cache_manager mf2 limit2 factor s = Inr (False, slab_start h)"
proof -
  note inv = slab_client_inv [OF assms(4,1-3)]
  have d: "deinit_cache_manager s = Inr (slab_start h)"
    using deinit_area inv slabctl_count_bound(2) [OF assms(2,3)] by blast
  have "cm s \<noteq> None" using inv by (auto simp: slab_ok_def)
  then show ?thesis using d by (simp add: init_cache_manager_def init_err_def)
qed

theorem slab_teardown_witness:
  "\<exists>s. slab_client bump_malloc 64 [] s {} \<and> deinit_cache_manager s = Inr (slab_start [])"
proof -
  obtain s where "init_cache_manager bump_malloc 64 SLAB_SIZE_FACTOR (slab_start []) = Inr (True, s)"
    using bump_init by blast
  then have cl: "slab_client bump_malloc 64 [] s {}" by (rule slab_client.start)
  with slab_teardown [OF bump_malloc_ok _ _ cl] show ?thesis by auto
qed


end
