(* ===== verification/Mem.thy ===== *)
theory Mem
  imports Slab_Correct
begin

text \<open>
  \<open>src/mem.c\<close>: the allocator every other part of the server calls. \<open>li_malloc\<close> and
  \<open>li_free\<close> either go to the slab allocator or, when \<open>settings.use_sys_malloc\<close> is set, to
  the C library with a budget of \<open>settings.mem_avail\<close> bytes. The locale \<open>allocator\<close> is what
  the callers rely on; it is interpreted on both modes.
\<close>

subsection \<open>State and operations\<close>

record memst =
  use_sys_malloc :: bool
  mem_avail :: nat
  mem_used :: nat
  slabst :: slab_state

definition li_memused :: "memst \<Rightarrow> nat" where
  "li_memused m = (if \<not> use_sys_malloc m then sl_mem_used (slab_stats (slabst m)) else mem_used m)"

definition li_malloc :: "malloc_fun \<Rightarrow> nat \<Rightarrow> memst \<Rightarrow> (nat option \<times> memst) res" where
  "li_malloc mf n m =
     (if n = 0 then Inr (None, m)
      else if \<not> use_sys_malloc m then
        rbind (scmalloc n (slabst m)) (\<lambda>(p, s). Inr (p, m\<lparr>slabst := s\<rparr>))
      else if mem_avail m < u64 (n + mem_used m) then Inr (None, m)
      else
        (case mf (sysheap (slabst m)) (u64 (n + 8)) of
           None \<Rightarrow> Inl Null_deref
         | Some p \<Rightarrow>
             Inr (Some (p + 8),
               m\<lparr>slabst := (slabst m)\<lparr>sysheap := (p, u64 (n + 8), n) # sysheap (slabst m)\<rparr>,
                 mem_used := u64 (mem_used m + n)\<rparr>)))"

definition li_free :: "nat \<Rightarrow> memst \<Rightarrow> memst res" where
  "li_free ptr m =
     (if ptr = 0 then Inr m
      else if \<not> use_sys_malloc m then
        rbind (scfree ptr (slabst m)) (\<lambda>s. Inr (m\<lparr>slabst := s\<rparr>))
      else
        (case find (\<lambda>b. fst b = ptr - 8) (sysheap (slabst m)) of
           None \<Rightarrow> Inl Bad_free
         | Some b \<Rightarrow>
             Inr (m\<lparr>mem_used := sub64 (mem_used m) (snd (snd b)),
                    slabst := (slabst m)\<lparr>sysheap := remove1 b (sysheap (slabst m))\<rparr>\<rparr>)))"

subsection \<open>The interface the callers rely on\<close>

text \<open>
  \<open>live m\<close> are the addresses handed out and not yet freed. An allocation may stop the
  process (\<open>Inl\<close>), return NULL or hand out a new address; a live address can be freed.
\<close>

locale allocator =
  fixes ml :: "nat \<Rightarrow> 'm \<Rightarrow> (nat option \<times> 'm) res"
    and fr :: "nat \<Rightarrow> 'm \<Rightarrow> 'm res"
    and inv :: "'m \<Rightarrow> bool"
    and live :: "'m \<Rightarrow> nat set"
  assumes some_law: "inv m \<Longrightarrow> n < 2 ^ 63 \<Longrightarrow> ml n m = Inr (Some a, m') \<Longrightarrow>
      inv m' \<and> a \<noteq> 0 \<and> a \<notin> live m \<and> live m' = insert a (live m)"
    and none_law: "inv m \<Longrightarrow> ml n m = Inr (None, m') \<Longrightarrow> m' = m"
    and free_law: "inv m \<Longrightarrow> a \<in> live m \<Longrightarrow> \<exists>m'. fr a m = Inr m' \<and> inv m' \<and> live m' = live m - {a}"
    and null_law: "fr 0 m = Inr m"
begin

lemma malloc_then_free:
  assumes "inv m" and "n < 2 ^ 63" and "ml n m = Inr (Some a, m')"
  shows "\<exists>m''. fr a m' = Inr m'' \<and> inv m'' \<and> live m'' = live m"
proof -
  from some_law [OF assms] have m': "inv m'" "a \<notin> live m" "live m' = insert a (live m)" by auto
  then obtain m'' where "fr a m' = Inr m''" "inv m''" "live m'' = live m' - {a}"
    using free_law [of m' a] by auto
  with m' show ?thesis by auto
qed

text \<open>Freeing a list of pointers, NULL allowed.\<close>

fun free_all :: "nat list \<Rightarrow> 'm \<Rightarrow> 'm res" where
  "free_all [] m = Inr m"
| "free_all (a # as) m = rbind (fr a m) (free_all as)"

lemma free_all_ok:
  assumes "inv m" and "distinct (filter (\<lambda>a. a \<noteq> 0) as)" and "set as - {0} \<subseteq> live m"
  shows "\<exists>m'. free_all as m = Inr m' \<and> inv m' \<and> live m' = live m - (set as - {0})"
  using assms
proof (induction as arbitrary: m)
  case (Cons a as)
  show ?case
  proof (cases "a = 0")
    case True
    with Cons show ?thesis by (auto simp: null_law)
  next
    case False
    with Cons.prems obtain m1 where m1: "fr a m = Inr m1" "inv m1" "live m1 = live m - {a}"
      using free_law [of m a] by auto
    have "a \<notin> set as" using Cons.prems(2) False by auto
    then have "set as - {0} \<subseteq> live m1" using Cons.prems(3) m1(3) by auto
    with Cons.IH [OF m1(2)] Cons.prems(2) obtain m2 where
      "free_all as m1 = Inr m2" "inv m2" "live m2 = live m1 - (set as - {0})" by (auto split: if_splits)
    with m1 False show ?thesis by auto
  qed
qed simp

end

text \<open>An allocator that never stops the process and refuses every request above \<open>largest\<close>.\<close>

locale total_allocator = allocator ml fr inv live
  for ml :: "nat \<Rightarrow> 'm \<Rightarrow> (nat option \<times> 'm) res" and fr inv live +
  fixes largest :: nat
  assumes total_law: "inv m \<Longrightarrow> \<exists>r. ml n m = Inr r"
    and largest_law: "inv m \<Longrightarrow> largest < n \<Longrightarrow> ml n m = Inr (None, m)"
    and largest_bound: "largest \<le> 2 ^ 20"
begin

lemma malloc_cases:
  assumes "inv m"
  obtains (none) "ml n m = Inr (None, m)"
  | (some) a m' where "ml n m = Inr (Some a, m')" "inv m'" "a \<noteq> 0" "a \<notin> live m" "live m' = insert a (live m)"
proof -
  obtain r m' where e: "ml n m = Inr (r, m')" using total_law [OF assms, of n] by (auto simp: split_paired_Ex)
  show thesis
  proof (cases r)
    case None
    with e none none_law [OF assms, of n m'] show thesis by simp
  next
    case (Some a)
    then have "n \<le> largest" using e largest_law [OF assms, of n] by (cases "largest < n") auto
    then have "n < 2 ^ 63" using largest_bound by (simp add: le_less_trans)
    with e some some_law [OF assms, of n a m'] Some show thesis by simp
  qed
qed

end

subsection \<open>The slab mode\<close>

text \<open>The manager has the size classes of \<open>SLAB_SIZE_FACTOR\<close>; the largest chunk is 963984.\<close>

definition std_classes :: "slab_state \<Rightarrow> bool" where
  "std_classes s \<longleftrightarrow> (\<exists>c. cm s = Some c \<and> same_classes (init_caches SLAB_SIZE_FACTOR) (caches c))"

definition largest_chunk :: nat where
  "largest_chunk = 963984"

definition slab_inv :: "memst \<Rightarrow> bool" where
  "slab_inv m \<longleftrightarrow> \<not> use_sys_malloc m \<and> slab_ok (slabst m) \<and> std_classes (slabst m)"

lemma std_classes_step:
  "std_classes s \<Longrightarrow> cm s = Some c \<Longrightarrow> same_layout c c' \<Longrightarrow> cm s' = Some c' \<Longrightarrow> std_classes s'"
  by (auto simp: std_classes_def same_layout_def intro: same_classes_trans)

lemma std_last:
  assumes "std_classes s" and "cm s = Some c"
  shows "chunk_size (last (caches c)) = largest_chunk"
proof -
  have s: "same_classes (init_caches SLAB_SIZE_FACTOR) (caches c)" using assms by (auto simp: std_classes_def)
  have len: "length (init_caches SLAB_SIZE_FACTOR) = 47" by (simp add: init_caches_125 sizes_125_def)
  have "chunk_size (caches c ! 46) = chunk_size (init_caches SLAB_SIZE_FACTOR ! 46)" and l: "length (caches c) = 47"
    using s len by (simp_all add: same_classes_def)
  moreover have "chunk_size (init_caches SLAB_SIZE_FACTOR ! 46) = 963984"
    by (simp add: init_caches_125 sizes_125_def cache_of_size_def)
  moreover have "last (caches c) = caches c ! 46" using l by (subst last_conv_nth) auto
  ultimately show ?thesis by (simp add: largest_chunk_def)
qed

definition slab_live :: "memst \<Rightarrow> nat set" where
  "slab_live m = live_addrs (the (cm (slabst m)))"

lemma slab_live_pos:
  assumes "slab_ok s" and "cm s = Some c" and "x \<in> chunks c"
  shows "chunk_addr c x \<noteq> 0"
proof -
  obtain own loc where "cm_ok c own loc" using assms(1,2) by (rule slab_okE)
  then have "0 < slabs c" by (simp add: cm_ok_def frame_ok_def)
  then show ?thesis by (cases x) (simp add: chunk_addr_def)
qed

interpretation slab_alloc: total_allocator "li_malloc mf" li_free slab_inv slab_live largest_chunk for mf
proof (unfold_locales, goal_cases)
  case (1 m n a m')
  then obtain c where c: "cm (slabst m) = Some c" and st: "slab_ok (slabst m)" and n: "n \<noteq> 0"
    and sys: "\<not> use_sys_malloc m"
    by (auto simp: slab_inv_def slab_ok_def li_malloc_def split: if_splits)
  obtain s where s: "scmalloc n (slabst m) = Inr (Some a, s)" "m' = m\<lparr>slabst := s\<rparr>"
    using 1 n sys by (auto simp: li_malloc_def rbind_eq_Inr_iff)
  obtain own loc where ok: "cm_ok c own loc" using st c by (rule slab_okE)
  from st c show ?case
  proof (cases rule: scmalloc_cases [where n = n])
    case (served k i b c' s')
    obtain own' loc' where ok': "cm_ok c' own' loc'" using served(7,6) by (rule slab_okE)
    have new: "(i, b) \<in> chunks c'" "(i, b) \<notin> chunks c" and sub: "chunks c' = insert (i, b) (chunks c)"
      and keep: "\<forall>y \<in> chunks c. chunk_addr c' y = chunk_addr c y"
      using served(8) by (auto simp: alloc_step_def)
    have a: "a = chunk_addr c' (i, b)" "s' = s" using served s by auto
    have "a \<notin> live_addrs c"
    proof
      assume "a \<in> live_addrs c"
      then obtain y where y: "y \<in> chunks c" "a = chunk_addr c y" by (auto simp: live_addrs_def)
      then have "chunk_addr c' y = chunk_addr c' (i, b)" "y \<in> chunks c'" using keep a sub by auto
      with chunk_addr_inj [OF ok' _ new(1)] y new show False by blast
    qed
    moreover have "a \<noteq> 0" using slab_live_pos [OF served(7,6) new(1)] a by simp
    moreover have "std_classes s'"
      using 1(1) std_classes_step [OF _ c _ served(6)] served(8) by (simp add: slab_inv_def alloc_step_def)
    ultimately show ?thesis
      using served s a c sys live_addrs_alloc [OF served(8)] by (simp add: slab_inv_def slab_live_def)
  qed (use s in auto)
next
  case (2 m n m')
  then obtain c where c: "cm (slabst m) = Some c" and st: "slab_ok (slabst m)" and sys: "\<not> use_sys_malloc m"
    by (auto simp: slab_inv_def slab_ok_def)
  show ?case
  proof (cases "n = 0")
    case True
    with 2 show ?thesis by (simp add: li_malloc_def)
  next
    case False
    from st c show ?thesis
      by (cases rule: scmalloc_cases [where n = n]) (use 2 False sys in \<open>auto simp: li_malloc_def\<close>)
  qed
next
  case (3 m a)
  then obtain c where c: "cm (slabst m) = Some c" and st: "slab_ok (slabst m)" and sys: "\<not> use_sys_malloc m"
    by (auto simp: slab_inv_def slab_ok_def)
  obtain own loc where ok: "cm_ok c own loc" using st c by (rule slab_okE)
  obtain i b where x: "(i, b) \<in> chunks c" "a = chunk_addr c (i, b)" using 3(2) c by (auto simp: slab_live_def live_addrs_def)
  from scfree_live [OF c ok st x(1)] obtain c' s' where s': "scfree a (slabst m) = Inr s'" "cm s' = Some c'"
    "slab_ok s'" "free_step c (i, b) c'" using x by auto
  have "a \<noteq> 0" using slab_live_pos [OF st c x(1)] x by simp
  then have "li_free a m = Inr (m\<lparr>slabst := s'\<rparr>)" using s' sys by (simp add: li_free_def)
  moreover have "std_classes s'"
    using 3(1) std_classes_step [OF _ c _ s'(2)] s'(4) by (simp add: slab_inv_def free_step_def)
  ultimately show ?case
    using s' sys c live_addrs_free [OF ok x(1) s'(4)] x by (simp add: slab_inv_def slab_live_def)
next
  case (4 m)
  show ?case by (simp add: li_free_def)
next
  case (5 m n)
  then obtain c where c: "cm (slabst m) = Some c" and st: "slab_ok (slabst m)" and sys: "\<not> use_sys_malloc m"
    by (auto simp: slab_inv_def slab_ok_def)
  from st c show ?case
    by (cases rule: scmalloc_cases [where n = n]) (use sys in \<open>auto simp: li_malloc_def\<close>)
next
  case (6 m n)
  then obtain c where c: "cm (slabst m) = Some c" and st: "slab_ok (slabst m)" and sys: "\<not> use_sys_malloc m"
    by (auto simp: slab_inv_def slab_ok_def)
  obtain own loc where ok: "cm_ok c own loc" using st c by (rule slab_okE)
  have "chunk_size (last (caches c)) < n" using 6 std_last [OF _ c] by (simp add: slab_inv_def)
  from scmalloc_too_big [OF c ok this] show ?case using sys 6(2) by (simp add: li_malloc_def)
next
  case 7
  show ?case by (simp add: largest_chunk_def)
qed

subsection \<open>The system mode\<close>

text \<open>
  A block of \<open>li_malloc\<close> stores the size asked for, which is eight less than its length. The
  counter \<open>mem_used\<close> is the sum of the sizes and stays within the budget.
\<close>

definition own_block :: "nat \<times> nat \<times> nat \<Rightarrow> bool" where
  "own_block b \<longleftrightarrow> fst (snd b) = snd (snd b) + 8"

definition own_bytes :: "sysheap \<Rightarrow> nat" where
  "own_bytes h = (\<Sum>b \<leftarrow> filter own_block h. snd (snd b))"

definition sys_inv :: "malloc_fun \<Rightarrow> memst \<Rightarrow> bool" where
  "sys_inv mf m \<longleftrightarrow> malloc_ok mf \<and> use_sys_malloc m \<and> distinct (map fst (sysheap (slabst m))) \<and>
     list_all (\<lambda>(p, l, w). 0 < l) (sysheap (slabst m)) \<and>
     mem_used m = own_bytes (sysheap (slabst m)) \<and> mem_used m \<le> mem_avail m \<and> mem_avail m < 2 ^ 63"

definition sys_live :: "memst \<Rightarrow> nat set" where
  "sys_live m = (\<lambda>b. fst b + 8) ` {b \<in> set (sysheap (slabst m)). own_block b}"

lemma own_bytes_Cons: "own_bytes (b # h) = (if own_block b then snd (snd b) else 0) + own_bytes h"
  by (simp add: own_bytes_def)

lemma own_bytes_remove1:
  "b \<in> set h \<Longrightarrow> own_block b \<Longrightarrow> own_bytes h = snd (snd b) + own_bytes (remove1 b h)"
  by (induction h) (auto simp: own_bytes_Cons)

lemma block_free_fresh:
  assumes "block_free h a (max n 1)" and "list_all (\<lambda>(p, l, w). 0 < l) h"
  shows "a \<notin> fst ` set h"
  using assms by (fastforce simp: block_free_def list_all_iff)

lemma find_fst: "distinct (map fst h) \<Longrightarrow> b \<in> set h \<Longrightarrow> find (\<lambda>x. fst x = fst b) h = Some b"
  by (induction h) (force split: if_splits)+

lemma sys_invD:
  assumes "sys_inv mf m"
  shows "malloc_ok mf" and "use_sys_malloc m" and "distinct (map fst (sysheap (slabst m)))"
    and "list_all (\<lambda>(p, l, w). 0 < l) (sysheap (slabst m))"
    and "mem_used m = own_bytes (sysheap (slabst m))" and "mem_used m \<le> mem_avail m" and "mem_avail m < 2 ^ 63"
  using assms by (simp_all add: sys_inv_def)

lemma li_malloc_sys:
  assumes inv: "sys_inv mf m" and n63: "n < 2 ^ 63" and r: "li_malloc mf n m = Inr (Some a, m')"
  shows "sys_inv mf m' \<and> a \<noteq> 0 \<and> a \<notin> sys_live m \<and> sys_live m' = insert a (sys_live m) \<and>
    mem_used m' = mem_used m + n \<and> li_free a m' = Inr m"
proof -
  note ok = sys_invD [OF inv]
  have sum: "n + mem_used m < 2 ^ 64" using ok(6,7) n63 by simp
  have n: "n \<noteq> 0" and fit: "n + mem_used m \<le> mem_avail m"
    using r ok(2) sum by (auto simp: li_malloc_def split: if_splits)
  obtain p where p: "mf (sysheap (slabst m)) (n + 8) = Some p" "a = p + 8"
    and m': "m' = m\<lparr>slabst := (slabst m)\<lparr>sysheap := (p, n + 8, n) # sysheap (slabst m)\<rparr>,
                 mem_used := mem_used m + n\<rparr>"
    using r n fit ok(2) sum n63 by (auto simp: li_malloc_def add.commute split: option.splits)
  have "block_free (sysheap (slabst m)) p (max (n + 8) 1)" using ok(1) p(1) unfolding malloc_ok_def by blast
  then have new: "p \<notin> fst ` set (sysheap (slabst m))" using ok(4) by (rule block_free_fresh)
  then have "a \<notin> sys_live m" by (force simp: sys_live_def p(2))
  moreover have "sys_live m' = insert a (sys_live m)" by (force simp: sys_live_def m' p(2) own_block_def)
  moreover have "sys_inv mf m'"
    using ok fit new by (simp add: sys_inv_def m' own_bytes_Cons own_block_def)
  moreover have "li_free a m' = Inr m"
    using ok(2,6,7) sub64_id [of n "mem_used m + n"] fit by (simp add: li_free_def m' p(2))
  ultimately show ?thesis using p(2) m' by simp
qed

lemma li_free_sys:
  assumes inv: "sys_inv mf m" and a: "a \<in> sys_live m"
  shows "\<exists>m'. li_free a m = Inr m' \<and> sys_inv mf m' \<and> sys_live m' = sys_live m - {a}"
proof -
  note ok = sys_invD [OF inv]
  obtain b where b: "b \<in> set (sysheap (slabst m))" "own_block b" "a = fst b + 8"
    using a by (auto simp: sys_live_def)
  have rem: "set (remove1 b (sysheap (slabst m))) = set (sysheap (slabst m)) - {b}"
    using ok(3) by (simp add: distinct_map set_remove1_eq)
  have own: "own_bytes (sysheap (slabst m)) = snd (snd b) + own_bytes (remove1 b (sysheap (slabst m)))"
    using own_bytes_remove1 b by blast
  have sub: "sub64 (mem_used m) (snd (snd b)) = own_bytes (remove1 b (sysheap (slabst m)))"
    using ok(5-7) own by (subst sub64_id) auto
  define m' where "m' = m\<lparr>mem_used := sub64 (mem_used m) (snd (snd b)),
      slabst := (slabst m)\<lparr>sysheap := remove1 b (sysheap (slabst m))\<rparr>\<rparr>"
  have "find (\<lambda>x. fst x = a - 8) (sysheap (slabst m)) = Some b" using find_fst [OF ok(3) b(1)] b(3) by simp
  then have "li_free a m = Inr m'" using b(3) ok(2) by (simp add: li_free_def m'_def)
  moreover have "sys_inv mf m'"
    using ok own rem sub by (auto simp: sys_inv_def m'_def list_all_iff distinct_map intro: inj_on_subset)
  moreover have "sys_live m' = sys_live m - {a}"
  proof -
    have "inj_on fst (set (sysheap (slabst m)))" using ok(3) by (simp add: distinct_map)
    then show ?thesis using b rem by (auto simp: sys_live_def m'_def inj_on_def)
  qed
  ultimately show ?thesis by blast
qed

interpretation sys_alloc: allocator "li_malloc mf" li_free "sys_inv mf" sys_live for mf
proof (unfold_locales, goal_cases)
  case (1 m n a m')
  then show ?case using li_malloc_sys by blast
next
  case (2 m n m')
  then show ?case by (auto simp: li_malloc_def sys_inv_def split: if_splits option.splits)
next
  case (3 m a)
  then show ?case by (rule li_free_sys)
next
  case (4 m)
  show ?case by (simp add: li_free_def)
qed

subsection \<open>Properties\<close>

definition sample_mem :: memst where
  "sample_mem = \<lparr>use_sys_malloc = False, mem_avail = 67108864, mem_used = 0, slabst = sample_state\<rparr>"

definition sample_sys :: memst where
  "sample_sys = \<lparr>use_sys_malloc = True, mem_avail = 1024, mem_used = 0, slabst = slab_start []\<rparr>"

lemma sample_mem_inv: "slab_inv sample_mem"
  by (simp add: slab_inv_def sample_mem_def sample_ok std_classes_def) (simp add: sample_cm_def)

lemma sample_sys_inv: "sys_inv bump_malloc sample_sys"
  by (simp add: sys_inv_def sample_sys_def bump_malloc_ok own_bytes_def slab_start_def)

text \<open>
  C30: in the slab mode \<open>li_malloc\<close> never faults, an address it returns is new, and giving it
  straight back with \<open>li_free\<close> restores the addresses in use and \<open>li_memused\<close>.
\<close>

theorem li_malloc_roundtrip:
  assumes "slab_inv m"
  shows "\<exists>r m'. li_malloc mf n m = Inr (r, m') \<and> slab_inv m' \<and>
    (case r of None \<Rightarrow> m' = m
     | Some a \<Rightarrow> a \<noteq> 0 \<and> a \<notin> slab_live m \<and> slab_live m' = insert a (slab_live m) \<and> li_memused m < li_memused m' \<and>
         (\<exists>m''. li_free a m' = Inr m'' \<and> slab_inv m'' \<and> slab_live m'' = slab_live m \<and>
            li_memused m'' = li_memused m))"
  using assms
proof (cases rule: slab_alloc.malloc_cases [where n = n and mf = mf])
  case none
  then show ?thesis using assms by auto
next
  case (some a m')
  obtain c where c: "cm (slabst m) = Some c" and st: "slab_ok (slabst m)" and sys: "\<not> use_sys_malloc m"
    using assms by (auto simp: slab_inv_def slab_ok_def)
  have n: "n \<noteq> 0" using some(1) by (intro notI) (simp add: li_malloc_def)
  from st c obtain i b c' s' k where v: "scmalloc n (slabst m) = Inr (Some (chunk_addr c' (i, b)), s')"
    "cm s' = Some c'" "slab_ok s'" "alloc_step c (i, b) c'" "csize c' i = chunk_size (caches c ! k)"
    "slab_stats s' = (slab_stats (slabst m))\<lparr>sl_mem_used := sl_mem_used (slab_stats (slabst m)) + chunk_size (caches c ! k)\<rparr>"
    by (cases rule: scmalloc_cases [where n = n]) (use some(1) n sys in \<open>auto simp: li_malloc_def\<close>)
  then have m': "m' = m\<lparr>slabst := s'\<rparr>" "a = chunk_addr c' (i, b)" using some(1) n sys by (auto simp: li_malloc_def)
  have x: "(i, b) \<in> chunks c'" using v(4) by (simp add: alloc_step_def)
  obtain own loc where ok: "cm_ok c' own loc" using v(3,2) by (rule slab_okE)
  have pos: "0 < csize c' i" using chunk_bounds(3) [OF ok x] .
  from scfree_live [OF v(2) ok v(3) x] obtain s'' where f: "scfree a s' = Inr s''"
    "slab_stats s'' = (slab_stats s')\<lparr>sl_mem_used := sl_mem_used (slab_stats s') - csize c' i\<rparr>" using m' by auto
  obtain m'' where m'': "li_free a m' = Inr m''" "slab_inv m''" "slab_live m'' = slab_live m' - {a}"
    using slab_alloc.free_law [OF some(2), of a] some(5) by auto
  have "m'' = m'\<lparr>slabst := s''\<rparr>" using m''(1) f some(3) m' sys by (simp add: li_free_def)
  then have "li_memused m'' = li_memused m" "li_memused m < li_memused m'"
    using f(2) v(5,6) m' sys pos by (simp_all add: li_memused_def)
  then show ?thesis using some m'' by auto
qed

theorem li_malloc_roundtrip_witness:
  "slab_inv sample_mem \<and> (\<exists>r. li_malloc bump_malloc 100 sample_mem = Inr r)"
  using sample_mem_inv li_malloc_roundtrip [OF sample_mem_inv, of bump_malloc 100] by blast

text \<open>
  C31: in the system mode the counter is exactly the sum of the sizes of the live blocks and
  never exceeds \<open>settings.mem_avail\<close>: \<open>li_malloc\<close> returns NULL without change when the
  budget would be exceeded, and \<open>li_free\<close> gives the size of the block back.
\<close>

theorem li_malloc_sys_budget:
  assumes "sys_inv mf m" and "n < 2 ^ 63" and "li_malloc mf n m = Inr (r, m')"
  shows "sys_inv mf m' \<and> li_memused m' \<le> mem_avail m' \<and>
    (case r of None \<Rightarrow> m' = m \<and> (n = 0 \<or> mem_avail m < n + li_memused m)
     | Some a \<Rightarrow> a \<notin> sys_live m \<and> li_memused m' = li_memused m + n \<and>
         li_free a m' = Inr m)"
proof (cases r)
  case None
  with assms(3) sys_invD [OF assms(1)] show ?thesis
    using assms(1,2) by (auto simp: li_malloc_def li_memused_def split: if_splits option.splits)
next
  case (Some a)
  with li_malloc_sys [OF assms(1,2), of a m'] assms(3) have "sys_inv mf m'" "a \<notin> sys_live m"
    "mem_used m' = mem_used m + n" "li_free a m' = Inr m" by auto
  then show ?thesis
    using Some sys_invD [OF assms(1)] sys_invD [of mf m'] by (simp add: li_memused_def)
qed

theorem li_malloc_sys_budget_witness:
  "\<exists>a m'. li_malloc bump_malloc 1000 sample_sys = Inr (Some a, m') \<and> li_memused m' = 1000 \<and>
     li_free a m' = Inr sample_sys"
proof -
  have r: "\<exists>a m'. li_malloc bump_malloc 1000 sample_sys = Inr (Some a, m')"
    by (simp add: li_malloc_def sample_sys_def bump_malloc_def slab_start_def)
  then obtain a m' where r: "li_malloc bump_malloc 1000 sample_sys = Inr (Some a, m')" by blast
  have z: "li_memused sample_sys = 0" by (simp add: sample_sys_def li_memused_def)
  from li_malloc_sys_budget [OF sample_sys_inv _ r] r z show ?thesis by auto
qed

text \<open>
  In the system mode \<open>li_malloc\<close> does not check what the C library returns: within the budget a
  NULL from \<open>malloc\<close> is written to and stops the process.
\<close>

lemma li_malloc_null:
  assumes "use_sys_malloc m" and "0 < n" and "n + mem_used m \<le> mem_avail m" and "mem_avail m < 2 ^ 63"
    and "mf (sysheap (slabst m)) (n + 8) = None"
  shows "li_malloc mf n m = Inl Null_deref"
  using assms by (simp add: li_malloc_def)

end
