(* ===== verification/Hashtab.thy ===== *)
theory Hashtab
  imports Mem
begin

text \<open>
  The adaptive hash table of \<open>src/hashtab.c\<close>. A table is a record with the buckets as lists
  of items, in chain order; an item carries its own address, the address and the contents of
  its key buffer. The allocator is an argument (\<open>ml\<close>, \<open>fr\<close>), so that the same definitions
  run on both modes of \<open>li_malloc\<close>. A bucket whose items \<open>_hgrow\<close> freed before it gave up is
  \<open>Dangling\<close>: following its pointer is a use after free.
\<close>

unbundle bit_operations_syntax

subsection \<open>Data\<close>

record hitem =
  hi_addr :: nat
  hi_keyp :: nat
  hi_key :: "byte list"
  hi_klen :: nat
  hi_val :: nat
  hi_free :: bool

datatype bucket = Chain "hitem list" | Dangling

record htab =
  ht_addr :: nat
  ht_realsize :: nat
  ht_logsize :: nat
  ht_count :: int
  ht_mask :: nat
  ht_freecount :: int
  ht_tablep :: nat
  ht_table :: "bucket list"

datatype hresult = HSUCCESS | HERROR | HEXISTS

type_synonym 'm mallocf = "nat \<Rightarrow> 'm \<Rightarrow> (nat option \<times> 'm) res"
type_synonym 'm freef = "nat \<Rightarrow> 'm \<Rightarrow> 'm res"

definition sizeof_htab :: nat where
  "sizeof_htab = 32"

definition sizeof_hitem :: nat where
  "sizeof_hitem = 40"

definition HSIZE :: "nat \<Rightarrow> nat" where
  "HSIZE n = 2 ^ n"

definition HMASK :: "nat \<Rightarrow> nat" where
  "HMASK n = HSIZE n - 1"

subsection \<open>C strings\<close>

text \<open>
  A \<open>char *\<close> argument is \<open>None\<close> for NULL, or the bytes of its buffer. \<open>strcmp_eq\<close> is
  \<open>strcmp(a, b) == 0\<close>; running off a buffer without a 0 is a fault.
\<close>

type_synonym cptr = "byte list option"

fun strcmp_bytes :: "byte list \<Rightarrow> byte list \<Rightarrow> bool res" where
  "strcmp_bytes (x # xs) (y # ys) =
     (if x \<noteq> y then Inr False else if x = 0 then Inr True else strcmp_bytes xs ys)"
| "strcmp_bytes _ _ = Inl Out_of_bounds"

fun strcmp_eq :: "cptr \<Rightarrow> cptr \<Rightarrow> bool res" where
  "strcmp_eq (Some a) (Some b) = strcmp_bytes a b"
| "strcmp_eq _ _ = Inl Null_deref"

definition item_key :: "hitem \<Rightarrow> cptr" where
  "item_key p = (if hi_keyp p = 0 then None else Some (hi_key p))"

subsection \<open>Hashing\<close>

definition hash_step :: "32 word \<Rightarrow> byte \<Rightarrow> 32 word" where
  "hash_step hash c =
     (let hash = hash + scast c;
          hash = hash + push_bit 10 hash
      in hash XOR signed_drop_bit 6 hash)"

definition hash_final :: "32 word \<Rightarrow> 32 word" where
  "hash_final hash =
     (let hash = hash + push_bit 3 hash;
          hash = hash XOR signed_drop_bit 11 hash
      in hash + push_bit 15 hash)"

definition HHASH :: "nat \<Rightarrow> cptr \<Rightarrow> nat \<Rightarrow> nat res" where
  "HHASH msk key len =
     (case key of
        None \<Rightarrow> if len = 0 then Inr 0 else Inl Null_deref
      | Some k \<Rightarrow>
          if length k < len then Inl Out_of_bounds
          else Inr (unat (hash_final (foldl hash_step 0 (take len k)) AND word_of_nat msk)))"

subsection \<open>Creating and destroying a table\<close>

definition htcreate :: "'m mallocf \<Rightarrow> 'm freef \<Rightarrow> nat \<Rightarrow> 'm \<Rightarrow> (htab option \<times> 'm) res" where
  "htcreate ml fr logsize m =
     rbind (ml sizeof_htab m) (\<lambda>(r, m).
     case r of
       None \<Rightarrow> Inr (None, m)
     | Some h \<Rightarrow>
         if 31 \<le> logsize then Inl Int_overflow
         else
           rbind (ml (HSIZE logsize * 8) m) (\<lambda>(r, m).
           case r of
             None \<Rightarrow> rbind (fr h m) (\<lambda>m. Inr (None, m))
           | Some t \<Rightarrow>
               Inr (Some \<lparr>ht_addr = h, ht_realsize = HSIZE logsize, ht_logsize = logsize, ht_count = 0,
                      ht_mask = HMASK logsize, ht_freecount = 0, ht_tablep = t,
                      ht_table = replicate (HSIZE logsize) (Chain [])\<rparr>, m)))"

fun free_chain :: "'m freef \<Rightarrow> hitem list \<Rightarrow> 'm \<Rightarrow> 'm res" where
  "free_chain fr [] m = Inr m"
| "free_chain fr (p # ps) m =
     rbind (fr (hi_keyp p) m) (\<lambda>m. rbind (fr (hi_addr p) m) (free_chain fr ps))"

fun free_table :: "'m freef \<Rightarrow> bucket list \<Rightarrow> 'm \<Rightarrow> 'm res" where
  "free_table fr [] m = Inr m"
| "free_table fr (Dangling # bs) m = Inl Use_after_free"
| "free_table fr (Chain ps # bs) m = rbind (free_chain fr ps m) (free_table fr bs)"

definition htdestroy :: "'m freef \<Rightarrow> htab \<Rightarrow> 'm \<Rightarrow> 'm res" where
  "htdestroy fr ht m =
     rbind (free_table fr (ht_table ht) m) (\<lambda>m.
     rbind (fr (ht_tablep ht) m) (fr (ht_addr ht)))"

subsection \<open>Looking up\<close>

fun hget_chain :: "hitem list \<Rightarrow> cptr \<Rightarrow> hitem option res" where
  "hget_chain [] key = Inr None"
| "hget_chain (p # ps) key =
     (if \<not> hi_free p then
        rbind (strcmp_eq (item_key p) key) (\<lambda>eq. if eq then Inr (Some p) else hget_chain ps key)
      else hget_chain ps key)"

definition bucket_at :: "htab \<Rightarrow> nat \<Rightarrow> hitem list res" where
  "bucket_at ht h =
     (if length (ht_table ht) \<le> h then Inl Out_of_bounds
      else (case ht_table ht ! h of Chain ps \<Rightarrow> Inr ps | Dangling \<Rightarrow> Inl Use_after_free))"

definition hget :: "htab \<Rightarrow> cptr \<Rightarrow> nat \<Rightarrow> hitem option res" where
  "hget ht key klen =
     rbind (HHASH (ht_mask ht) key klen) (\<lambda>h.
     rbind (bucket_at ht h) (\<lambda>ps. hget_chain ps key))"

text \<open>A write through a \<open>_hitem *\<close>.\<close>

definition item_upd :: "nat \<Rightarrow> (hitem \<Rightarrow> hitem) \<Rightarrow> hitem \<Rightarrow> hitem" where
  "item_upd a f p = (if hi_addr p = a then f p else p)"

fun bucket_upd :: "nat \<Rightarrow> (hitem \<Rightarrow> hitem) \<Rightarrow> bucket \<Rightarrow> bucket" where
  "bucket_upd a f (Chain ps) = Chain (map (item_upd a f) ps)"
| "bucket_upd a f Dangling = Dangling"

definition hupd :: "nat \<Rightarrow> (hitem \<Rightarrow> hitem) \<Rightarrow> htab \<Rightarrow> htab" where
  "hupd a f ht = ht\<lparr>ht_table := map (bucket_upd a f) (ht_table ht)\<rparr>"

subsection \<open>Inserting\<close>

text \<open>
  The scan of \<open>hset\<close>: \<open>Inr None\<close> is the early return of \<open>HEXISTS\<close>, otherwise the last free
  item of the chain.
\<close>

fun hscan :: "hitem list \<Rightarrow> cptr \<Rightarrow> hitem option \<Rightarrow> hitem option option res" where
  "hscan [] key new = Inr (Some new)"
| "hscan (p # ps) key new =
     rbind (strcmp_eq (item_key p) key) (\<lambda>eq.
       if eq \<and> \<not> hi_free p then Inr None
       else hscan ps key (if hi_free p then Some p else new))"

text \<open>\<open>memcpy(new->key, key, klen+1)\<close> into a buffer with contents \<open>buf\<close>.\<close>

definition copy_key :: "cptr \<Rightarrow> nat \<Rightarrow> byte list \<Rightarrow> byte list res" where
  "copy_key key klen buf =
     (case key of
        None \<Rightarrow> Inl Null_deref
      | Some k \<Rightarrow>
          if length k < klen + 1 \<or> length buf < klen + 1 then Inl Out_of_bounds
          else Inr (take (klen + 1) k @ drop (klen + 1) buf))"

text \<open>Reusing the free item \<open>new\<close>.\<close>

definition hreuse ::
  "'m mallocf \<Rightarrow> 'm freef \<Rightarrow> htab \<Rightarrow> hitem \<Rightarrow> cptr \<Rightarrow> nat \<Rightarrow> nat \<Rightarrow> 'm \<Rightarrow> (hresult \<times> htab \<times> 'm) res" where
  "hreuse ml fr ht new key klen val m =
     rbind
       (if hi_klen new < klen + 1 then
          rbind (fr (hi_keyp new) m) (\<lambda>m.
          rbind (ml (klen + 1) m) (\<lambda>(r, m).
          case r of
            None \<Rightarrow> Inr (new\<lparr>hi_keyp := 0, hi_key := []\<rparr>, m)
          | Some k \<Rightarrow> Inr (new\<lparr>hi_keyp := k, hi_key := replicate (klen + 1) 0\<rparr>, m)))
        else Inr (new, m))
       (\<lambda>(new', m).
          if hi_keyp new' = 0 \<and> hi_klen new < klen + 1 then
            Inr (HERROR, hupd (hi_addr new) (\<lambda>_. new') ht, m)
          else
            (if hi_keyp new' = 0 then Inl Null_deref
             else
               rbind (copy_key key klen (hi_key new')) (\<lambda>buf.
                 Inr (HSUCCESS,
                   (hupd (hi_addr new)
                      (\<lambda>_. new'\<lparr>hi_key := buf, hi_klen := klen, hi_val := val, hi_free := False\<rparr>) ht)
                     \<lparr>ht_freecount := ht_freecount ht - 1\<rparr>, m))))"

text \<open>A new item at the front of chain \<open>h\<close>.\<close>

definition hinsert ::
  "'m mallocf \<Rightarrow> 'm freef \<Rightarrow> htab \<Rightarrow> nat \<Rightarrow> hitem list \<Rightarrow> cptr \<Rightarrow> nat \<Rightarrow> nat \<Rightarrow> 'm \<Rightarrow>
    (hresult \<times> htab \<times> 'm) res" where
  "hinsert ml fr ht h ps key klen val m =
     rbind (ml sizeof_hitem m) (\<lambda>(r, m).
     case r of
       None \<Rightarrow> Inr (HERROR, ht, m)
     | Some a \<Rightarrow>
         rbind (ml (klen + 1) m) (\<lambda>(r, m).
         case r of
           None \<Rightarrow> rbind (fr a m) (\<lambda>m. Inr (HERROR, ht, m))
         | Some k \<Rightarrow>
             rbind (copy_key key klen (replicate (klen + 1) 0)) (\<lambda>buf.
               Inr (HSUCCESS,
                 ht\<lparr>ht_table := (ht_table ht)[h := Chain
                      (\<lparr>hi_addr = a, hi_keyp = k, hi_key = buf, hi_klen = klen, hi_val = val,
                        hi_free = False\<rparr> # ps)],
                    ht_count := ht_count ht + 1\<rparr>, m))))"

definition hput ::
  "'m mallocf \<Rightarrow> 'm freef \<Rightarrow> htab \<Rightarrow> cptr \<Rightarrow> nat \<Rightarrow> nat \<Rightarrow> 'm \<Rightarrow> (hresult \<times> htab \<times> 'm) res" where
  "hput ml fr ht key klen val m =
     rbind (HHASH (ht_mask ht) key klen) (\<lambda>h.
     rbind (bucket_at ht h) (\<lambda>ps.
     rbind (hscan ps key None) (\<lambda>r.
     case r of
       None \<Rightarrow> Inr (HEXISTS, ht, m)
     | Some (Some new) \<Rightarrow> hreuse ml fr ht new key klen val m
     | Some None \<Rightarrow> hinsert ml fr ht h ps key klen val m)))"

text \<open>
  \<open>(count - freecount) / (double)realsize >= 0.75\<close>; \<open>realsize\<close> is a power of two, so the
  division of doubles is exact.
\<close>

definition crowded :: "htab \<Rightarrow> bool" where
  "crowded ht \<longleftrightarrow> 3 * int (ht_realsize ht) \<le> 4 * (ht_count ht - ht_freecount ht)"

subsection \<open>Growing\<close>

type_synonym 'm hsetf = "htab \<Rightarrow> cptr \<Rightarrow> nat \<Rightarrow> nat \<Rightarrow> 'm \<Rightarrow> (hresult \<times> htab \<times> 'm) res"

text \<open>
  The inner loop of \<open>_hgrow\<close> over one chain; the result are the items it did not get to,
  none when it went through.
\<close>

fun move_chain :: "'m hsetf \<Rightarrow> 'm freef \<Rightarrow> hitem list \<Rightarrow> htab \<Rightarrow> 'm \<Rightarrow> (hitem list \<times> htab \<times> 'm) res" where
  "move_chain hs fr [] d m = Inr ([], d, m)"
| "move_chain hs fr (p # ps) d m =
     rbind (hs d (item_key p) (hi_klen p) (hi_val p) m) (\<lambda>(r, d, m).
     if r \<noteq> HSUCCESS then Inr (p # ps, d, m)
     else
       rbind (hget d (item_key p) (hi_klen p)) (\<lambda>it.
       case it of
         None \<Rightarrow> Inr (p # ps, d, m)
       | Some it \<Rightarrow>
           (let d = hupd (hi_addr it) (\<lambda>x. x\<lparr>hi_free := hi_free p\<rparr>) d in
            rbind (fr (hi_keyp p) m) (\<lambda>m.
            rbind (fr (hi_addr p) m) (\<lambda>m. move_chain hs fr ps d m)))))"

fun move_table ::
  "'m hsetf \<Rightarrow> 'm freef \<Rightarrow> bucket list \<Rightarrow> htab \<Rightarrow> 'm \<Rightarrow> (bool \<times> bucket list \<times> htab \<times> 'm) res" where
  "move_table hs fr [] d m = Inr (True, [], d, m)"
| "move_table hs fr (Dangling # bs) d m = Inl Use_after_free"
| "move_table hs fr (Chain ps # bs) d m =
     rbind (move_chain hs fr ps d m) (\<lambda>(left, d, m).
     if left = [] then
       rbind (move_table hs fr bs d m) (\<lambda>(ok, bs, d, m).
         Inr (ok, (if ps = [] then Chain [] else Dangling) # bs, d, m))
     else Inr (False, (if length left = length ps then Chain ps else Dangling) # bs, d, m))"

definition hgrow :: "'m hsetf \<Rightarrow> 'm mallocf \<Rightarrow> 'm freef \<Rightarrow> htab \<Rightarrow> 'm \<Rightarrow> (bool \<times> htab \<times> 'm) res" where
  "hgrow hs ml fr ht m =
     rbind (htcreate ml fr (ht_logsize ht + 1) m) (\<lambda>(r, m).
     case r of
       None \<Rightarrow> Inr (False, ht, m)
     | Some dummy \<Rightarrow>
         rbind (move_table hs fr (ht_table ht) dummy m) (\<lambda>(ok, bs, dummy, m).
         if \<not> ok then Inr (False, ht\<lparr>ht_table := bs\<rparr>, m)
         else
           rbind (fr (ht_tablep ht) m) (\<lambda>m.
           let ht = ht\<lparr>ht_tablep := ht_tablep dummy, ht_table := ht_table dummy,
                 ht_logsize := ht_logsize dummy, ht_realsize := ht_realsize dummy,
                 ht_mask := ht_mask dummy\<rparr> in
           rbind (fr (ht_addr dummy) m) (\<lambda>m. Inr (True, ht, m)))))"

text \<open>
  \<open>hset\<close> and \<open>_hgrow\<close> call each other; the fuel bounds the nesting. A nested table has a
  larger \<open>logsize\<close> and \<open>htcreate\<close> cannot pass 30, so 32 is enough (\<open>hset_total\<close>).
\<close>

fun hset_fuel :: "nat \<Rightarrow> 'm mallocf \<Rightarrow> 'm freef \<Rightarrow> 'm hsetf" where
  "hset_fuel 0 ml fr ht key klen val m = Inl Diverges"
| "hset_fuel (Suc n) ml fr ht key klen val m =
     rbind (hput ml fr ht key klen val m) (\<lambda>(r, ht, m).
     if r \<noteq> HSUCCESS then Inr (r, ht, m)
     else if crowded ht then
       rbind (hgrow (hset_fuel n ml fr) ml fr ht m) (\<lambda>(ok, ht, m).
         Inr (if ok then HSUCCESS else HERROR, ht, m))
     else Inr (HSUCCESS, ht, m))"

definition hset :: "'m mallocf \<Rightarrow> 'm freef \<Rightarrow> 'm hsetf" where
  "hset ml fr = hset_fuel 32 ml fr"

subsection \<open>Enumerating, counting, releasing\<close>

text \<open>
  \<open>henum\<close> with a callback on the item and a state of the caller's; it stops when the callback
  returns true. The chains themselves do not change under the callbacks of the server.
\<close>

fun henum_chain :: "(hitem \<Rightarrow> 's \<Rightarrow> (bool \<times> 's) res) \<Rightarrow> bool \<Rightarrow> hitem list \<Rightarrow> 's \<Rightarrow> (bool \<times> 's) res" where
  "henum_chain fn enum_free [] s = Inr (False, s)"
| "henum_chain fn enum_free (p # ps) s =
     (if \<not> hi_free p \<or> enum_free then
        rbind (fn p s) (\<lambda>(rc, s). if rc then Inr (True, s) else henum_chain fn enum_free ps s)
      else henum_chain fn enum_free ps s)"

fun henum_table :: "(hitem \<Rightarrow> 's \<Rightarrow> (bool \<times> 's) res) \<Rightarrow> bool \<Rightarrow> bucket list \<Rightarrow> 's \<Rightarrow> 's res" where
  "henum_table fn enum_free [] s = Inr s"
| "henum_table fn enum_free (Dangling # bs) s = Inl Use_after_free"
| "henum_table fn enum_free (Chain ps # bs) s =
     rbind (henum_chain fn enum_free ps s) (\<lambda>(rc, s).
       if rc then Inr s else henum_table fn enum_free bs s)"

definition henum :: "htab \<Rightarrow> (hitem \<Rightarrow> 's \<Rightarrow> (bool \<times> 's) res) \<Rightarrow> bool \<Rightarrow> 's \<Rightarrow> 's res" where
  "henum ht fn enum_free s = henum_table fn enum_free (ht_table ht) s"

definition hcount :: "htab \<Rightarrow> int" where
  "hcount ht = ht_count ht - ht_freecount ht"

definition hfree :: "htab \<Rightarrow> hitem \<Rightarrow> htab" where
  "hfree ht item =
     (if \<not> hi_free item then
        (hupd (hi_addr item) (\<lambda>p. p\<lparr>hi_free := True\<rparr>) ht)\<lparr>ht_freecount := ht_freecount ht + 1\<rparr>
      else ht)"

end
