(* ===== verification/Util.thy ===== *)
theory Util
  imports Hashtab
begin

text \<open>
  \<open>src/util.c\<close>: the byte order of 64-bit values and the parser of unsigned decimals that
  settings, timeouts and the command line go through. \<open>strtoull\<close> of the C library is
  modelled in base 10, byte by byte. The daemon and signal code is in theory Daemon.
\<close>

subsection \<open>Byte order\<close>

text \<open>The loop of \<open>li_swap64\<close> with \<open>n\<close> rounds left; \<open>le\<close> is \<open>LC_LITTLE_ENDIAN\<close>.\<close>

primrec swap_loop :: "nat \<Rightarrow> 64 word \<Rightarrow> 64 word \<Rightarrow> 64 word" where
  "swap_loop 0 rv x = rv"
| "swap_loop (Suc n) rv x = swap_loop n (push_bit 8 rv OR (x AND 0xff)) (drop_bit 8 x)"

definition li_swap64 :: "bool \<Rightarrow> 64 word \<Rightarrow> 64 word" where
  "li_swap64 le x = (if le then swap_loop 8 0 x else x)"

definition ntohll :: "bool \<Rightarrow> 64 word \<Rightarrow> 64 word" where
  "ntohll le val = li_swap64 le val"

definition htonll :: "bool \<Rightarrow> 64 word \<Rightarrow> 64 word" where
  "htonll le val = li_swap64 le val"

text \<open>The eight bytes of a value in the memory of a host, in address order.\<close>

definition mem_bytes64 :: "bool \<Rightarrow> 64 word \<Rightarrow> byte list" where
  "mem_bytes64 le x = map (\<lambda>i. ucast (drop_bit (if le then 8 * i else 56 - 8 * i) x)) [0..<8]"

lemma bit_0xff: "bit (0xff :: 'a::len word) n \<longleftrightarrow> n < 8 \<and> n < LENGTH('a)"
proof -
  have "(0xff :: 'a word) = mask 8" by (simp add: mask_eq_exp_minus_1)
  then show ?thesis by (simp only: bit_mask_iff) (auto simp: min_def)
qed

lemma swap_loop_bit:
  "n \<le> 8 \<Longrightarrow> bit (swap_loop n rv x) k \<longleftrightarrow>
     k < 64 \<and> (if k < 8 * n then bit x (8 * (n - 1 - k div 8) + k mod 8) else bit rv (k - 8 * n))"
proof (induction n arbitrary: rv x)
  case 0
  then show ?case using bit_imp_le_length [of rv k] by auto
next
  case (Suc n)
  let ?rv = "push_bit 8 rv OR (x AND 0xff)"
  have IH: "bit (swap_loop n ?rv (drop_bit 8 x)) k \<longleftrightarrow>
     k < 64 \<and> (if k < 8 * n then bit (drop_bit 8 x) (8 * (n - 1 - k div 8) + k mod 8) else bit ?rv (k - 8 * n))"
    using Suc by simp
  have rv: "bit ?rv m = (if m < 8 then bit x m else bit rv (m - 8))" if "m < 64" for m
    using that by (simp only: bit_or_iff bit_and_iff bit_0xff bit_push_bit_iff possible_bit_word) auto
  consider "k < 8 * n" | "8 * n \<le> k" "k < 8 * Suc n" | "8 * Suc n \<le> k" by linarith
  then show ?case
  proof cases
    case 1
    then have "k div 8 < n" by (simp add: div_less_iff_less_mult mult.commute)
    then have e: "8 + (8 * (n - 1 - k div 8) + k mod 8) = 8 * (Suc n - 1 - k div 8) + k mod 8" by auto
    have "bit (drop_bit 8 x) (8 * (n - 1 - k div 8) + k mod 8) = bit x (8 * (Suc n - 1 - k div 8) + k mod 8)"
      by (simp only: bit_drop_bit_eq comp_def e)
    then show ?thesis using IH 1 by simp
  next
    case 2
    then have "k div 8 = n" by (simp add: div_nat_eqI)
    moreover have "k - 8 * n = k mod 8" using minus_mult_div_eq_mod [of k 8] calculation by simp
    ultimately show ?thesis using IH 2 by (auto simp: rv)
  next
    case 3
    then have g: "\<not> k - 8 * n < 8" "k - 8 * n - 8 = k - 8 * Suc n" by auto
    have "bit ?rv (k - 8 * n) = bit rv (k - 8 * Suc n)" if "k < 64" using rv [of "k - 8 * n"] that g by auto
    then show ?thesis using IH 3 by auto
  qed
qed

lemma bit_swap64: "bit (li_swap64 True x) k \<longleftrightarrow> k < 64 \<and> bit x (8 * (7 - k div 8) + k mod 8)"
  by (auto simp: li_swap64_def swap_loop_bit)

text \<open>The bytes in memory after \<open>htonll\<close>, and swapping twice.\<close>

lemma network_bytes:
  "mem_bytes64 le (htonll le x) = map (\<lambda>i. ucast (drop_bit (56 - 8 * i) x)) [0..<8] \<and>
   ntohll le (htonll le x) = x"
proof (cases le)
  case False
  then show ?thesis by (simp add: htonll_def ntohll_def li_swap64_def mem_bytes64_def)
next
  case True
  have "(ucast (drop_bit (8 * i) (li_swap64 True x)) :: byte) = ucast (drop_bit (56 - 8 * i) x)" if i: "i < 8" for i
  proof (rule bit_word_eqI)
    fix k assume "k < LENGTH(8)"
    then have k: "k < 8" by simp
    have d: "(8 * i + k) div 8 = i" "(8 * i + k) mod 8 = k" using k by simp_all
    have "8 * (7 - i) + k = 56 - 8 * i + k" using i by simp
    then show "bit (ucast (drop_bit (8 * i) (li_swap64 True x)) :: byte) k = bit (ucast (drop_bit (56 - 8 * i) x) :: byte) k"
      using k i by (simp add: bit_simps bit_swap64 d)
  qed
  moreover have "li_swap64 True (li_swap64 True x) = x"
  proof (rule bit_word_eqI)
    fix k assume "k < LENGTH(64)"
    then have k: "k < 64" by simp
    let ?j = "8 * (7 - k div 8) + k mod 8"
    have a: "k div 8 < 8" using k by simp
    have "?j div 8 = 7 - k div 8" "?j mod 8 = k mod 8" by simp_all
    then have "8 * (7 - ?j div 8) + ?j mod 8 = 8 * (k div 8) + k mod 8" using a by simp
    moreover have "?j < 64" using mod_less_divisor [of 8 k] a by linarith
    ultimately show "bit (li_swap64 True (li_swap64 True x)) k = bit x k" using k by (simp add: bit_swap64)
  qed
  ultimately show ?thesis using True by (simp add: htonll_def ntohll_def mem_bytes64_def)
qed

text \<open>
  C32: what \<open>htonll\<close> leaves in memory is the value with its most significant byte first, on
  hosts of both byte orders, and \<open>ntohll\<close> takes it back.
\<close>

theorem htonll_network_order:
  "mem_bytes64 le (htonll le x) = map (\<lambda>i. ucast (drop_bit (56 - 8 * i) x)) [0..<8] \<and>
   ntohll le (htonll le x) = x"
  by (rule network_bytes)

subsection \<open>Unsigned decimals\<close>

definition isspace :: "byte \<Rightarrow> bool" where
  "isspace c \<longleftrightarrow> c = 32 \<or> 9 \<le> c \<and> c \<le> 13"

definition isdigit :: "byte \<Rightarrow> bool" where
  "isdigit c \<longleftrightarrow> 48 \<le> c \<and> c \<le> 57"

fun skip_space :: "byte list \<Rightarrow> byte list" where
  "skip_space [] = []"
| "skip_space (c # cs) = (if isspace c then skip_space cs else c # cs)"

text \<open>The digits at the front; a buffer that ends before another byte is read past its end.\<close>

fun scan_digits :: "byte list \<Rightarrow> nat \<Rightarrow> nat res" where
  "scan_digits [] acc = Inl Out_of_bounds"
| "scan_digits (c # cs) acc = (if isdigit c then scan_digits cs (10 * acc + (unat c - 48)) else Inr acc)"

text \<open>
  \<open>strtoull(s, NULL, 10)\<close>: the value and whether \<open>errno\<close> is \<open>ERANGE\<close>. A minus sign negates
  the value in \<open>unsigned long long\<close>.
\<close>

definition strtoull :: "cptr \<Rightarrow> (nat \<times> bool) res" where
  "strtoull s =
     (case s of
        None \<Rightarrow> Inl Null_deref
      | Some b \<Rightarrow>
          (case skip_space b of
             [] \<Rightarrow> Inl Out_of_bounds
           | c # cs \<Rightarrow>
               rbind (scan_digits (if c = 43 \<or> c = 45 then cs else c # cs) 0) (\<lambda>n.
                 if 2 ^ 64 \<le> n then Inr (2 ^ 64 - 1, True)
                 else Inr (if c = 45 then u64 (2 ^ 64 - n) else n, False))))"

text \<open>\<open>atoull\<close>: \<open>None\<close> is the return value 0, \<open>Some v\<close> is 1 with \<open>*ret = v\<close>.\<close>

definition atoull :: "cptr \<Rightarrow> nat option res" where
  "atoull s =
     rbind (strtoull s) (\<lambda>(v, erange).
       if erange then Inr None else if v = 0 then Inr None else Inr (Some v))"

lemma scan_digits_stops: "0 \<in> set xs \<Longrightarrow> \<exists>n. scan_digits xs acc = Inr n"
  by (induction xs arbitrary: acc) (auto simp: isdigit_def)

lemma skip_space_stops: "0 \<in> set xs \<Longrightarrow> 0 \<in> set (skip_space xs)"
  by (induction xs) (auto simp: isspace_def)

text \<open>On a string that ends with a 0 \<open>atoull\<close> returns.\<close>

lemma atoull_total:
  assumes "0 \<in> set xs"
  shows "\<exists>v. atoull (Some xs) = Inr v"
proof -
  obtain c cs where c: "skip_space xs = c # cs" "0 \<in> set (c # cs)"
    using skip_space_stops [OF assms] by (cases "skip_space xs") auto
  then have "0 \<in> set (if c = 43 \<or> c = 45 then cs else c # cs)" by auto
  then obtain n where "scan_digits (if c = 43 \<or> c = 45 then cs else c # cs) 0 = Inr n"
    using scan_digits_stops by metis
  then show ?thesis using c(1) by (simp add: atoull_def strtoull_def)
qed

text \<open>The number that a list of digits denotes.\<close>

definition decimal :: "byte list \<Rightarrow> nat" where
  "decimal ds = foldl (\<lambda>a c. 10 * a + (unat c - 48)) 0 ds"

lemma scan_digits_run:
  "list_all isdigit ds \<Longrightarrow> \<not> isdigit c \<Longrightarrow>
   scan_digits (ds @ c # cs) acc = Inr (foldl (\<lambda>a c. 10 * a + (unat c - 48)) acc ds)"
  by (induction ds arbitrary: acc) auto

lemma skip_space_run:
  "list_all isspace ws \<Longrightarrow> cs = [] \<or> \<not> isspace (hd cs) \<Longrightarrow> skip_space (ws @ cs) = cs"
proof (induction ws)
  case Nil
  then show ?case by (cases cs) auto
qed simp

lemma not_space [simp]: "isdigit c \<Longrightarrow> \<not> isspace c"
  by (simp add: isdigit_def isspace_def word_le_nat_alt) (auto simp: word_le_nat_alt)

lemma sign_not_digit [simp]: "isdigit c \<Longrightarrow> c \<noteq> 43 \<and> c \<noteq> 45"
  by (auto simp: isdigit_def word_le_nat_alt)

text \<open>
  C33: \<open>atoull\<close> on white space, an optional minus sign, at least one digit and any byte that
  is not a digit: a plain number is accepted exactly when it is not 0 and fits 64 bits, what
  follows the digits is ignored, and a negative number is accepted as its two's complement.
\<close>

theorem atoull_decimal:
  assumes "list_all isspace ws" and "list_all isdigit ds" and "ds \<noteq> []" and "\<not> isdigit t"
  shows "atoull (Some (ws @ ds @ t # rest)) =
      Inr (if decimal ds = 0 \<or> 2 ^ 64 \<le> decimal ds then None else Some (decimal ds)) \<and>
    atoull (Some (ws @ 45 # ds @ t # rest)) =
      Inr (if decimal ds = 0 \<or> 2 ^ 64 \<le> decimal ds then None else Some (2 ^ 64 - decimal ds))"
proof -
  obtain d ds' where ds: "ds = d # ds'" using assms(3) by (cases ds) auto
  have d: "isdigit d" using assms(2) ds by simp
  have s: "skip_space (ws @ ds @ t # rest) = ds @ t # rest" "skip_space (ws @ 45 # ds @ t # rest) = 45 # ds @ t # rest"
    using skip_space_run [OF assms(1), of "ds @ t # rest"] skip_space_run [OF assms(1), of "45 # ds @ t # rest"]
      not_space [OF d] by (simp_all add: ds) (simp add: isspace_def)
  have n: "scan_digits (ds @ t # rest) 0 = Inr (decimal ds)"
    using scan_digits_run [OF assms(2,4)] by (simp add: decimal_def)
  have a: "strtoull (Some (ws @ ds @ t # rest)) =
      Inr (if 2 ^ 64 \<le> decimal ds then (2 ^ 64 - 1, True) else (decimal ds, False))"
    using s(1) n d by (simp add: strtoull_def ds)
  have b: "strtoull (Some (ws @ 45 # ds @ t # rest)) =
      Inr (if 2 ^ 64 \<le> decimal ds then (2 ^ 64 - 1, True) else (u64 (2 ^ 64 - decimal ds), False))"
    using s(2) n by (simp add: strtoull_def)
  show ?thesis using a b by (cases "decimal ds = 0") (auto simp: atoull_def u64_def)
qed

theorem atoull_decimal_witness:
  "atoull (Some [32, 55, 50, 0]) = Inr (Some 72) \<and> atoull (Some [32, 45, 49, 0]) = Inr (Some 18446744073709551615)"
proof -
  have "list_all isspace [32]" "list_all isdigit [55, 50]" "list_all isdigit [49]" "\<not> isdigit 0"
    by (simp_all add: isspace_def isdigit_def)
  with atoull_decimal [of "[32]" "[55, 50]" 0 "[]"] atoull_decimal [of "[32]" "[49]" 0 "[]"]
  show ?thesis by (simp add: decimal_def)
qed

end
