(* ===== verification/Protocol.thy ===== *)
theory Protocol
  imports Util
begin

text \<open>
  The data of the server: \<open>src/protocol.h\<close> and \<open>src/lightcache.h\<close>. Headers are kept as the
  bytes that travel; their fields are read and written in the byte order of a little-endian
  host, as the accesses through the unions do there. Requests, buffers and connections live
  at addresses, so that the sharing between a connection, the cache and a response in
  flight is the one of the code.
\<close>

subsection \<open>Enumerations\<close>

datatype conn_states =
    READ_HEADER | READ_KEY | READ_DATA | CONN_CLOSED | CMD_RECEIVED | SEND_HEADER | SEND_DATA
  | READ_EXTRA | CMD_SENT

datatype code_t =
    KEY_NOTEXISTS | INVALID_PARAM | INVALID_STATE | INVALID_PARAM_SIZE | SUCCESS | INVALID_COMMAND
  | OUT_OF_MEMORY

fun code_byte :: "code_t \<Rightarrow> byte" where
  "code_byte KEY_NOTEXISTS = 0"
| "code_byte INVALID_PARAM = 1"
| "code_byte INVALID_STATE = 2"
| "code_byte INVALID_PARAM_SIZE = 3"
| "code_byte SUCCESS = 4"
| "code_byte INVALID_COMMAND = 5"
| "code_byte OUT_OF_MEMORY = 6"

datatype commands =
    CMD_GET | CMD_SET | CMD_CHG_SETTING | CMD_GET_SETTING | CMD_GET_STATS | CMD_DELETE | CMD_FLUSH_ALL

definition command_of :: "byte \<Rightarrow> commands option" where
  "command_of b =
     (if b = 0 then Some CMD_GET else if b = 1 then Some CMD_SET else if b = 2 then Some CMD_CHG_SETTING
      else if b = 3 then Some CMD_GET_SETTING else if b = 4 then Some CMD_GET_STATS
      else if b = 5 then Some CMD_DELETE else if b = 6 then Some CMD_FLUSH_ALL else None)"

datatype socket_state = NEED_MORE | READ_COMPLETED | READ_ERR | SEND_ERR | SEND_COMPLETED | FAILED

datatype event = EVENT_READ | EVENT_WRITE

definition PROTOCOL_MAX_EXTRA_SIZE :: nat where
  "PROTOCOL_MAX_EXTRA_SIZE = 250"

definition PROTOCOL_MAX_KEY_SIZE :: nat where
  "PROTOCOL_MAX_KEY_SIZE = 250"

definition PROTOCOL_MAX_DATA_SIZE :: nat where
  "PROTOCOL_MAX_DATA_SIZE = 1024 + PROTOCOL_MAX_KEY_SIZE"

subsection \<open>Headers\<close>

definition load32 :: "byte list \<Rightarrow> nat \<Rightarrow> nat" where
  "load32 h i = unat (h ! i) + 2 ^ 8 * unat (h ! (i + 1)) + 2 ^ 16 * unat (h ! (i + 2)) + 2 ^ 24 * unat (h ! (i + 3))"

definition store32 :: "nat \<Rightarrow> nat \<Rightarrow> byte list \<Rightarrow> byte list" where
  "store32 i n h = h[i := word_of_nat n, i + 1 := word_of_nat (n div 2 ^ 8),
     i + 2 := word_of_nat (n div 2 ^ 16), i + 3 := word_of_nat (n div 2 ^ 24)]"

text \<open>\<open>ntohl\<close> and \<open>htonl\<close> of a little-endian host.\<close>

definition ntohl :: "nat \<Rightarrow> nat" where
  "ntohl n = 2 ^ 24 * (n mod 2 ^ 8) + 2 ^ 16 * (n div 2 ^ 8 mod 2 ^ 8) + 2 ^ 8 * (n div 2 ^ 16 mod 2 ^ 8)
     + n div 2 ^ 24 mod 2 ^ 8"

definition htonl :: "nat \<Rightarrow> nat" where
  "htonl n = ntohl n"

text \<open>\<open>req_header\<close>: twelve bytes, and its fields.\<close>

definition sizeof_req_header :: nat where
  "sizeof_req_header = 12"

definition rq_opcode :: "byte list \<Rightarrow> byte" where
  "rq_opcode h = h ! 0"

definition key_length :: "byte list \<Rightarrow> nat" where
  "key_length h = unat (h ! 1)"

definition data_length :: "byte list \<Rightarrow> nat" where
  "data_length h = load32 h 4"

definition extra_length :: "byte list \<Rightarrow> nat" where
  "extra_length h = load32 h 8"

text \<open>\<open>resp_header\<close>: eight bytes, two of them padding.\<close>

definition sizeof_resp_header :: nat where
  "sizeof_resp_header = 8"

definition resp_data_length :: "byte list \<Rightarrow> nat" where
  "resp_data_length h = load32 h 4"

subsection \<open>Requests, responses, connections\<close>

text \<open>A NULL pointer is 0.\<close>

type_synonym ptr = nat

record request =
  rq_header :: "byte list"
  rdata :: ptr
  rkey :: ptr
  rextra :: ptr
  rbytes :: nat
  received :: int
  rq_can_free :: bool

record response =
  rs_header :: "byte list"
  sdata :: ptr
  sbytes :: nat
  rs_can_free :: bool

record conn =
  c_addr :: ptr
  c_fd :: int
  c_listening :: bool
  c_free :: bool
  last_heard :: int
  c_state :: conn_states
  c_in :: ptr
  c_out :: response

definition sizeof_request :: nat where
  "sizeof_request = 64"

definition sizeof_conn :: nat where
  "sizeof_conn = 64"

subsection \<open>Settings and statistics\<close>

text \<open>\<open>mem_avail\<close> and \<open>use_sys_malloc\<close> are in the state of the allocator.\<close>

record settings =
  deamon_mode :: int
  idle_conn_timeout :: nat
  socket_path :: cptr
  fd_limit :: int

record stats =
  start_time :: int
  curr_connections :: nat
  st_cmd_get :: nat
  st_cmd_set :: nat
  get_hits :: nat
  get_misses :: nat
  bytes_read :: nat
  bytes_written :: nat

definition LIGHTCACHE_STATS_SIZE :: nat where
  "LIGHTCACHE_STATS_SIZE = 512"

subsection \<open>Byte order of the lengths\<close>

lemma div_digits: "n div 65536 = n div 256 div (256 :: nat)" "n div 16777216 = n div 256 div 256 div (256 :: nat)"
  by (simp_all add: div_mult2_eq [symmetric])

lemma digits_sum:
  fixes n :: nat
  assumes "n < 4294967296"
  shows "n mod 256 + 256 * (n div 256 mod 256) + 65536 * (n div 65536 mod 256) + 16777216 * (n div 16777216 mod 256) = n"
proof -
  define q where "q = n div 256"
  define r where "r = q div 256"
  define t where "t = r div 256"
  have "256 * q + n mod 256 = n" "256 * r + q mod 256 = q" "256 * t + r mod 256 = r"
    by (simp_all add: q_def r_def t_def)
  moreover have "t < 256" using assms by (simp add: q_def r_def t_def)
  then have "t mod 256 = t" by simp
  ultimately have "n mod 256 + 256 * (q mod 256) + 65536 * (r mod 256) + 16777216 * (t mod 256) = n" by linarith
  then show ?thesis by (simp only: div_digits q_def r_def t_def)
qed

lemma sum_digits:
  fixes a b c d :: nat
  assumes "a < 256" and "b < 256" and "c < 256" and "d < 256"
    and s: "n = a + 256 * b + 65536 * c + 16777216 * d"
  shows "n mod 256 = a" and "n div 256 mod 256 = b" and "n div 65536 mod 256 = c" and "n div 16777216 mod 256 = d"
proof -
  have m: "(x + 256 * y) mod 256 = x" "(x + 256 * y) div 256 = y" if "x < 256" for x y :: nat
    using that by simp_all
  have n: "n = a + 256 * (b + 256 * (c + 256 * d))" by (simp add: s)
  show "n mod 256 = a" "n div 256 mod 256 = b" "n div 65536 mod 256 = c" "n div 16777216 mod 256 = d"
    unfolding div_digits n using assms(1-4) by (simp_all only: m mod_less)
qed

lemma byte_less: "unat (b :: byte) < 256"
  using unsigned_less [of b] by simp

lemma load32_less: "load32 h i < 2 ^ 32"
  using byte_less [of "h ! i"] byte_less [of "h ! (i + 1)"] byte_less [of "h ! (i + 2)"]
    byte_less [of "h ! (i + 3)"] by (simp add: load32_def)

lemma length_store32 [simp]: "length (store32 i n h) = length h"
  by (simp add: store32_def)

lemma load_store32:
  assumes "i + 3 < length h" and "n < 2 ^ 32"
  shows "load32 (store32 i n h) i = n"
proof -
  have u: "unat (word_of_nat k :: byte) = k mod 256" for k by (simp add: unat_of_nat)
  show ?thesis using assms digits_sum [of n] by (simp add: load32_def store32_def nth_list_update u)
qed

lemma nth_store32_other:
  "j < i \<or> i + 3 < j \<Longrightarrow> store32 i n h ! j = h ! j"
  by (auto simp: store32_def)

lemma load_store32_other:
  assumes "i + 3 < j \<or> j + 3 < i"
  shows "load32 (store32 i n h) j = load32 h j"
proof -
  have "store32 i n h ! (j + k) = h ! (j + k)" if "k \<le> 3" for k
    using assms that by (intro nth_store32_other) auto
  from this [of 0] this [of 1] this [of 2] this [of 3] show ?thesis by (simp add: load32_def)
qed

text \<open>The value that four bytes denote in network order.\<close>

definition be32 :: "byte list \<Rightarrow> nat \<Rightarrow> nat" where
  "be32 h i = 2 ^ 24 * unat (h ! i) + 2 ^ 16 * unat (h ! (i + 1)) + 2 ^ 8 * unat (h ! (i + 2)) + unat (h ! (i + 3))"

lemma ntohl_load32: "ntohl (load32 h i) = be32 h i"
proof -
  have "load32 h i = unat (h ! i) + 256 * unat (h ! (i + 1)) + 65536 * unat (h ! (i + 2)) + 16777216 * unat (h ! (i + 3))"
    by (simp add: load32_def)
  note d = sum_digits [OF byte_less byte_less byte_less byte_less this]
  show ?thesis unfolding ntohl_def be32_def using d by simp
qed

lemma ntohl_less: "ntohl n < 2 ^ 32"
proof -
  have "n mod 256 < 256" "n div 256 mod 256 < 256" "n div 65536 mod 256 < 256" "n div 16777216 mod 256 < 256"
    by simp_all
  then show ?thesis by (simp add: ntohl_def)
qed

lemma ntohl_htonl:
  assumes "n < 2 ^ 32"
  shows "ntohl (htonl n) = n"
proof -
  have b: "n mod 256 < 256" "n div 256 mod 256 < 256" "n div 65536 mod 256 < 256" "n div 16777216 mod 256 < 256"
    by simp_all
  define m where "m = htonl n"
  have "m = n div 16777216 mod 256 + 256 * (n div 65536 mod 256) + 65536 * (n div 256 mod 256) + 16777216 * (n mod 256)"
    by (simp add: m_def htonl_def ntohl_def)
  note d = sum_digits [OF b(4,3,2,1) this]
  have "ntohl m = 16777216 * (m mod 256) + 65536 * (m div 256 mod 256) + 256 * (m div 65536 mod 256) + m div 16777216 mod 256"
    by (simp add: ntohl_def)
  also have "\<dots> = n" using digits_sum [of n] assms unfolding d by simp
  finally show ?thesis by (simp add: m_def)
qed

lemma store32_htonl:
  assumes "i + 3 < length h" and "n < 2 ^ 32"
  shows "be32 (store32 i (htonl n) h) i = n"
proof -
  have "htonl n < 2 ^ 32" unfolding htonl_def by (rule ntohl_less)
  with assms(1) have "load32 (store32 i (htonl n) h) i = htonl n" by (rule load_store32)
  then show ?thesis using ntohl_load32 [of "store32 i (htonl n) h" i] ntohl_htonl [OF assms(2)] by simp
qed

end
