(* ===== verification/Hashtab_Inv.thy ===== *)
theory Hashtab_Inv
  imports Hashtab
begin

text \<open>
  The invariant of a hash table and its abstract view, the map from keys to values. Keys are
  C strings: the bytes before the terminating 0, none of which is 0. The invariant includes
  that in chain order no item with the key of an earlier live item follows it; this is what
  makes \<open>_hgrow\<close> never meet \<open>HEXISTS\<close> while it moves items that were released.
\<close>

subsection \<open>Keys\<close>

definition key_ok :: "cptr \<Rightarrow> nat \<Rightarrow> bool" where
  "key_ok key n \<longleftrightarrow>
     (case key of None \<Rightarrow> False | Some k \<Rightarrow> n < length k \<and> k ! n = 0 \<and> 0 \<notin> set (take n k))"

definition key_str :: "cptr \<Rightarrow> nat \<Rightarrow> byte list" where
  "key_str key n = take n (the key)"

definition hkey :: "hitem \<Rightarrow> byte list" where
  "hkey p = take (hi_klen p) (hi_key p)"

definition item_ok :: "hitem \<Rightarrow> bool" where
  "item_ok p \<longleftrightarrow> hi_keyp p \<noteq> 0 \<and> key_ok (Some (hi_key p)) (hi_klen p)"

lemma item_key_ok: "item_ok p \<Longrightarrow> key_ok (item_key p) (hi_klen p) \<and> key_str (item_key p) (hi_klen p) = hkey p"
  by (simp add: item_ok_def item_key_def key_str_def hkey_def)

lemma strcmp_bytes_keys:
  "0 \<notin> set xs \<Longrightarrow> 0 \<notin> set ys \<Longrightarrow> strcmp_bytes (xs @ 0 # us) (ys @ 0 # vs) = Inr (xs = ys)"
proof (induction xs arbitrary: ys)
  case Nil
  then show ?case by (cases ys) auto
next
  case (Cons x xs)
  then show ?case by (cases ys) auto
qed

lemma key_ok_split:
  assumes "key_ok key n"
  obtains us where "key = Some (key_str key n @ 0 # us)" and "0 \<notin> set (key_str key n)"
    and "length (key_str key n) = n"
proof -
  obtain k where k: "key = Some k" "n < length k" "k ! n = 0" "0 \<notin> set (take n k)"
    using assms by (auto simp: key_ok_def split: option.splits)
  then have "k = take n k @ 0 # drop (Suc n) k" by (metis id_take_nth_drop)
  with k that [of "drop (Suc n) k"] show thesis by (simp add: key_str_def)
qed

lemma strcmp_eq_keys:
  assumes "key_ok a n" and "key_ok b k"
  shows "strcmp_eq a b = Inr (key_str a n = key_str b k)"
proof -
  obtain us where a: "a = Some (key_str a n @ 0 # us)" "0 \<notin> set (key_str a n)"
    using key_ok_split [OF assms(1)] by metis
  obtain vs where b: "b = Some (key_str b k @ 0 # vs)" "0 \<notin> set (key_str b k)"
    using key_ok_split [OF assms(2)] by metis
  show ?thesis by (subst a(1), subst b(1)) (simp add: strcmp_bytes_keys a(2) b(2))
qed

lemma strcmp_item: "item_ok p \<Longrightarrow> key_ok key n \<Longrightarrow> strcmp_eq (item_key p) key = Inr (hkey p = key_str key n)"
  using item_key_ok strcmp_eq_keys by metis

definition hidx :: "nat \<Rightarrow> byte list \<Rightarrow> nat" where
  "hidx msk k = unat (hash_final (foldl hash_step 0 k) AND word_of_nat msk)"

lemma HHASH_key: "key_ok key n \<Longrightarrow> HHASH msk key n = Inr (hidx msk (key_str key n))"
  by (auto simp: HHASH_def key_ok_def key_str_def hidx_def split: option.splits)

lemma hidx_less:
  assumes "n < 32"
  shows "hidx (2 ^ n - 1) k < 2 ^ n"
proof -
  have "(word_of_nat (2 ^ n - 1) :: 32 word) = mask n"
    by (simp add: mask_eq_exp_minus_1 of_nat_diff)
  then have "hidx (2 ^ n - 1) k = unat (take_bit n (hash_final (foldl hash_step 0 k)))"
    by (simp add: hidx_def take_bit_eq_mask)
  also have "\<dots> < 2 ^ n" by (simp add: unsigned_take_bit_eq)
  finally show ?thesis .
qed

subsection \<open>Items and the view\<close>

fun chain_items :: "bucket \<Rightarrow> hitem list" where
  "chain_items (Chain ps) = ps"
| "chain_items Dangling = []"

definition items :: "htab \<Rightarrow> hitem list" where
  "items ht = concat (map chain_items (ht_table ht))"

definition hit :: "byte list \<Rightarrow> hitem \<Rightarrow> bool" where
  "hit k p \<longleftrightarrow> \<not> hi_free p \<and> hkey p = k"

definition lview :: "hitem list \<Rightarrow> byte list \<Rightarrow> nat option" where
  "lview ps k = map_option hi_val (find (hit k) ps)"

definition hview :: "htab \<Rightarrow> byte list \<Rightarrow> nat option" where
  "hview ht = lview (items ht)"

definition key_order :: "hitem list \<Rightarrow> bool" where
  "key_order = sorted_wrt (\<lambda>p q. \<not> hi_free p \<longrightarrow> hkey p \<noteq> hkey q)"

definition tab_ok :: "htab \<Rightarrow> bool" where
  "tab_ok ht \<longleftrightarrow> ht_logsize ht \<le> 17 \<and> ht_realsize ht = 2 ^ ht_logsize ht \<and>
     ht_mask ht = ht_realsize ht - 1 \<and> length (ht_table ht) = ht_realsize ht \<and>
     Dangling \<notin> set (ht_table ht) \<and>
     (\<forall>h < length (ht_table ht). \<forall>p \<in> set (chain_items (ht_table ht ! h)). hidx (ht_mask ht) (hkey p) = h) \<and>
     (\<forall>p \<in> set (items ht). item_ok p) \<and> key_order (items ht)"

definition item_addrs :: "hitem list \<Rightarrow> nat list" where
  "item_addrs ps = concat (map (\<lambda>p. [hi_addr p, hi_keyp p]) ps)"

definition owned :: "htab \<Rightarrow> nat list" where
  "owned ht = ht_addr ht # ht_tablep ht # item_addrs (items ht)"

text \<open>The values that released items still carry.\<close>

definition fvals :: "hitem list \<Rightarrow> nat set" where
  "fvals ps = hi_val ` {p \<in> set ps. hi_free p}"

lemma fvals_simps [simp]:
  "fvals [] = {}" "fvals (p # ps) = (if hi_free p then insert (hi_val p) (fvals ps) else fvals ps)"
  "fvals (xs @ ys) = fvals xs \<union> fvals ys"
  by (auto simp: fvals_def)

lemma item_addrs_simps [simp]:
  "item_addrs [] = []" "item_addrs (p # ps) = hi_addr p # hi_keyp p # item_addrs ps"
  "item_addrs (xs @ ys) = item_addrs xs @ item_addrs ys"
  by (simp_all add: item_addrs_def)

lemma item_addrs_in: "p \<in> set ps \<Longrightarrow> hi_addr p \<in> set (item_addrs ps) \<and> hi_keyp p \<in> set (item_addrs ps)"
  by (auto simp: item_addrs_def)

lemma count_frame [simp]:
  "items (ht\<lparr>ht_freecount := x\<rparr>) = items ht" "items (ht\<lparr>ht_count := x\<rparr>) = items ht"
  "tab_ok (ht\<lparr>ht_freecount := x\<rparr>) = tab_ok ht" "tab_ok (ht\<lparr>ht_count := x\<rparr>) = tab_ok ht"
  "owned (ht\<lparr>ht_freecount := x\<rparr>) = owned ht" "owned (ht\<lparr>ht_count := x\<rparr>) = owned ht"
  "hview (ht\<lparr>ht_freecount := x\<rparr>) = hview ht" "hview (ht\<lparr>ht_count := x\<rparr>) = hview ht"
  by (simp_all add: items_def tab_ok_def owned_def hview_def)

lemma lview_append: "lview (xs @ ys) k = (case lview xs k of None \<Rightarrow> lview ys k | Some v \<Rightarrow> Some v)"
  by (induction xs) (auto simp: lview_def)

lemma lview_Cons: "lview (p # ps) k = (if hit k p then Some (hi_val p) else lview ps k)"
  by (simp add: lview_def)

lemma lview_Nil [simp]: "lview [] k = None"
  by (simp add: lview_def)

lemma lview_None_iff: "lview ps k = None \<longleftrightarrow> (\<forall>p \<in> set ps. \<not> hit k p)"
  by (auto simp: lview_def find_None_iff)

lemma finite_lview: "finite (dom (lview ps))"
proof -
  have "dom (lview ps) \<subseteq> hkey ` set ps"
  proof
    fix k assume "k \<in> dom (lview ps)"
    then have "lview ps k \<noteq> None" by auto
    then obtain p where "p \<in> set ps" "hit k p" unfolding lview_None_iff by blast
    then show "k \<in> hkey ` set ps" by (auto simp: hit_def)
  qed
  then show ?thesis by (rule finite_subset) simp
qed

lemma key_order_append:
  "key_order (xs @ ys) \<longleftrightarrow> key_order xs \<and> key_order ys \<and>
     (\<forall>p \<in> set xs. \<forall>q \<in> set ys. \<not> hi_free p \<longrightarrow> hkey p \<noteq> hkey q)"
  by (simp add: key_order_def sorted_wrt_append)

lemma key_order_Cons:
  "key_order (p # ps) \<longleftrightarrow> (\<forall>q \<in> set ps. \<not> hi_free p \<longrightarrow> hkey p \<noteq> hkey q) \<and> key_order ps"
  by (simp add: key_order_def)

lemma key_order_Nil [simp]: "key_order []"
  by (simp add: key_order_def)

subsection \<open>One bucket of a table\<close>

lemma items_split:
  assumes h: "h < length (ht_table ht)"
  shows "\<exists>A B. items ht = A @ chain_items (ht_table ht ! h) @ B \<and>
    (\<forall>b. items (ht\<lparr>ht_table := (ht_table ht)[h := b]\<rparr>) = A @ chain_items b @ B) \<and>
    (\<forall>p \<in> set A \<union> set B. \<exists>j < length (ht_table ht). j \<noteq> h \<and> p \<in> set (chain_items (ht_table ht ! j)))"
proof (intro exI conjI)
  let ?A = "concat (map chain_items (take h (ht_table ht)))"
  let ?B = "concat (map chain_items (drop (Suc h) (ht_table ht)))"
  have t: "ht_table ht = take h (ht_table ht) @ ht_table ht ! h # drop (Suc h) (ht_table ht)"
    using h by (rule id_take_nth_drop)
  show "items ht = ?A @ chain_items (ht_table ht ! h) @ ?B"
    by (subst items_def, subst t) simp
  show "\<forall>b. items (ht\<lparr>ht_table := (ht_table ht)[h := b]\<rparr>) = ?A @ chain_items b @ ?B"
    by (simp add: items_def upd_conv_take_nth_drop [OF h])
  show "\<forall>p \<in> set ?A \<union> set ?B. \<exists>j < length (ht_table ht). j \<noteq> h \<and> p \<in> set (chain_items (ht_table ht ! j))"
  proof
    fix p assume "p \<in> set ?A \<union> set ?B"
    then consider b where "b \<in> set (take h (ht_table ht))" "p \<in> set (chain_items b)"
      | b where "b \<in> set (drop (Suc h) (ht_table ht))" "p \<in> set (chain_items b)" by auto
    then show "\<exists>j < length (ht_table ht). j \<noteq> h \<and> p \<in> set (chain_items (ht_table ht ! j))"
    proof cases
      case 1
      then obtain j where "j < h" "ht_table ht ! j = b" using h by (auto simp: in_set_conv_nth)
      with 1 h show ?thesis by (intro exI [of _ j]) auto
    next
      case 2
      then obtain j where "j < length (drop (Suc h) (ht_table ht))" "drop (Suc h) (ht_table ht) ! j = b"
        unfolding in_set_conv_nth by blast
      then have "Suc h + j < length (ht_table ht)" "ht_table ht ! (Suc h + j) = b" by simp_all
      with 2 show ?thesis by (intro exI [of _ "Suc h + j"]) auto
    qed
  qed
qed

text \<open>A table seen from bucket \<open>h\<close>: \<open>A\<close> and \<open>B\<close> are the items before and after it.\<close>

definition around :: "htab \<Rightarrow> nat \<Rightarrow> hitem list \<Rightarrow> hitem list \<Rightarrow> hitem list \<Rightarrow> bool" where
  "around ht h A ps B \<longleftrightarrow> h < length (ht_table ht) \<and> ht_table ht ! h = Chain ps \<and> items ht = A @ ps @ B \<and>
     (\<forall>qs. items (ht\<lparr>ht_table := (ht_table ht)[h := Chain qs]\<rparr>) = A @ qs @ B) \<and>
     (\<forall>p \<in> set A \<union> set B. hidx (ht_mask ht) (hkey p) \<noteq> h)"

lemma around_ex:
  assumes ok: "tab_ok ht" and h: "h < length (ht_table ht)"
  obtains A ps B where "around ht h A ps B" and "bucket_at ht h = Inr ps"
proof -
  have "Dangling \<notin> set (ht_table ht)" using ok by (simp add: tab_ok_def)
  then have "ht_table ht ! h \<noteq> Dangling" using nth_mem [OF h] by metis
  then obtain ps where ps: "ht_table ht ! h = Chain ps" by (cases "ht_table ht ! h") auto
  obtain A B where AB: "items ht = A @ ps @ B"
    "\<forall>b. items (ht\<lparr>ht_table := (ht_table ht)[h := b]\<rparr>) = A @ chain_items b @ B"
    "\<forall>p \<in> set A \<union> set B. \<exists>j < length (ht_table ht). j \<noteq> h \<and> p \<in> set (chain_items (ht_table ht ! j))"
    using items_split [OF h] ps by auto
  have "hidx (ht_mask ht) (hkey p) \<noteq> h" if "p \<in> set A \<union> set B" for p
    using AB(3) that ok unfolding tab_ok_def by metis
  then have "around ht h A ps B" using h ps AB by (simp add: around_def)
  moreover have "bucket_at ht h = Inr ps" using h ps by (simp add: bucket_at_def)
  ultimately show thesis using that by blast
qed

text \<open>Replacing the items of a bucket.\<close>

lemma tab_ok_bucket:
  assumes ok: "tab_ok ht" and ar: "around ht h A ps B"
    and qs: "\<And>p. p \<in> set qs \<Longrightarrow> item_ok p \<and> hidx (ht_mask ht) (hkey p) = h"
    and ord: "key_order (A @ qs @ B)"
  shows "tab_ok (ht\<lparr>ht_table := (ht_table ht)[h := Chain qs]\<rparr>)"
proof -
  let ?t = "(ht_table ht)[h := Chain qs]"
  have h: "h < length (ht_table ht)" using ar by (simp add: around_def)
  have its: "items (ht\<lparr>ht_table := ?t\<rparr>) = A @ qs @ B" using ar by (simp add: around_def)
  have "Dangling \<notin> set ?t" using ok set_update_subset_insert [of "ht_table ht" h "Chain qs"] by (auto simp: tab_ok_def)
  moreover have "hidx (ht_mask ht) (hkey p) = j" if "j < length (ht_table ht)" "p \<in> set (chain_items (?t ! j))" for j p
    using that ok qs h by (cases "j = h") (auto simp: tab_ok_def)
  moreover have "item_ok p" if "p \<in> set (A @ qs @ B)" for p
    using that ok qs ar by (auto simp: tab_ok_def around_def)
  ultimately show ?thesis using ok ord its by (simp add: tab_ok_def)
qed

subsection \<open>Searching\<close>

lemma hget_chain_ok:
  "\<forall>p \<in> set ps. item_ok p \<Longrightarrow> key_ok key n \<Longrightarrow> hget_chain ps key = Inr (find (hit (key_str key n)) ps)"
  by (induction ps) (auto simp: strcmp_item hit_def)

lemma hscan_ok:
  "\<forall>p \<in> set ps. item_ok p \<Longrightarrow> key_ok key n \<Longrightarrow>
   hscan ps key new = Inr (if \<exists>p \<in> set ps. hit (key_str key n) p then None
     else Some (if filter hi_free ps = [] then new else Some (last (filter hi_free ps))))"
  by (induction ps arbitrary: new) (auto simp: strcmp_item hit_def)

lemma last_free_split:
  assumes "filter hi_free ps \<noteq> []"
  obtains xs q ys where "ps = xs @ q # ys" and "last (filter hi_free ps) = q" and "hi_free q"
    and "\<forall>y \<in> set ys. \<not> hi_free y"
proof -
  have "\<exists>p \<in> set ps. hi_free p" using assms by (auto simp: filter_empty_conv)
  then obtain xs q ys where s: "ps = xs @ q # ys" "hi_free q" "\<forall>y \<in> set ys. \<not> hi_free y"
    by (rule split_list_last_propE) blast
  then have "filter hi_free ys = []" by (auto simp: filter_empty_conv)
  then have "last (filter hi_free ps) = q" using s by simp
  with s that show thesis by blast
qed

lemma around_find:
  assumes "around ht h A ps B" and "hidx (ht_mask ht) k = h"
  shows "find (hit k) (items ht) = find (hit k) ps"
proof -
  have none: "\<not> hit k p" if "p \<in> set A \<union> set B" for p
    using assms that by (auto simp: around_def hit_def)
  have "find (hit k) (A @ ps @ B) = find (hit k) ps"
  proof -
    have "find (hit k) (zs @ ws) = find (hit k) ws" if "\<forall>p \<in> set zs. \<not> hit k p" for zs ws
      using that by (induction zs) auto
    moreover have "find (hit k) (ps @ B) = find (hit k) ps"
      using none by (induction ps) (auto simp: find_None_iff)
    ultimately show ?thesis using none by simp
  qed
  then show ?thesis using assms(1) by (simp add: around_def)
qed

lemma tab_hidx_less: "tab_ok ht \<Longrightarrow> hidx (ht_mask ht) k < length (ht_table ht)"
  using hidx_less [of "ht_logsize ht" k] by (simp add: tab_ok_def)

lemma hget_ok:
  assumes ok: "tab_ok ht" and key: "key_ok key n"
  shows "hget ht key n = Inr (find (hit (key_str key n)) (items ht))"
proof -
  define h where "h = hidx (ht_mask ht) (key_str key n)"
  obtain A ps B where ar: "around ht h A ps B" and b: "bucket_at ht h = Inr ps"
    using around_ex [OF ok tab_hidx_less [OF ok]] unfolding h_def by blast
  have "\<forall>p \<in> set ps. item_ok p" using ok ar by (auto simp: tab_ok_def around_def)
  then show ?thesis
    using HHASH_key [OF key] b hget_chain_ok [OF _ key] around_find [OF ar] by (simp add: hget_def h_def)
qed

lemma hget_view:
  assumes "tab_ok ht" and "key_ok key n"
  shows "\<exists>r. hget ht key n = Inr r \<and> map_option hi_val r = hview ht (key_str key n)"
  using hget_ok [OF assms] by (simp add: hview_def lview_def)

subsection \<open>Writing to one item\<close>

lemma distinct_addr_inj:
  "distinct (item_addrs ps) \<Longrightarrow> inj_on hi_addr (set ps)"
proof (induction ps)
  case (Cons p ps)
  have "hi_addr p \<noteq> hi_addr q" if "q \<in> set ps" for q using Cons.prems item_addrs_in [OF that] by auto
  then have "hi_addr p \<notin> hi_addr ` set ps" by blast
  then show ?case using Cons by auto
qed simp

lemma items_hupd: "items (hupd a f ht) = map (item_upd a f) (items ht)"
proof -
  have "chain_items (bucket_upd a f b) = map (item_upd a f) (chain_items b)" for b by (cases b) auto
  then show ?thesis by (simp add: items_def hupd_def map_concat comp_def)
qed

lemma items_hupd_split:
  assumes "items ht = xs @ q # ys" and "distinct (owned ht)"
  shows "items (hupd (hi_addr q) f ht) = xs @ f q # ys"
proof -
  have d: "hi_addr p \<noteq> hi_addr q" if "p \<in> set xs \<union> set ys" for p
    using assms that item_addrs_in [of p] by (auto simp: owned_def)
  have "map (item_upd (hi_addr q) f) zs = zs" if "set zs \<subseteq> set xs \<union> set ys" for zs
    using d that by (intro map_idI) (auto simp: item_upd_def)
  then show ?thesis using assms(1) by (simp add: items_hupd item_upd_def)
qed

lemma hupd_frame [simp]:
  "ht_logsize (hupd a f ht) = ht_logsize ht" "ht_realsize (hupd a f ht) = ht_realsize ht"
  "ht_mask (hupd a f ht) = ht_mask ht" "ht_count (hupd a f ht) = ht_count ht"
  "ht_freecount (hupd a f ht) = ht_freecount ht" "ht_addr (hupd a f ht) = ht_addr ht"
  "ht_tablep (hupd a f ht) = ht_tablep ht" "length (ht_table (hupd a f ht)) = length (ht_table ht)"
  by (simp_all add: hupd_def)

lemma tab_ok_hupd:
  assumes ok: "tab_ok ht" and d: "distinct (owned ht)" and q: "items ht = xs @ q # ys"
    and f: "item_ok (f q)" "hidx (ht_mask ht) (hkey (f q)) = hidx (ht_mask ht) (hkey q)"
    and ord: "key_order (xs @ f q # ys)"
  shows "tab_ok (hupd (hi_addr q) f ht)"
proof -
  note its = items_hupd_split [OF q d]
  have inj: "inj_on hi_addr (set (items ht))" using d by (intro distinct_addr_inj) (simp add: owned_def)
  have "hidx (ht_mask ht) (hkey p) = h"
    if h: "h < length (ht_table ht)" and p: "p \<in> set (chain_items (ht_table (hupd (hi_addr q) f ht) ! h))" for h p
  proof -
    have "chain_items (ht_table (hupd (hi_addr q) f ht) ! h) = map (item_upd (hi_addr q) f) (chain_items (ht_table ht ! h))"
      using h by (cases "ht_table ht ! h") (simp_all add: hupd_def)
    then obtain p0 where p0: "p0 \<in> set (chain_items (ht_table ht ! h))" "p = item_upd (hi_addr q) f p0" using p by auto
    have i: "hidx (ht_mask ht) (hkey p0) = h" using ok h p0(1) unfolding tab_ok_def by blast
    have "p0 \<in> set (items ht)" using h p0(1) nth_mem [OF h] by (auto simp: items_def)
    then have "hi_addr p0 = hi_addr q \<Longrightarrow> p0 = q" using inj_onD [OF inj, of p0 q] q by simp
    then show ?thesis using p0(2) i f(2) by (auto simp: item_upd_def)
  qed
  moreover have "Dangling \<notin> set (ht_table (hupd (hi_addr q) f ht))"
  proof -
    have "bucket_upd (hi_addr q) f b \<noteq> Dangling" if "b \<in> set (ht_table ht)" for b
    proof -
      have "b \<noteq> Dangling" using that ok unfolding tab_ok_def by blast
      then show ?thesis by (cases b) auto
    qed
    then show ?thesis by (force simp: hupd_def)
  qed
  moreover have "\<forall>p \<in> set (xs @ f q # ys). item_ok p" using ok q f(1) by (auto simp: tab_ok_def)
  ultimately show ?thesis using ok ord its by (simp add: tab_ok_def)
qed

end
