(* ===== verification/Hashtab_Set.thy ===== *)
theory Hashtab_Set
  imports Hashtab_Inv
begin

text \<open>
  Insertion: \<open>hput\<close> is \<open>hset\<close> up to the test of the load factor. On a table that satisfies
  the invariant and owns its blocks it never faults, with every outcome described.
\<close>

definition holds_blocks :: "nat set \<Rightarrow> htab \<Rightarrow> bool" where
  "holds_blocks L ht \<longleftrightarrow> distinct (owned ht) \<and> set (owned ht) \<subseteq> L"

text \<open>Blocks that are not the table's stay allocated and do not become the table's.\<close>

definition keeps_rest :: "nat set \<Rightarrow> htab \<Rightarrow> nat set \<Rightarrow> htab \<Rightarrow> bool" where
  "keeps_rest L ht L' ht' \<longleftrightarrow> L - set (owned ht) \<subseteq> L' - set (owned ht')"

lemma keeps_rest_refl [simp]: "keeps_rest L ht L ht"
  by (simp add: keeps_rest_def)

lemma keeps_rest_trans: "keeps_rest L a M b \<Longrightarrow> keeps_rest M b N c \<Longrightarrow> keeps_rest L a N c"
  by (auto simp: keeps_rest_def)

text \<open>What a successful insertion does to the table and to the blocks in use.\<close>

definition put_done :: "nat set \<Rightarrow> htab \<Rightarrow> byte list \<Rightarrow> nat \<Rightarrow> nat set \<Rightarrow> htab \<Rightarrow> bool" where
  "put_done L ht k val L' ht' \<longleftrightarrow> tab_ok ht' \<and> holds_blocks L' ht' \<and> keeps_rest L ht L' ht' \<and>
     hview ht' = (hview ht)(k \<mapsto> val) \<and> hcount ht' = hcount ht + 1 \<and>
     ht_logsize ht' = ht_logsize ht \<and> ht_addr ht' = ht_addr ht \<and> fvals (items ht') \<subseteq> fvals (items ht)"

lemma copy_key_ok:
  assumes "key_ok key n" and "n < length buf"
  obtains b where "copy_key key n buf = Inr b" and "length b = length buf" and "key_ok (Some b) n"
    and "take n b = key_str key n"
proof -
  obtain k where k: "key = Some k" "n < length k" "k ! n = 0" "0 \<notin> set (take n k)"
    using assms(1) by (auto simp: key_ok_def split: option.splits)
  let ?b = "take (n + 1) k @ drop (n + 1) buf"
  have "?b ! n = k ! n" using k by (simp add: nth_append)
  moreover have "take n ?b = take n k" using k by simp
  ultimately show thesis
    using k assms(2) by (intro that [of ?b]) (simp_all add: copy_key_def key_ok_def key_str_def)
qed

text \<open>Writing a key that is not in the table into one item, or adding an item for it.\<close>

lemma lview_absent: "lview ps k = None \<Longrightarrow> p \<in> set ps \<Longrightarrow> \<not> hi_free p \<Longrightarrow> hkey p \<noteq> k"
  by (auto simp: lview_None_iff hit_def)

lemma lview_insert:
  assumes "lview (xs @ ys) k = None" and "hit k q" and "hi_free p"
  shows "lview (xs @ q # ys) = (lview (xs @ p # ys))(k \<mapsto> hi_val q)"
proof
  fix k'
  have k: "hkey q = k" "\<not> hi_free q" using assms(2) by (simp_all add: hit_def)
  have "\<not> hit k' p" using assms(3) by (simp add: hit_def)
  then show "lview (xs @ q # ys) k' = ((lview (xs @ p # ys))(k \<mapsto> hi_val q)) k'"
    using assms(1) k by (auto simp: lview_append lview_Cons hit_def split: option.splits)
qed

lemma lview_new:
  assumes "lview (xs @ ys) k = None" and "hit k q"
  shows "lview (xs @ q # ys) = (lview (xs @ ys))(k \<mapsto> hi_val q)"
proof
  fix k'
  have k: "hkey q = k" "\<not> hi_free q" using assms(2) by (simp_all add: hit_def)
  show "lview (xs @ q # ys) k' = ((lview (xs @ ys))(k \<mapsto> hi_val q)) k'"
    using assms(1) k by (auto simp: lview_append lview_Cons hit_def split: option.splits)
qed

lemma key_order_insert:
  assumes ord: "key_order (xs @ ys)" and k: "hkey q = k" and abs: "lview xs k = None"
    and later: "\<And>p. p \<in> set ys \<Longrightarrow> hkey p \<noteq> k"
  shows "key_order (xs @ q # ys)"
proof -
  have "\<forall>p \<in> set xs. \<not> hi_free p \<longrightarrow> hkey p \<noteq> hkey q" using k lview_absent [OF abs] by blast
  moreover have "\<forall>p \<in> set ys. hkey q \<noteq> hkey p" using later k by metis
  ultimately show ?thesis using ord by (simp add: key_order_append key_order_Cons)
qed

lemma key_order_drop: "key_order (xs @ p # ys) \<Longrightarrow> key_order (xs @ ys)"
  by (auto simp: key_order_append key_order_Cons)

context total_allocator
begin

lemma hreuse_ok:
  assumes inv: "inv m" and ok: "tab_ok ht" and own: "holds_blocks (live m) ht" and key: "key_ok key n"
    and abs: "hview ht (key_str key n) = None"
    and ar: "around ht (hidx (ht_mask ht) (key_str key n)) A (xs @ q # ys) B"
    and q: "hi_free q" "\<forall>y \<in> set ys. \<not> hi_free y"
  shows "\<exists>r ht' m'. hreuse ml fr ht q key n val m = Inr (r, ht', m') \<and> inv m' \<and> r \<noteq> HEXISTS \<and>
    (r = HSUCCESS \<longrightarrow> put_done (live m) ht (key_str key n) val (live m') ht')"
proof -
  let ?k = "key_str key n"
  have its: "items ht = (A @ xs) @ q # (ys @ B)" using ar by (simp add: around_def)
  have d: "distinct (owned ht)" and sub: "set (owned ht) \<subseteq> live m" using own by (simp_all add: holds_blocks_def)
  have qok: "item_ok q" using ok its by (simp add: tab_ok_def)
  have hq: "hidx (ht_mask ht) (hkey q) = hidx (ht_mask ht) ?k"
    using ok ar unfolding tab_ok_def around_def by (metis chain_items.simps(1) in_set_conv_decomp)
  have absl: "lview ((A @ xs) @ q # (ys @ B)) ?k = None" using abs its by (simp add: hview_def)
  then have abs': "lview (A @ xs) ?k = None" "lview (ys @ B) ?k = None" "lview ((A @ xs) @ (ys @ B)) ?k = None"
    by (auto simp: lview_None_iff)
  have later: "hkey p \<noteq> ?k" if "p \<in> set (ys @ B)" for p
  proof (cases "p \<in> set ys")
    case True
    with that q(2) lview_absent [OF abs'(2)] show ?thesis by blast
  next
    case False
    with that ar show ?thesis unfolding around_def by (metis Un_iff set_append)
  qed
  have fin: "put_done (live m) ht ?k val (live m1)
      ((hupd (hi_addr q) (\<lambda>_. q\<lparr>hi_keyp := kp, hi_key := b, hi_klen := n, hi_val := val, hi_free := False\<rparr>) ht)
        \<lparr>ht_freecount := ht_freecount ht - 1\<rparr>)"
    if b: "key_ok (Some b) n" "take n b = ?k" and kp: "kp \<noteq> 0"
      and mem: "kp = hi_keyp q \<and> live m1 = live m \<or>
        kp \<notin> live m - {hi_keyp q} \<and> live m1 = insert kp (live m - {hi_keyp q})" for b kp m1
  proof -
    let ?q = "q\<lparr>hi_keyp := kp, hi_key := b, hi_klen := n, hi_val := val, hi_free := False\<rparr>"
    let ?h = "hupd (hi_addr q) (\<lambda>_. ?q) ht"
    let ?t = "?h\<lparr>ht_freecount := ht_freecount ht - 1\<rparr>"
    have i1: "items ?h = (A @ xs) @ ?q # (ys @ B)" using items_hupd_split [OF its d, of "\<lambda>_. ?q"] .
    have kq: "hkey ?q = ?k" "item_ok ?q" "hit ?k ?q" using b kp by (simp_all add: hkey_def item_ok_def hit_def)
    have "key_order ((A @ xs) @ ys @ B)" using ok its key_order_drop [of "A @ xs" q "ys @ B"] by (simp add: tab_ok_def)
    then have "key_order ((A @ xs) @ ?q # (ys @ B))" using key_order_insert kq(1) abs'(1) later by blast
    then have "tab_ok ?h" using kq hq by (intro tab_ok_hupd [OF ok d its]) auto
    then have tab: "tab_ok ?t" by simp
    have view: "hview ?t = (hview ht)(?k \<mapsto> val)"
      using lview_insert [OF abs'(3) kq(3) q(1)] i1 its by (simp add: hview_def)
    have o: "owned ?t = ht_addr ht # ht_tablep ht # item_addrs ((A @ xs) @ ?q # (ys @ B))"
      using i1 by (simp add: owned_def)
    have o0: "owned ht = ht_addr ht # ht_tablep ht # item_addrs ((A @ xs) @ q # (ys @ B))"
      using its by (simp add: owned_def)
    have blocks: "holds_blocks (live m1) ?t" "keeps_rest (live m) ht (live m1) ?t"
      using mem d sub unfolding holds_blocks_def keeps_rest_def o o0 by auto
    have "fvals (items ?t) \<subseteq> fvals (items ht)" using i1 its by auto
    then show ?thesis using tab view blocks by (simp add: put_done_def hcount_def)
  qed
  show ?thesis
  proof (cases "hi_klen q < n + 1")
    case False
    have "hi_klen q < length (hi_key q)" using qok by (simp add: item_ok_def key_ok_def)
    then obtain b where b: "copy_key key n (hi_key q) = Inr b" "key_ok (Some b) n" "take n b = ?k"
      using copy_key_ok [OF key, of "hi_key q"] False by auto
    have nz: "hi_keyp q \<noteq> 0" using qok by (simp add: item_ok_def)
    have "q\<lparr>hi_keyp := hi_keyp q, hi_key := b, hi_klen := n, hi_val := val, hi_free := False\<rparr>
        = q\<lparr>hi_key := b, hi_klen := n, hi_val := val, hi_free := False\<rparr>" by simp
    then show ?thesis
      using fin [OF b(2,3) nz, of m] b(1) nz False inv by (simp add: hreuse_def)
  next
    case True
    have kin: "hi_keyp q \<in> live m" using sub its by (auto simp: owned_def)
    obtain m1 where m1: "fr (hi_keyp q) m = Inr m1" "inv m1" "live m1 = live m - {hi_keyp q}"
      using free_law [OF inv kin] by blast
    from m1(2) show ?thesis
    proof (cases rule: malloc_cases [where n = "n + 1"])
      case none
      then show ?thesis using True m1 by (simp add: hreuse_def)
    next
      case (some kp m2)
      obtain b where b: "copy_key key n (replicate (n + 1) 0) = Inr b" "key_ok (Some b) n" "take n b = ?k"
        using copy_key_ok [OF key, of "replicate (n + 1) 0"] by auto
      have "put_done (live m) ht ?k val (live m2)
        ((hupd (hi_addr q) (\<lambda>_. q\<lparr>hi_keyp := kp, hi_key := b, hi_klen := n, hi_val := val, hi_free := False\<rparr>) ht)
        \<lparr>ht_freecount := ht_freecount ht - 1\<rparr>)"
        using some(3-5) m1(3) by (intro fin [OF b(2,3)]) auto
      then show ?thesis using some True m1 b(1) by (simp add: hreuse_def)
    qed
  qed
qed

lemma hinsert_ok:
  assumes inv: "inv m" and ok: "tab_ok ht" and own: "holds_blocks (live m) ht" and key: "key_ok key n"
    and abs: "hview ht (key_str key n) = None"
    and ar: "around ht (hidx (ht_mask ht) (key_str key n)) A ps B" and nf: "\<forall>p \<in> set ps. \<not> hi_free p"
  shows "\<exists>r ht' m'. hinsert ml fr ht (hidx (ht_mask ht) (key_str key n)) ps key n val m = Inr (r, ht', m') \<and>
    inv m' \<and> r \<noteq> HEXISTS \<and> (r = HSUCCESS \<longrightarrow> put_done (live m) ht (key_str key n) val (live m') ht')"
proof -
  let ?k = "key_str key n" and ?h = "hidx (ht_mask ht) (key_str key n)"
  have its: "items ht = A @ ps @ B" using ar by (simp add: around_def)
  have d: "distinct (owned ht)" and sub: "set (owned ht) \<subseteq> live m" using own by (simp_all add: holds_blocks_def)
  have absl: "lview (A @ ps @ B) ?k = None" using abs its by (simp add: hview_def)
  then have abs': "lview A ?k = None" "lview (ps @ B) ?k = None" by (auto simp: lview_None_iff)
  have later: "hkey p \<noteq> ?k" if "p \<in> set (ps @ B)" for p
  proof (cases "p \<in> set ps")
    case True
    with that nf lview_absent [OF abs'(2)] show ?thesis by blast
  next
    case False
    with that ar show ?thesis unfolding around_def by (metis Un_iff set_append)
  qed
  from inv show ?thesis
  proof (cases rule: malloc_cases [where n = sizeof_hitem])
    case none
    then show ?thesis using inv by (simp add: hinsert_def)
  next
    case a: (some a m1)
    from a(2) show ?thesis
    proof (cases rule: malloc_cases [where n = "n + 1"])
      case none
      obtain m2 where "fr a m1 = Inr m2" "inv m2" using free_law [OF a(2), of a] a(5) by auto
      then show ?thesis using none a by (simp add: hinsert_def)
    next
      case k: (some kp m2)
      obtain b where b: "copy_key key n (replicate (n + 1) 0) = Inr b" "key_ok (Some b) n" "take n b = ?k"
        using copy_key_ok [OF key, of "replicate (n + 1) 0"] by auto
      let ?q = "\<lparr>hi_addr = a, hi_keyp = kp, hi_key = b, hi_klen = n, hi_val = val, hi_free = False\<rparr>"
      let ?u = "ht\<lparr>ht_table := (ht_table ht)[?h := Chain (?q # ps)]\<rparr>"
      let ?t = "?u\<lparr>ht_count := ht_count ht + 1\<rparr>"
      have kq: "hkey ?q = ?k" "item_ok ?q" "hit ?k ?q" using b k(3) by (simp_all add: hkey_def item_ok_def hit_def)
      have i1: "items ?u = A @ (?q # ps) @ B" using ar by (simp only: around_def)
      have "key_order (A @ ps @ B)" using ok its by (simp add: tab_ok_def)
      then have ord: "key_order (A @ (?q # ps) @ B)"
        using key_order_insert [of A "ps @ B" ?q ?k] kq(1) abs'(1) later by simp
      have "item_ok p \<and> hidx (ht_mask ht) (hkey p) = ?h" if "p \<in> set ps" for p
        using that ok ar its unfolding tab_ok_def around_def by (metis Un_iff chain_items.simps(1) set_append)
      then have "tab_ok ?u" using kq by (intro tab_ok_bucket [OF ok ar _ ord]) auto
      then have tab: "tab_ok ?t" by simp
      have view: "hview ?t = (hview ht)(?k \<mapsto> val)"
        using lview_new [of A "ps @ B" ?k ?q] absl kq(3) i1 its by (simp add: hview_def)
      have o: "owned ?t = ht_addr ht # ht_tablep ht # item_addrs (A @ ?q # ps @ B)"
        using i1 by (simp add: owned_def)
      have o0: "owned ht = ht_addr ht # ht_tablep ht # item_addrs (A @ ps @ B)"
        using its by (simp add: owned_def)
      have "holds_blocks (live m2) ?t" "keeps_rest (live m) ht (live m2) ?t"
        using a(4,5) k(4,5) d sub unfolding holds_blocks_def keeps_rest_def o o0 by auto
      moreover have "fvals (items ?t) \<subseteq> fvals (items ht)" using i1 its by auto
      ultimately have "put_done (live m) ht ?k val (live m2) ?t"
        using tab view by (simp add: put_done_def hcount_def)
      then show ?thesis using a k b(1) by (simp add: hinsert_def)
    qed
  qed
qed

lemma hput_ok:
  assumes inv: "inv m" and ok: "tab_ok ht" and own: "holds_blocks (live m) ht" and key: "key_ok key n"
  shows "\<exists>r ht' m'. hput ml fr ht key n val m = Inr (r, ht', m') \<and> inv m' \<and>
    (r = HEXISTS \<longleftrightarrow> hview ht (key_str key n) \<noteq> None) \<and> (r = HEXISTS \<longrightarrow> ht' = ht \<and> m' = m) \<and>
    (r = HSUCCESS \<longrightarrow> put_done (live m) ht (key_str key n) val (live m') ht')"
proof -
  let ?k = "key_str key n" and ?h = "hidx (ht_mask ht) (key_str key n)"
  obtain A ps B where ar: "around ht ?h A ps B" and b: "bucket_at ht ?h = Inr ps"
    using around_ex [OF ok tab_hidx_less [OF ok]] by blast
  have iok: "\<forall>p \<in> set ps. item_ok p" using ok ar by (auto simp: tab_ok_def around_def)
  have ex: "(\<exists>p \<in> set ps. hit ?k p) \<longleftrightarrow> hview ht ?k \<noteq> None"
    using around_find [OF ar refl] by (auto simp: hview_def lview_def find_None_iff)
  have put: "hput ml fr ht key n val m =
      (case (if \<exists>p \<in> set ps. hit ?k p then None
          else Some (if filter hi_free ps = [] then None else Some (last (filter hi_free ps)))) of
         None \<Rightarrow> Inr (HEXISTS, ht, m)
       | Some (Some new) \<Rightarrow> hreuse ml fr ht new key n val m
       | Some None \<Rightarrow> hinsert ml fr ht ?h ps key n val m)"
    using HHASH_key [OF key] b hscan_ok [OF iok key] by (simp add: hput_def)
  consider (exists) "hview ht ?k \<noteq> None" | (reuse) "hview ht ?k = None" "filter hi_free ps \<noteq> []"
    | (new) "hview ht ?k = None" "filter hi_free ps = []" by blast
  then show ?thesis
  proof cases
    case exists
    then show ?thesis using put ex inv by simp
  next
    case reuse
    obtain xs q ys where s: "ps = xs @ q # ys" "last (filter hi_free ps) = q" "hi_free q" "\<forall>y \<in> set ys. \<not> hi_free y"
      using last_free_split [OF reuse(2)] by metis
    have "hput ml fr ht key n val m = hreuse ml fr ht q key n val m" using put ex reuse s(2) by simp
    then show ?thesis
      using hreuse_ok [OF inv ok own key reuse(1) ar [unfolded s(1)] s(3,4), of val] reuse(1) by auto
  next
    case new
    have "hput ml fr ht key n val m = hinsert ml fr ht ?h ps key n val m" using put ex new by simp
    moreover have "\<forall>p \<in> set ps. \<not> hi_free p" using new(2) by (simp add: filter_empty_conv)
    ultimately show ?thesis using hinsert_ok [OF inv ok own key new(1) ar, of val] new(1) by auto
  qed
qed

end

end
