(* ===== verification/Hashtab_Grow.thy ===== *)
theory Hashtab_Grow
  imports Hashtab_Set
begin

text \<open>
  Growing: \<open>_hgrow\<close> moves every item, released ones included, into a table twice the size
  through \<open>hset\<close>, which may grow that table in turn. \<open>set_spec\<close> states what \<open>hset\<close> does on
  tables of at least a given size; the induction over the fuel proves it for all of them.
\<close>

lemma key_order_view:
  assumes "key_order (dn @ p # ps)"
  shows "lview dn (hkey p) = None"
  using assms by (auto simp: lview_None_iff hit_def key_order_append)

text \<open>Setting the free flag of a live item.\<close>

lemma hupd_flag:
  fixes ht :: htab and it :: hitem and b :: bool
  assumes ok: "tab_ok ht" and d: "distinct (owned ht)" and f: "find (hit k) (items ht) = Some it"
  defines "ht' \<equiv> hupd (hi_addr it) (\<lambda>x. x\<lparr>hi_free := b\<rparr>) ht"
  shows "tab_ok ht'" and "owned ht' = owned ht"
    and "hview ht' = (hview ht)(k := if b then None else hview ht k)"
proof -
  have it: "it \<in> set (items ht)" "hit k it" using f by (auto simp: find_Some_iff)
  obtain xs ys where s: "items ht = xs @ it # ys" using split_list [OF it(1)] by blast
  have i': "items ht' = xs @ it\<lparr>hi_free := b\<rparr> # ys"
    unfolding ht'_def by (rule items_hupd_split [OF s d])
  have k: "hkey it = k" "\<not> hi_free it" using it(2) by (simp_all add: hit_def)
  have hk: "hkey (it\<lparr>hi_free := b\<rparr>) = k" using k by (simp add: hkey_def)
  have ord: "key_order (xs @ it # ys)" using ok s by (simp add: tab_ok_def)
  then have "key_order (xs @ it\<lparr>hi_free := b\<rparr> # ys)" using k hk by (auto simp: key_order_append key_order_Cons)
  moreover have "item_ok (it\<lparr>hi_free := b\<rparr>)" using ok s by (simp add: tab_ok_def item_ok_def)
  ultimately show "tab_ok ht'" unfolding ht'_def using hk k by (intro tab_ok_hupd [OF ok d s]) auto
  show "owned ht' = owned ht" using i' s by (simp add: owned_def ht'_def)
  have "lview xs k = None" "lview ys k = None"
    using key_order_view [OF ord] k ord by (auto simp: lview_None_iff hit_def key_order_append key_order_Cons)
  then show "hview ht' = (hview ht)(k := if b then None else hview ht k)"
    using k hk i' s by (auto simp: hview_def lview_append lview_Cons hit_def fun_eq_iff split: option.splits)
qed

lemma fvals_hupd_flag:
  assumes d: "distinct (owned ht)" and f: "find (hit k) (items ht) = Some it"
  shows "fvals (items (hupd (hi_addr it) (\<lambda>x. x\<lparr>hi_free := b\<rparr>) ht)) =
    (if b then insert (hi_val it) (fvals (items ht)) else fvals (items ht))"
proof -
  have it: "it \<in> set (items ht)" "\<not> hi_free it" using f by (auto simp: find_Some_iff hit_def)
  obtain xs ys where s: "items ht = xs @ it # ys" using split_list [OF it(1)] by blast
  then show ?thesis using items_hupd_split [OF s d, of "\<lambda>x. x\<lparr>hi_free := b\<rparr>"] it(2) by auto
qed

lemma tab_ok_cong:
  "ht_logsize a = ht_logsize b \<Longrightarrow> ht_realsize a = ht_realsize b \<Longrightarrow> ht_mask a = ht_mask b \<Longrightarrow>
   ht_table a = ht_table b \<Longrightarrow> tab_ok a = tab_ok b"
  by (simp only: tab_ok_def items_def)

definition set_done :: "nat set \<Rightarrow> htab \<Rightarrow> byte list \<Rightarrow> nat \<Rightarrow> nat set \<Rightarrow> htab \<Rightarrow> bool" where
  "set_done L ht k val L' ht' \<longleftrightarrow> tab_ok ht' \<and> \<not> crowded ht' \<and> holds_blocks L' ht' \<and> keeps_rest L ht L' ht' \<and>
     hview ht' = (hview ht)(k \<mapsto> val) \<and> hcount ht' = hcount ht + 1 \<and>
     ht_logsize ht \<le> ht_logsize ht' \<and> ht_addr ht' = ht_addr ht \<and> fvals (items ht') \<subseteq> fvals (items ht)"

context total_allocator
begin

definition set_spec :: "'m hsetf \<Rightarrow> nat \<Rightarrow> bool" where
  "set_spec hs N \<longleftrightarrow> (\<forall>ht key n val m. inv m \<longrightarrow> tab_ok ht \<longrightarrow> \<not> crowded ht \<longrightarrow> holds_blocks (live m) ht \<longrightarrow>
     key_ok key n \<longrightarrow> N \<le> ht_logsize ht \<longrightarrow>
     (\<exists>r ht' m'. hs ht key n val m = Inr (r, ht', m') \<and> inv m' \<and>
        (r = HEXISTS \<longleftrightarrow> hview ht (key_str key n) \<noteq> None) \<and> (r = HEXISTS \<longrightarrow> ht' = ht \<and> m' = m) \<and>
        (r = HSUCCESS \<longrightarrow> set_done (live m) ht (key_str key n) val (live m') ht')))"

lemma set_specD:
  assumes "set_spec hs N" and "inv m" and "tab_ok ht" and "\<not> crowded ht" and "holds_blocks (live m) ht"
    and "key_ok key n" and "N \<le> ht_logsize ht"
  obtains r ht' m' where "hs ht key n val m = Inr (r, ht', m')" and "inv m'"
    and "r = HEXISTS \<longleftrightarrow> hview ht (key_str key n) \<noteq> None" and "r = HEXISTS \<Longrightarrow> ht' = ht \<and> m' = m"
    and "r = HSUCCESS \<Longrightarrow> set_done (live m) ht (key_str key n) val (live m') ht'"
  using assms unfolding set_spec_def by metis

lemma htcreate_ok:
  assumes inv: "inv m" and ls: "ls \<le> 18"
  shows "\<exists>r m'. htcreate ml fr ls m = Inr (r, m') \<and> inv m' \<and>
    (case r of None \<Rightarrow> live m' = live m
     | Some d \<Rightarrow> tab_ok d \<and> \<not> crowded d \<and> holds_blocks (live m') d \<and> hview d = Map.empty \<and> hcount d = 0 \<and>
         ht_logsize d = ls \<and> live m \<subseteq> live m' - set (owned d) \<and> fvals (items d) = {})"
  using inv
proof (cases rule: malloc_cases [where n = sizeof_htab])
  case none
  then show ?thesis using inv by (simp add: htcreate_def)
next
  case a: (some a m1)
  from a(2) show ?thesis
  proof (cases rule: malloc_cases [where n = "HSIZE ls * 8"])
    case none
    obtain m2 where m2: "fr a m1 = Inr m2" "inv m2" "live m2 = live m1 - {a}" using free_law [OF a(2), of a] a(5) by auto
    have "htcreate ml fr ls m = Inr (None, m2)" using none a(1) m2(1) ls by (simp add: htcreate_def)
    moreover have "live m2 = live m" using m2(3) a(4,5) by auto
    ultimately show ?thesis using m2(2) by auto
  next
    case t: (some t m2)
    have "\<not> largest < HSIZE ls * 8" using largest_law [OF a(2), of "HSIZE ls * 8"] t(1) by auto
    then have "(2::nat) ^ ls * 8 \<le> 2 ^ 20" using largest_bound by (simp add: HSIZE_def)
    then have "(2::nat) ^ (ls + 3) \<le> 2 ^ 20" by (simp add: power_add)
    then have "ls + 3 \<le> 20" by (rule power_le_imp_le_exp [rotated]) simp
    then have ls17: "ls \<le> 17" by simp
    let ?d = "\<lparr>ht_addr = a, ht_realsize = HSIZE ls, ht_logsize = ls, ht_count = 0,
                      ht_mask = HMASK ls, ht_freecount = 0, ht_tablep = t,
                      ht_table = replicate (HSIZE ls) (Chain [])\<rparr>"
    have its: "items ?d = []" by (simp add: items_def)
    have "tab_ok ?d" using ls17 its by (simp add: tab_ok_def HSIZE_def HMASK_def)
    moreover have "\<not> crowded ?d" by (simp add: crowded_def HSIZE_def)
    moreover have "holds_blocks (live m2) ?d" "live m \<subseteq> live m2 - set (owned ?d)"
      using its a(4,5) t(4,5) by (auto simp: holds_blocks_def owned_def)
    moreover have "hview ?d = Map.empty" using its by (simp add: hview_def fun_eq_iff)
    ultimately show ?thesis
      using a(1) t(1,2) ls its by (simp add: htcreate_def hcount_def)
  qed
qed

text \<open>The state of the new table while items are moved: \<open>dn\<close> are the items moved so far.\<close>

definition moving :: "nat \<Rightarrow> nat set \<Rightarrow> htab \<Rightarrow> 'm \<Rightarrow> hitem list \<Rightarrow> bool" where
  "moving N X d m dn \<longleftrightarrow> inv m \<and> tab_ok d \<and> \<not> crowded d \<and> holds_blocks (live m) d \<and> N \<le> ht_logsize d \<and>
     hview d = lview dn \<and> X \<subseteq> live m - set (owned d) \<and> fvals (items d) \<subseteq> fvals dn"

lemma move_one:
  assumes hs: "set_spec hs N" and mv: "moving N X d m dn" and ord: "key_order (dn @ [p])" and p: "item_ok p"
    and x: "hi_addr p \<in> X" "hi_keyp p \<in> X" "hi_addr p \<noteq> hi_keyp p"
  shows "\<exists>r d1 m1. hs d (item_key p) (hi_klen p) (hi_val p) m = Inr (r, d1, m1) \<and> inv m1 \<and>
    (r = HSUCCESS \<longrightarrow> (\<exists>it m2 m3. hget d1 (item_key p) (hi_klen p) = Inr (Some it) \<and>
       fr (hi_keyp p) m1 = Inr m2 \<and> fr (hi_addr p) m2 = Inr m3 \<and>
       moving N (X - {hi_addr p, hi_keyp p}) (hupd (hi_addr it) (\<lambda>x. x\<lparr>hi_free := hi_free p\<rparr>) d1) m3 (dn @ [p])))"
proof -
  have m: "inv m" "tab_ok d" "\<not> crowded d" "holds_blocks (live m) d" "N \<le> ht_logsize d" "hview d = lview dn"
    "X \<subseteq> live m - set (owned d)" and fd: "fvals (items d) \<subseteq> fvals dn" using mv by (simp_all add: moving_def)
  note key = item_key_ok [OF p]
  have abs: "hview d (hkey p) = None" using key_order_view [of dn p "[]"] ord m(6) by simp
  obtain r d1 m1 where s: "hs d (item_key p) (hi_klen p) (hi_val p) m = Inr (r, d1, m1)" "inv m1"
    and sd: "r = HSUCCESS \<Longrightarrow> set_done (live m) d (hkey p) (hi_val p) (live m1) d1"
    using set_specD [OF hs m(1-4) _ m(5), of "item_key p" "hi_klen p" "hi_val p"] key by metis
  show ?thesis
  proof (cases "r = HSUCCESS")
    case False
    with s show ?thesis by blast
  next
    case True
    note sd = sd [OF True]
    have d1: "tab_ok d1" "\<not> crowded d1" "distinct (owned d1)" "set (owned d1) \<subseteq> live m1" "N \<le> ht_logsize d1"
      and v1: "hview d1 = (hview d)(hkey p \<mapsto> hi_val p)" and k1: "keeps_rest (live m) d (live m1) d1"
      using sd m(5) by (auto simp: set_done_def holds_blocks_def)
    have X1: "X \<subseteq> live m1 - set (owned d1)" using m(7) k1 by (auto simp: keeps_rest_def)
    have g: "hget d1 (item_key p) (hi_klen p) = Inr (find (hit (hkey p)) (items d1))"
      using hget_ok [OF d1(1)] key by metis
    have "hview d1 (hkey p) = Some (hi_val p)" using v1 by simp
    then obtain it where it: "find (hit (hkey p)) (items d1) = Some it" by (auto simp: hview_def lview_def)
    note f = hupd_flag [OF d1(1,3) it, of "hi_free p"]
    obtain m2 where m2: "fr (hi_keyp p) m1 = Inr m2" "inv m2" "live m2 = live m1 - {hi_keyp p}"
      using free_law [OF s(2), of "hi_keyp p"] X1 x by auto
    obtain m3 where m3: "fr (hi_addr p) m2 = Inr m3" "inv m3" "live m3 = live m2 - {hi_addr p}"
      using free_law [OF m2(2), of "hi_addr p"] X1 x m2(3) by auto
    let ?d = "hupd (hi_addr it) (\<lambda>x. x\<lparr>hi_free := hi_free p\<rparr>) d1"
    have "hview ?d = lview (dn @ [p])"
    proof
      fix k
      show "hview ?d k = lview (dn @ [p]) k"
        using f(3) v1 abs m(6) by (auto simp: lview_append lview_Cons hit_def split: option.splits)
    qed
    moreover have "\<not> crowded ?d" using d1(2) by (simp add: crowded_def)
    moreover have "holds_blocks (live m3) ?d"
      using d1(3,4) X1 x m2(3) m3(3) f(2) by (auto simp: holds_blocks_def)
    moreover have "X - {hi_addr p, hi_keyp p} \<subseteq> live m3 - set (owned ?d)"
      using X1 m2(3) m3(3) f(2) by auto
    moreover have "fvals (items ?d) \<subseteq> fvals (dn @ [p])"
    proof -
      have "hview d1 (hkey p) = Some (hi_val p)" using v1 by simp
      then have "hi_val it = hi_val p" using it by (simp add: hview_def lview_def)
      moreover have "fvals (items d1) \<subseteq> fvals dn" using sd fd by (auto simp: set_done_def)
      ultimately show ?thesis using fvals_hupd_flag [OF d1(3) it, of "hi_free p"] by auto
    qed
    ultimately have "moving N (X - {hi_addr p, hi_keyp p}) ?d m3 (dn @ [p])"
      using m3(2) f(1) d1(5) by (simp add: moving_def)
    then show ?thesis using s m2(1) m3(1) g it by auto
  qed
qed

lemma move_chain_ok:
  assumes hs: "set_spec hs N"
  shows "moving N (X \<union> set (item_addrs ps)) d m dn \<Longrightarrow> key_order (dn @ ps) \<Longrightarrow> \<forall>p \<in> set ps. item_ok p \<Longrightarrow>
    distinct (item_addrs ps) \<Longrightarrow> X \<inter> set (item_addrs ps) = {} \<Longrightarrow>
    \<exists>left d' m'. move_chain hs fr ps d m = Inr (left, d', m') \<and> inv m' \<and>
      (left = [] \<longrightarrow> moving N X d' m' (dn @ ps) \<and> ht_logsize d' \<ge> N)"
proof (induction ps arbitrary: d m dn)
  case Nil
  then show ?case by (simp add: moving_def)
next
  case (Cons p ps)
  let ?X = "X \<union> set (item_addrs (p # ps))"
  have ord: "key_order (dn @ [p])" "key_order ((dn @ [p]) @ ps)"
    using Cons.prems(2) by (auto simp: key_order_append key_order_Cons)
  have X': "?X - {hi_addr p, hi_keyp p} = X \<union> set (item_addrs ps)" using Cons.prems(4,5) by auto
  obtain r d1 m1 where s: "hs d (item_key p) (hi_klen p) (hi_val p) m = Inr (r, d1, m1)" "inv m1"
    and sd: "r = HSUCCESS \<longrightarrow> (\<exists>it m2 m3. hget d1 (item_key p) (hi_klen p) = Inr (Some it) \<and>
       fr (hi_keyp p) m1 = Inr m2 \<and> fr (hi_addr p) m2 = Inr m3 \<and>
       moving N (X \<union> set (item_addrs ps)) (hupd (hi_addr it) (\<lambda>x. x\<lparr>hi_free := hi_free p\<rparr>) d1) m3 (dn @ [p]))"
    using move_one [OF hs Cons.prems(1) ord(1), unfolded X'] Cons.prems(3,4) by auto
  show ?case
  proof (cases "r = HSUCCESS")
    case False
    with s show ?thesis by auto
  next
    case True
    with sd obtain it m2 m3 where t: "hget d1 (item_key p) (hi_klen p) = Inr (Some it)"
      "fr (hi_keyp p) m1 = Inr m2" "fr (hi_addr p) m2 = Inr m3"
      and mv: "moving N (X \<union> set (item_addrs ps)) (hupd (hi_addr it) (\<lambda>x. x\<lparr>hi_free := hi_free p\<rparr>) d1) m3 (dn @ [p])"
      by blast
    from Cons.IH [OF mv ord(2)] Cons.prems(3-5) s t True show ?thesis by (auto simp: Let_def)
  qed
qed

lemma move_table_ok:
  assumes hs: "set_spec hs N"
  shows "moving N (X \<union> set (item_addrs (concat (map chain_items bs)))) d m dn \<Longrightarrow> Dangling \<notin> set bs \<Longrightarrow>
    key_order (dn @ concat (map chain_items bs)) \<Longrightarrow> \<forall>p \<in> set (concat (map chain_items bs)). item_ok p \<Longrightarrow>
    distinct (item_addrs (concat (map chain_items bs))) \<Longrightarrow>
    X \<inter> set (item_addrs (concat (map chain_items bs))) = {} \<Longrightarrow>
    \<exists>ok bs' d' m'. move_table hs fr bs d m = Inr (ok, bs', d', m') \<and> inv m' \<and>
      (ok \<longrightarrow> moving N X d' m' (dn @ concat (map chain_items bs)))"
proof (induction bs arbitrary: d m dn)
  case Nil
  then show ?case by (auto simp: moving_def)
next
  case (Cons b bs)
  then obtain ps where b: "b = Chain ps" by (cases b) auto
  let ?rest = "concat (map chain_items bs)"
  have mv: "moving N ((X \<union> set (item_addrs ?rest)) \<union> set (item_addrs ps)) d m dn"
    using Cons.prems(1) by (simp add: b Un_ac)
  have "key_order (dn @ ps)" "key_order ((dn @ ps) @ ?rest)"
    using Cons.prems(3) by (auto simp: b key_order_append)
  moreover have "(X \<union> set (item_addrs ?rest)) \<inter> set (item_addrs ps) = {}"
    using Cons.prems(5,6) b by auto
  moreover have "\<forall>p \<in> set ps. item_ok p" "distinct (item_addrs ps)" using Cons.prems(4,5) b by auto
  ultimately obtain left d1 m1 where
    c: "move_chain hs fr ps d m = Inr (left, d1, m1)" "inv m1"
      "left = [] \<longrightarrow> moving N (X \<union> set (item_addrs ?rest)) d1 m1 (dn @ ps)"
    and ord2: "key_order ((dn @ ps) @ ?rest)"
    using move_chain_ok [OF hs mv] by blast
  show ?case
  proof (cases "left = []")
    case False
    with c b show ?thesis by auto
  next
    case True
    with c have "moving N (X \<union> set (item_addrs ?rest)) d1 m1 (dn @ ps)" by blast
    moreover have "X \<inter> set (item_addrs ?rest) = {}" "distinct (item_addrs ?rest)"
      "\<forall>p \<in> set ?rest. item_ok p" "Dangling \<notin> set bs" using Cons.prems(2,4-6) b by auto
    ultimately obtain ok bs' d' m' where
      "move_table hs fr bs d1 m1 = Inr (ok, bs', d', m')" "inv m'"
      "ok \<longrightarrow> moving N X d' m' ((dn @ ps) @ ?rest)"
      using Cons.IH [of d1 m1 "dn @ ps"] ord2 by blast
    with c True b show ?thesis by auto
  qed
qed

lemma hgrow_ok:
  assumes hs: "set_spec hs N" and inv: "inv m" and ok: "tab_ok ht" and own: "holds_blocks (live m) ht"
    and N: "N \<le> ht_logsize ht + 1" and load: "4 * hcount ht < 6 * int (ht_realsize ht)"
  shows "\<exists>g ht' m'. hgrow hs ml fr ht m = Inr (g, ht', m') \<and> inv m' \<and>
    (g \<longrightarrow> tab_ok ht' \<and> \<not> crowded ht' \<and> holds_blocks (live m') ht' \<and> keeps_rest (live m) ht (live m') ht' \<and>
       hview ht' = hview ht \<and> hcount ht' = hcount ht \<and> ht_logsize ht < ht_logsize ht' \<and> ht_addr ht' = ht_addr ht \<and>
       fvals (items ht') \<subseteq> fvals (items ht))"
proof -
  have ls: "ht_logsize ht + 1 \<le> 18" using ok by (simp add: tab_ok_def)
  obtain r m1 where c: "htcreate ml fr (ht_logsize ht + 1) m = Inr (r, m1)" "inv m1"
    and cd: "case r of None \<Rightarrow> live m1 = live m
     | Some d \<Rightarrow> tab_ok d \<and> \<not> crowded d \<and> holds_blocks (live m1) d \<and> hview d = Map.empty \<and> hcount d = 0 \<and>
         ht_logsize d = ht_logsize ht + 1 \<and> live m \<subseteq> live m1 - set (owned d) \<and> fvals (items d) = {}"
    using htcreate_ok [OF inv ls] by blast
  show ?thesis
  proof (cases r)
    case None
    with c show ?thesis by (auto simp: hgrow_def)
  next
    case (Some d)
    let ?A = "set (item_addrs (items ht))"
    let ?X = "(live m - set (owned ht)) \<union> {ht_addr ht, ht_tablep ht}"
    have o: "distinct (owned ht)" "set (owned ht) \<subseteq> live m" using own by (simp_all add: holds_blocks_def)
    have XA: "?X \<union> ?A \<subseteq> live m" "?X \<inter> ?A = {}" "distinct (item_addrs (items ht))"
      using o by (auto simp: owned_def)
    have items: "concat (map chain_items (ht_table ht)) = items ht" by (simp add: items_def)
    have Nd: "N + 0 \<le> ht_logsize d" using N cd Some by simp
    have "moving (ht_logsize ht + 1) (?X \<union> ?A) d m1 []"
      using cd Some c(2) XA by (auto simp: moving_def fun_eq_iff)
    then have mv: "moving (max N (ht_logsize ht + 1)) (?X \<union> ?A) d m1 []" using N by (simp add: max_def)
    have hs': "set_spec hs (max N (ht_logsize ht + 1))" using hs by (simp add: set_spec_def)
    obtain g bs d' m2 where t: "move_table hs fr (ht_table ht) d m1 = Inr (g, bs, d', m2)" "inv m2"
      and mt: "g \<longrightarrow> moving (max N (ht_logsize ht + 1)) ?X d' m2 (items ht)"
      using move_table_ok [OF hs', of ?X "ht_table ht" d m1 "[]"] mv ok XA(2,3) unfolding items
      by (auto simp: tab_ok_def)
    show ?thesis
    proof (cases g)
      case False
      with c t Some show ?thesis by (auto simp: hgrow_def)
    next
      case True
      with mt have d': "tab_ok d'" "\<not> crowded d'" "distinct (owned d')" "set (owned d') \<subseteq> live m2"
        "ht_logsize ht + 1 \<le> ht_logsize d'" "hview d' = lview (items ht)" "?X \<subseteq> live m2 - set (owned d')"
        "fvals (items d') \<subseteq> fvals (items ht)"
        by (simp_all add: moving_def holds_blocks_def)
      have ne: "ht_addr ht \<noteq> ht_tablep ht" using o(1) by (auto simp: owned_def)
      obtain m3 where m3: "fr (ht_tablep ht) m2 = Inr m3" "inv m3" "live m3 = live m2 - {ht_tablep ht}"
        using free_law [OF t(2), of "ht_tablep ht"] d'(7) by auto
      have "ht_addr d' \<in> live m3" using d'(4,7) m3(3) by (auto simp: owned_def)
      then obtain m4 where m4: "fr (ht_addr d') m3 = Inr m4" "inv m4" "live m4 = live m3 - {ht_addr d'}"
        using free_law [OF m3(2)] by blast
      let ?t = "ht\<lparr>ht_tablep := ht_tablep d', ht_table := ht_table d', ht_logsize := ht_logsize d',
          ht_realsize := ht_realsize d', ht_mask := ht_mask d'\<rparr>"
      have it: "items ?t = items d'" by (simp add: items_def)
      have ow: "owned ?t = ht_addr ht # ht_tablep d' # item_addrs (items d')" using it by (simp add: owned_def)
      have od: "owned d' = ht_addr d' # ht_tablep d' # item_addrs (items d')" by (simp add: owned_def)
      have "tab_ok ?t = tab_ok d'" by (rule tab_ok_cong) simp_all
      then have "tab_ok ?t" using d'(1) by simp
      moreover have lm: "live m4 = live m2 - {ht_tablep ht} - {ht_addr d'}" using m3(3) m4(3) by simp
      have a: "ht_addr ht \<in> live m2" "ht_addr ht \<notin> set (owned d')" "ht_tablep ht \<notin> set (owned d')"
        using d'(7) by auto
      have "distinct (owned ?t)" using a(2) d'(3) unfolding ow od by simp
      moreover have "set (owned ?t) \<subseteq> live m4"
        using a d'(3,4) ne unfolding ow lm unfolding od by auto
      moreover have "keeps_rest (live m) ht (live m4) ?t"
      proof -
        have "live m - set (owned ht) \<subseteq> live m2 - set (owned d')" using d'(7) by blast
        moreover have "ht_tablep ht \<notin> live m - set (owned ht)" "ht_addr ht \<notin> live m - set (owned ht)"
          by (simp_all add: owned_def)
        ultimately show ?thesis unfolding keeps_rest_def lm ow od by auto
      qed
      moreover have "fvals (items ?t) \<subseteq> fvals (items ht)" using it d'(8) by simp
      moreover have "hview ?t = hview ht" using it d'(6) by (simp add: hview_def)
      moreover have "\<not> crowded ?t"
      proof -
        have "(2::nat) ^ (ht_logsize ht + 1) \<le> 2 ^ ht_logsize d'" using d'(5) by (intro power_increasing) auto
        then have "2 * ht_realsize ht \<le> ht_realsize d'" using ok d'(1) by (simp add: tab_ok_def)
        then show ?thesis using load by (simp add: crowded_def hcount_def)
      qed
      moreover have "hcount ?t = hcount ht" by (simp add: hcount_def)
      ultimately show ?thesis
        using c(1) t(1) True Some m3(1) m4(1,2) d'(5)
        by (intro exI [of _ True] exI [of _ ?t] exI [of _ m4]) (simp add: hgrow_def holds_blocks_def Let_def)
    qed
  qed
qed

lemma hset_fuel_spec: "set_spec (hset_fuel n ml fr) (18 - n)"
proof (induction n)
  case 0
  then show ?case by (auto simp: set_spec_def tab_ok_def)
next
  case (Suc n)
  have "\<exists>r ht' m'. hset_fuel (Suc n) ml fr ht key l val m = Inr (r, ht', m') \<and> inv m' \<and>
      (r = HEXISTS \<longleftrightarrow> hview ht (key_str key l) \<noteq> None) \<and> (r = HEXISTS \<longrightarrow> ht' = ht \<and> m' = m) \<and>
      (r = HSUCCESS \<longrightarrow> set_done (live m) ht (key_str key l) val (live m') ht')"
    if pre: "inv m" "tab_ok ht" "\<not> crowded ht" "holds_blocks (live m) ht" "key_ok key l"
      "18 - Suc n \<le> ht_logsize ht" for ht key l val m
  proof -
    obtain r ht1 m1 where p: "hput ml fr ht key l val m = Inr (r, ht1, m1)" "inv m1"
      "r = HEXISTS \<longleftrightarrow> hview ht (key_str key l) \<noteq> None" "r = HEXISTS \<longrightarrow> ht1 = ht \<and> m1 = m"
      "r = HSUCCESS \<longrightarrow> put_done (live m) ht (key_str key l) val (live m1) ht1"
      using hput_ok [OF pre(1,2,4,5), of val] by blast
    show ?thesis
    proof (cases "r = HSUCCESS")
      case False
      with p show ?thesis by auto
    next
      case True
      with p(5) have pd: "tab_ok ht1" "holds_blocks (live m1) ht1" "keeps_rest (live m) ht (live m1) ht1"
        "hview ht1 = (hview ht)(key_str key l \<mapsto> val)" "hcount ht1 = hcount ht + 1"
        "ht_logsize ht1 = ht_logsize ht" "ht_addr ht1 = ht_addr ht" "fvals (items ht1) \<subseteq> fvals (items ht)"
        by (simp_all add: put_done_def)
      have abs: "hview ht (key_str key l) = None" using p(3) True by simp
      show ?thesis
      proof (cases "crowded ht1")
        case False
        then have "set_done (live m) ht (key_str key l) val (live m1) ht1" using pd by (simp add: set_done_def)
        with False p(1,2) True abs show ?thesis by simp
      next
        case cr: True
        have size: "ht_realsize ht1 = ht_realsize ht" "1 \<le> ht_realsize ht"
          using pd(1,6) pre(2) by (simp_all add: tab_ok_def)
        have "4 * hcount ht < 3 * int (ht_realsize ht)" using pre(3) by (simp add: crowded_def hcount_def)
        then have load: "4 * hcount ht1 < 6 * int (ht_realsize ht1)" using size pd(5) by presburger
        have N: "18 - n \<le> ht_logsize ht1 + 1" using pre(6) pd(6) by simp
        obtain g ht2 m2 where g: "hgrow (hset_fuel n ml fr) ml fr ht1 m1 = Inr (g, ht2, m2)" "inv m2"
          and gd: "g \<longrightarrow> tab_ok ht2 \<and> \<not> crowded ht2 \<and> holds_blocks (live m2) ht2 \<and>
            keeps_rest (live m1) ht1 (live m2) ht2 \<and> hview ht2 = hview ht1 \<and> hcount ht2 = hcount ht1 \<and>
            ht_logsize ht1 < ht_logsize ht2 \<and> ht_addr ht2 = ht_addr ht1 \<and> fvals (items ht2) \<subseteq> fvals (items ht1)"
          using hgrow_ok [OF Suc.IH p(2) pd(1,2) N load] by blast
        have "g \<longrightarrow> set_done (live m) ht (key_str key l) val (live m2) ht2"
          using gd pd keeps_rest_trans [OF pd(3)] by (auto simp: set_done_def)
        with p(1) g True cr abs show ?thesis by auto
      qed
    qed
  qed
  then show ?case by (simp add: set_spec_def)
qed

lemma hset_ok: "set_spec (hset ml fr) 0"
  using hset_fuel_spec [of 32] by (simp add: hset_def)

end

end
