(* ===== verification/Hashtab_Correct.thy ===== *)
theory Hashtab_Correct
  imports Hashtab_Grow
begin

text \<open>
  What the hash table promises the server: it is a finite map from C strings to values.
  \<open>cache_map\<close> is the interface; a sequence of insertions, lookups and deletions on the table
  gives the answers of the same sequence on the map, however often the table grows.
\<close>

subsection \<open>Deleting and updating\<close>

lemma hfree_ok:
  assumes ok: "tab_ok ht" and d: "distinct (owned ht)" and cr: "\<not> crowded ht"
    and f: "find (hit k) (items ht) = Some it"
  shows "tab_ok (hfree ht it) \<and> owned (hfree ht it) = owned ht \<and> \<not> crowded (hfree ht it) \<and>
    hview (hfree ht it) = (hview ht)(k := None) \<and> hcount (hfree ht it) = hcount ht - 1"
proof -
  have "\<not> hi_free it" using f by (auto simp: find_Some_iff hit_def)
  then show ?thesis
    using hupd_flag [OF ok d f, of True] cr by (auto simp: hfree_def hcount_def crowded_def)
qed

text \<open>\<open>tab_item->val = v\<close> for an item found by \<open>hget\<close>.\<close>

lemma hupd_val_ok:
  fixes ht :: htab and it :: hitem and v :: nat
  assumes ok: "tab_ok ht" and d: "distinct (owned ht)" and f: "find (hit k) (items ht) = Some it"
  defines "ht' \<equiv> hupd (hi_addr it) (\<lambda>x. x\<lparr>hi_val := v\<rparr>) ht"
  shows "tab_ok ht'" and "owned ht' = owned ht" and "hview ht' = (hview ht)(k \<mapsto> v)"
    and "hcount ht' = hcount ht"
proof -
  have it: "it \<in> set (items ht)" "hit k it" using f by (auto simp: find_Some_iff)
  obtain xs ys where s: "items ht = xs @ it # ys" using split_list [OF it(1)] by blast
  have i': "items ht' = xs @ it\<lparr>hi_val := v\<rparr> # ys"
    unfolding ht'_def by (rule items_hupd_split [OF s d])
  have k: "hkey it = k" "\<not> hi_free it" using it(2) by (simp_all add: hit_def)
  have hk: "hkey (it\<lparr>hi_val := v\<rparr>) = k" using k by (simp add: hkey_def)
  have ord: "key_order (xs @ it # ys)" using ok s by (simp add: tab_ok_def)
  then have "key_order (xs @ it\<lparr>hi_val := v\<rparr> # ys)" using k hk by (auto simp: key_order_append key_order_Cons)
  moreover have "item_ok (it\<lparr>hi_val := v\<rparr>)" using ok s by (simp add: tab_ok_def item_ok_def)
  ultimately show "tab_ok ht'" unfolding ht'_def using hk k by (intro tab_ok_hupd [OF ok d s]) auto
  show "owned ht' = owned ht" using i' s by (simp add: owned_def ht'_def)
  have "lview xs k = None" using key_order_view [OF ord] k by simp
  then show "hview ht' = (hview ht)(k \<mapsto> v)"
    using k hk i' s by (auto simp: hview_def lview_append lview_Cons hit_def fun_eq_iff split: option.splits)
  show "hcount ht' = hcount ht" by (simp add: hcount_def ht'_def)
qed

subsection \<open>The interface\<close>

text \<open>
  \<open>good k\<close>: a key the server can pass; \<open>str k\<close> is the string it denotes. After an
  insertion that ran out of memory nothing is promised (\<open>refused\<close> is the result then).
\<close>

datatype 'k cache_op = Put 'k nat | Get 'k | Del 'k

fun spec_op :: "('k \<Rightarrow> byte list) \<Rightarrow> 'k cache_op \<Rightarrow> (byte list \<Rightarrow> nat option) \<Rightarrow>
    nat option \<times> (byte list \<Rightarrow> nat option)" where
  "spec_op str (Put k v) f = (f (str k), f(str k \<mapsto> v))"
| "spec_op str (Get k) f = (f (str k), f)"
| "spec_op str (Del k) f = (f (str k), f(str k := None))"

fun spec_run :: "('k \<Rightarrow> byte list) \<Rightarrow> 'k cache_op list \<Rightarrow> (byte list \<Rightarrow> nat option) \<Rightarrow>
    nat option list \<times> (byte list \<Rightarrow> nat option)" where
  "spec_run str [] f = ([], f)"
| "spec_run str (x # xs) f =
     (case spec_op str x f of (r, f) \<Rightarrow> case spec_run str xs f of (rs, f) \<Rightarrow> (r # rs, f))"

fun op_key :: "'k cache_op \<Rightarrow> 'k" where
  "op_key (Put k v) = k"
| "op_key (Get k) = k"
| "op_key (Del k) = k"

fun run_ops :: "('k cache_op \<Rightarrow> 's \<Rightarrow> (nat option \<times> 's) option res) \<Rightarrow> 'k cache_op list \<Rightarrow> 's \<Rightarrow>
    (nat option list \<times> 's) option res" where
  "run_ops step [] s = Inr (Some ([], s))"
| "run_ops step (x # xs) s =
     rbind (step x s) (\<lambda>r. case r of None \<Rightarrow> Inr None
       | Some (v, s) \<Rightarrow> rbind (run_ops step xs s) (\<lambda>r. Inr (map_option (\<lambda>(vs, s). (v # vs, s)) r)))"

locale cache_map =
  fixes step :: "'k cache_op \<Rightarrow> 's \<Rightarrow> (nat option \<times> 's) option res"
    and ok :: "'s \<Rightarrow> bool" and view :: "'s \<Rightarrow> byte list \<Rightarrow> nat option"
    and good :: "'k \<Rightarrow> bool" and str :: "'k \<Rightarrow> byte list"
  assumes step_law: "ok s \<Longrightarrow> good (op_key x) \<Longrightarrow>
      \<exists>r. step x s = Inr r \<and> (case r of None \<Rightarrow> (\<exists>k v. x = Put k v)
        | Some (v, s') \<Rightarrow> ok s' \<and> spec_op str x (view s) = (v, view s'))"
begin

lemma run_refines:
  assumes "ok s" and "list_all (\<lambda>x. good (op_key x)) xs"
  shows "\<exists>r. run_ops step xs s = Inr r \<and>
    (case r of None \<Rightarrow> (\<exists>k v. Put k v \<in> set xs)
     | Some (vs, s') \<Rightarrow> ok s' \<and> spec_run str xs (view s) = (vs, view s'))"
  using assms
proof (induction xs arbitrary: s)
  case (Cons x xs)
  from step_law [OF Cons.prems(1), of x] Cons.prems(2) obtain r where r: "step x s = Inr r"
    and c: "case r of None \<Rightarrow> (\<exists>k v. x = Put k v)
        | Some (v, s') \<Rightarrow> ok s' \<and> spec_op str x (view s) = (v, view s')" by auto
  show ?case
  proof (cases r)
    case None
    with r c show ?thesis by auto
  next
    case (Some p)
    obtain v s' where p: "p = (v, s')" by (cases p)
    with c Some have s': "ok s'" "spec_op str x (view s) = (v, view s')" by auto
    from Cons.IH [OF s'(1)] Cons.prems(2) obtain r' where r': "run_ops step xs s' = Inr r'"
      "case r' of None \<Rightarrow> (\<exists>k v. Put k v \<in> set xs)
       | Some (vs, s'') \<Rightarrow> ok s'' \<and> spec_run str xs (view s') = (vs, view s'')" by auto
    then show ?thesis using r Some p s' by (cases r') auto
  qed
qed simp

end

subsection \<open>The table as a cache map\<close>

text \<open>
  One operation of the server on the table: an insertion that overwrites an existing value
  as \<open>CMD_SET\<close> does, a lookup, a deletion as \<open>CMD_DELETE\<close> does. \<open>None\<close>: \<open>hset\<close> returned
  \<open>HERROR\<close>.
\<close>

fun tab_op :: "'m mallocf \<Rightarrow> 'm freef \<Rightarrow> (cptr \<times> nat) cache_op \<Rightarrow> htab \<times> 'm \<Rightarrow>
    (nat option \<times> (htab \<times> 'm)) option res" where
  "tab_op ml fr (Put (key, n) v) (ht, m) =
     rbind (hset ml fr ht key n v m) (\<lambda>(r, ht, m).
     case r of
       HERROR \<Rightarrow> Inr None
     | HSUCCESS \<Rightarrow> Inr (Some (None, (ht, m)))
     | HEXISTS \<Rightarrow>
         rbind (hget ht key n) (\<lambda>it.
         case it of
           None \<Rightarrow> Inl Assert_failed
         | Some it \<Rightarrow> Inr (Some (Some (hi_val it), (hupd (hi_addr it) (\<lambda>x. x\<lparr>hi_val := v\<rparr>) ht, m)))))"
| "tab_op ml fr (Get (key, n)) (ht, m) =
     rbind (hget ht key n) (\<lambda>it. Inr (Some (map_option hi_val it, (ht, m))))"
| "tab_op ml fr (Del (key, n)) (ht, m) =
     rbind (hget ht key n) (\<lambda>it.
     case it of
       None \<Rightarrow> Inr (Some (None, (ht, m)))
     | Some it \<Rightarrow> Inr (Some (Some (hi_val it), (hfree ht it, m))))"

text \<open>A table with exact counters in a state of the allocator that owns its blocks.\<close>

definition htab_inv :: "('m \<Rightarrow> bool) \<Rightarrow> ('m \<Rightarrow> nat set) \<Rightarrow> htab \<times> 'm \<Rightarrow> bool" where
  "htab_inv iv lv = (\<lambda>(ht, m). iv m \<and> tab_ok ht \<and> \<not> crowded ht \<and> holds_blocks (lv m) ht \<and>
     hcount ht = int (card (dom (hview ht))))"

lemma finite_hview [simp]: "finite (dom (hview ht))"
  using finite_lview by (simp add: hview_def)

lemma find_view: "find (hit k) (items ht) = Some it \<Longrightarrow> hview ht k = Some (hi_val it)"
  by (simp add: hview_def lview_def)

lemma find_view_None: "find (hit k) (items ht) = None \<Longrightarrow> hview ht k = None"
  by (simp add: hview_def lview_def)

context total_allocator
begin

lemma tab_op_law:
  assumes s: "htab_inv inv live s" and good: "case op_key x of (key, n) \<Rightarrow> key_ok key n"
  shows "\<exists>r. tab_op ml fr x s = Inr r \<and> (case r of None \<Rightarrow> (\<exists>k v. x = Put k v)
    | Some (v, s') \<Rightarrow> htab_inv inv live s' \<and>
        spec_op (\<lambda>(key, n). key_str key n) x (hview (fst s)) = (v, hview (fst s')))"
proof -
  obtain ht m where sm: "s = (ht, m)" by (cases s)
  obtain key n where kn: "op_key x = (key, n)" by (cases "op_key x")
  have key: "key_ok key n" using good kn by simp
  let ?k = "key_str key n"
  have h: "inv m" "tab_ok ht" "\<not> crowded ht" "holds_blocks (live m) ht" "hcount ht = int (card (dom (hview ht)))"
    using s by (simp_all add: htab_inv_def sm)
  have d: "distinct (owned ht)" using h(4) by (simp add: holds_blocks_def)
  note g = hget_ok [OF h(2) key]
  show ?thesis
  proof (cases x)
    case (Put k v)
    then have x: "x = Put (key, n) v" using kn by simp
    obtain r ht' m' where r: "hset ml fr ht key n v m = Inr (r, ht', m')" "inv m'"
      "r = HEXISTS \<longleftrightarrow> hview ht ?k \<noteq> None" "r = HEXISTS \<Longrightarrow> ht' = ht \<and> m' = m"
      "r = HSUCCESS \<Longrightarrow> set_done (live m) ht ?k v (live m') ht'"
      using set_specD [OF hset_ok h(1-4) key, of v] by (metis le0)
    show ?thesis
    proof (cases r)
      case HERROR
      then show ?thesis using r(1) x sm by simp
    next
      case HSUCCESS
      have sd: "tab_ok ht'" "\<not> crowded ht'" "holds_blocks (live m') ht'" "hview ht' = (hview ht)(?k \<mapsto> v)"
        "hcount ht' = hcount ht + 1" using r(5) HSUCCESS by (simp_all add: set_done_def)
      have none: "hview ht ?k = None" using r(3) HSUCCESS by simp
      then have "card (dom (hview ht')) = Suc (card (dom (hview ht)))" using sd(4) by (simp add: domIff)
      then have "htab_inv inv live (ht', m')" using r(2) sd h(5) by (simp add: htab_inv_def)
      then show ?thesis using r(1) HSUCCESS x sm sd none by simp
    next
      case HEXISTS
      then have e: "ht' = ht" "m' = m" "hview ht ?k \<noteq> None" using r by auto
      then obtain it where it: "find (hit ?k) (items ht) = Some it" by (auto simp: hview_def lview_def)
      note u = hupd_val_ok [OF h(2) d it, of v]
      let ?t = "hupd (hi_addr it) (\<lambda>x. x\<lparr>hi_val := v\<rparr>) ht"
      have "\<not> crowded ?t" using h(3) by (simp add: crowded_def)
      moreover have "dom (hview ?t) = dom (hview ht)" using u(3) e(3) by auto
      ultimately have "htab_inv inv live (?t, m)"
        using h u by (simp add: htab_inv_def holds_blocks_def)
      then show ?thesis using r(1) HEXISTS e g it x sm u(3) find_view [OF it] by simp
    qed
  next
    case (Get k)
    then show ?thesis using g kn sm s by (simp add: hview_def lview_def)
  next
    case (Del k)
    then have x: "x = Del (key, n)" using kn by simp
    show ?thesis
    proof (cases "find (hit ?k) (items ht)")
      case None
      then show ?thesis using g x sm s find_view_None [OF None] by (auto simp: fun_upd_idem)
    next
      case (Some it)
      note f = hfree_ok [OF h(2) d h(3) Some]
      have "?k \<in> dom (hview ht)" using find_view [OF Some] by auto
      moreover from this have "0 < card (dom (hview ht))" using card_gt_0_iff finite_hview by blast
      ultimately have "int (card (dom (hview ht) - {?k})) = int (card (dom (hview ht))) - 1" by simp
      then have "htab_inv inv live (hfree ht it, m)"
        using h f by (simp add: htab_inv_def holds_blocks_def)
      then show ?thesis using g x sm Some f find_view [OF Some] by simp
    qed
  qed
qed

lemma htcreate_inv:
  assumes "inv m" and "ls \<le> 16" and "htcreate ml fr ls m = Inr (Some ht, m')"
  shows "htab_inv inv live (ht, m') \<and> hview ht = Map.empty \<and> fvals (items ht) = {} \<and>
    live m \<subseteq> live m' - set (owned ht)"
  using htcreate_ok [OF assms(1), of ls] assms(2,3) by (auto simp: htab_inv_def)

end

interpretation cache_tab: cache_map "tab_op (li_malloc mf) li_free" "htab_inv slab_inv slab_live"
  "\<lambda>s. hview (fst s)" "\<lambda>(key, n). key_ok key n" "\<lambda>(key, n). key_str key n" for mf
  by unfold_locales (rule slab_alloc.tab_op_law)

subsection \<open>Values that are pointers\<close>

text \<open>How the server overwrites and deletes: the value is set to NULL first.\<close>

abbreviation set_val :: "nat \<Rightarrow> hitem \<Rightarrow> htab \<Rightarrow> htab" where
  "set_val v it \<equiv> hupd (hi_addr it) (\<lambda>x. x\<lparr>hi_val := v\<rparr>)"

lemma find_set_val:
  assumes "tab_ok ht" and "distinct (owned ht)" and f: "find (hit k) (items ht) = Some it"
  shows "find (hit k) (items (set_val v it ht)) = Some (it\<lparr>hi_val := v\<rparr>)"
    and "fvals (items (set_val v it ht)) = fvals (items ht)"
proof -
  obtain xs ys where s: "items ht = xs @ it # ys" and x: "find (hit k) xs = None" and h: "hit k it"
    using find_SomeE [OF f] by metis
  have i: "items (set_val v it ht) = xs @ it\<lparr>hi_val := v\<rparr> # ys" by (rule items_hupd_split [OF s assms(2)])
  have "hit k (it\<lparr>hi_val := v\<rparr>)" "\<not> hi_free it" using h by (simp_all add: hit_def hkey_def)
  with x i s show "find (hit k) (items (set_val v it ht)) = Some (it\<lparr>hi_val := v\<rparr>)"
    "fvals (items (set_val v it ht)) = fvals (items ht)" by (simp_all add: find_append)
qed

lemma hfree_val: "hfree ht (it\<lparr>hi_val := v\<rparr>) = hfree ht it"
  by (simp add: hfree_def)

context total_allocator
begin

lemma overwrite_ok:
  assumes t: "htab_inv inv live (ht, m)" and f: "find (hit k) (items ht) = Some it"
  shows "htab_inv inv live (set_val v it ht, m)" and "hview (set_val v it ht) = (hview ht)(k \<mapsto> v)"
    and "owned (set_val v it ht) = owned ht"
proof -
  have h: "tab_ok ht" "distinct (owned ht)" using t by (simp_all add: htab_inv_def holds_blocks_def)
  note u = hupd_val_ok [OF h f, of v]
  have "dom (hview (set_val v it ht)) = dom (hview ht)" using u(3) find_view [OF f] by auto
  then show "htab_inv inv live (set_val v it ht, m)"
    using t u by (simp add: htab_inv_def holds_blocks_def crowded_def)
  show "hview (set_val v it ht) = (hview ht)(k \<mapsto> v)" "owned (set_val v it ht) = owned ht" using u by simp_all
qed

lemma delete_ok:
  assumes t: "htab_inv inv live (ht, m)" and f: "find (hit k) (items ht) = Some it"
  defines "ht' \<equiv> hfree (set_val 0 it ht) it"
  shows "htab_inv inv live (ht', m)" and "hview ht' = (hview ht)(k := None)" and "owned ht' = owned ht"
    and "fvals (items ht') = insert 0 (fvals (items ht))"
proof -
  note o = overwrite_ok [OF t f, of 0]
  have h0: "tab_ok ht" "distinct (owned ht)" using t by (simp_all add: htab_inv_def holds_blocks_def)
  have h: "tab_ok (set_val 0 it ht)" "distinct (owned (set_val 0 it ht))" "\<not> crowded (set_val 0 it ht)"
    using o(1) by (simp_all add: htab_inv_def holds_blocks_def)
  note g = find_set_val [OF h0 f, of 0]
  note fr = hfree_ok [OF h g(1), unfolded hfree_val]
  have fin: "k \<in> dom (hview (set_val 0 it ht))" using find_view [OF g(1)] by auto
  moreover from this have "0 < card (dom (hview (set_val 0 it ht)))" using card_gt_0_iff finite_hview by blast
  ultimately have "int (card (dom (hview (set_val 0 it ht)) - {k})) = int (card (dom (hview (set_val 0 it ht)))) - 1"
    by simp
  moreover have d: "hview ht' = (hview ht)(k := None)" using fr o(2) by (simp add: ht'_def)
  moreover have "dom (hview ht) - {k} = dom (hview (set_val 0 it ht)) - {k}" unfolding o(2) by auto
  ultimately show "htab_inv inv live (ht', m)"
    using o(1) fr by (simp add: htab_inv_def holds_blocks_def ht'_def)
  show "hview ht' = (hview ht)(k := None)" by (rule d)
  show "owned ht' = owned ht" using fr o(3) by (simp add: ht'_def)
  have "\<not> hi_free it" using f by (auto simp: find_Some_iff hit_def)
  then show "fvals (items ht') = insert 0 (fvals (items ht))"
    using fvals_hupd_flag [OF h(2) g(1), of True] g(2) by (simp add: ht'_def hfree_def)
qed

end

subsection \<open>Tearing down and enumerating\<close>

context total_allocator
begin

lemma free_chain_ok:
  "inv m \<Longrightarrow> distinct (item_addrs ps) \<Longrightarrow> set (item_addrs ps) \<subseteq> live m \<Longrightarrow>
   \<exists>m'. free_chain fr ps m = Inr m' \<and> inv m' \<and> live m' = live m - set (item_addrs ps)"
proof (induction ps arbitrary: m)
  case (Cons p ps)
  obtain m1 where m1: "fr (hi_keyp p) m = Inr m1" "inv m1" "live m1 = live m - {hi_keyp p}"
    using free_law [OF Cons.prems(1), of "hi_keyp p"] Cons.prems(3) by auto
  obtain m2 where m2: "fr (hi_addr p) m1 = Inr m2" "inv m2" "live m2 = live m1 - {hi_addr p}"
    using free_law [OF m1(2), of "hi_addr p"] Cons.prems(2,3) m1(3) by auto
  have "set (item_addrs ps) \<subseteq> live m2" using Cons.prems(2,3) m1(3) m2(3) by auto
  with Cons.IH [OF m2(2)] Cons.prems(2) obtain m3 where
    "free_chain fr ps m2 = Inr m3" "inv m3" "live m3 = live m2 - set (item_addrs ps)" by auto
  with m1 m2 show ?case by auto
qed simp

lemma free_table_ok:
  "inv m \<Longrightarrow> Dangling \<notin> set bs \<Longrightarrow> distinct (item_addrs (concat (map chain_items bs))) \<Longrightarrow>
   set (item_addrs (concat (map chain_items bs))) \<subseteq> live m \<Longrightarrow>
   \<exists>m'. free_table fr bs m = Inr m' \<and> inv m' \<and>
     live m' = live m - set (item_addrs (concat (map chain_items bs)))"
proof (induction bs arbitrary: m)
  case (Cons b bs)
  then obtain ps where b: "b = Chain ps" by (cases b) auto
  have ps: "distinct (item_addrs ps)" "set (item_addrs ps) \<subseteq> live m" using Cons.prems(3,4) by (auto simp: b)
  obtain m1 where m1: "free_chain fr ps m = Inr m1" "inv m1" "live m1 = live m - set (item_addrs ps)"
    using free_chain_ok [OF Cons.prems(1) ps] by blast
  have "set (item_addrs (concat (map chain_items bs))) \<subseteq> live m1" using Cons.prems(3,4) m1(3) by (auto simp: b)
  moreover have "distinct (item_addrs (concat (map chain_items bs)))" "Dangling \<notin> set bs"
    using Cons.prems(2,3) by (auto simp: b)
  ultimately obtain m2 where "free_table fr bs m1 = Inr m2" "inv m2"
    "live m2 = live m1 - set (item_addrs (concat (map chain_items bs)))" using Cons.IH [OF m1(2)] by blast
  with m1 b show ?case by auto
qed simp

lemma htdestroy_ok:
  assumes inv: "inv m" and ok: "tab_ok ht" and own: "holds_blocks (live m) ht"
  shows "\<exists>m'. htdestroy fr ht m = Inr m' \<and> inv m' \<and> live m' = live m - set (owned ht)"
proof -
  have o: "distinct (owned ht)" "set (owned ht) \<subseteq> live m" using own by (simp_all add: holds_blocks_def)
  have its: "concat (map chain_items (ht_table ht)) = items ht" by (simp add: items_def)
  have "Dangling \<notin> set (ht_table ht)" using ok by (simp add: tab_ok_def)
  then obtain m1 where m1: "free_table fr (ht_table ht) m = Inr m1" "inv m1"
    "live m1 = live m - set (item_addrs (items ht))"
    using free_table_ok [OF inv, of "ht_table ht"] o unfolding its by (auto simp: owned_def)
  obtain m2 where m2: "fr (ht_tablep ht) m1 = Inr m2" "inv m2" "live m2 = live m1 - {ht_tablep ht}"
    using free_law [OF m1(2), of "ht_tablep ht"] o m1(3) by (auto simp: owned_def)
  obtain m3 where m3: "fr (ht_addr ht) m2 = Inr m3" "inv m3" "live m3 = live m2 - {ht_addr ht}"
    using free_law [OF m2(2), of "ht_addr ht"] o m1(3) m2(3) by (auto simp: owned_def)
  have "live m3 = live m - set (owned ht)" using m1(3) m2(3) m3(3) by (auto simp: owned_def)
  then show ?thesis using m1(1) m2(1) m3(1,2) by (simp add: htdestroy_def)
qed

text \<open>A table whose next size the allocator refuses.\<close>

lemma hset_refused:
  assumes inv: "inv m" and ok: "tab_ok ht" and own: "holds_blocks (live m) ht" and key: "key_ok key n"
    and abs: "hview ht (key_str key n) = None" and big: "largest < HSIZE (ht_logsize ht + 1) * 8"
    and load: "3 * int (ht_realsize ht) \<le> 4 * (hcount ht + 1)"
  shows "\<exists>ht' m'. hset ml fr ht key n val m = Inr (HERROR, ht', m') \<and>
    (\<forall>ht1 m1. hput ml fr ht key n val m = Inr (HSUCCESS, ht1, m1) \<longrightarrow>
       (\<exists>it. hget ht' key n = Inr (Some it) \<and> hi_val it = val))"
proof -
  obtain r ht1 m1 where p: "hput ml fr ht key n val m = Inr (r, ht1, m1)" "inv m1"
    "r = HEXISTS \<longleftrightarrow> hview ht (key_str key n) \<noteq> None"
    "r = HSUCCESS \<longrightarrow> put_done (live m) ht (key_str key n) val (live m1) ht1"
    using hput_ok [OF inv ok own key, of val] by blast
  obtain d where d: "(32 :: nat) = Suc d" by (metis numeral_eq_Suc)
  have fuel: "hset ml fr ht key n val m = hset_fuel (Suc d) ml fr ht key n val m"
    by (simp only: hset_def d)
  show ?thesis
  proof (cases "r = HSUCCESS")
    case False
    then have "r = HERROR" using p(3) abs by (cases r) auto
    with p(1) show ?thesis unfolding fuel by simp
  next
    case True
    with p(4) have pd: "tab_ok ht1" "hview ht1 = (hview ht)(key_str key n \<mapsto> val)" "hcount ht1 = hcount ht + 1"
      "ht_logsize ht1 = ht_logsize ht" by (simp_all add: put_done_def)
    have cr: "crowded ht1" using load pd(1,3,4) ok by (simp add: crowded_def hcount_def tab_ok_def)
    have ls: "ht_logsize ht1 + 1 \<le> 18" using pd(1) by (simp add: tab_ok_def)
    have none: "\<exists>m2. htcreate ml fr (ht_logsize ht1 + 1) m1 = Inr (None, m2)"
      using p(2)
    proof (cases rule: malloc_cases [where n = sizeof_htab])
      case none
      then show ?thesis by (simp add: htcreate_def)
    next
      case (some a m2)
      have "ml (HSIZE (ht_logsize ht1 + 1) * 8) m2 = Inr (None, m2)"
        using largest_law [OF some(2)] big pd(4) by simp
      moreover obtain m3 where "fr a m2 = Inr m3" using free_law [OF some(2), of a] some(5) by auto
      ultimately show ?thesis using some(1) ls by (simp add: htcreate_def)
    qed
    then obtain m2 where "hset ml fr ht key n val m = Inr (HERROR, ht1, m2)"
      using p(1) True cr unfolding fuel by (auto simp: hgrow_def)
    moreover have "\<exists>it. hget ht1 key n = Inr (Some it) \<and> hi_val it = val"
      using hget_view [OF pd(1) key] pd(2) by (auto simp: map_option_case split: option.splits)
    ultimately show ?thesis by auto
  qed
qed

end

fun visit :: "(hitem \<Rightarrow> 's \<Rightarrow> (bool \<times> 's) res) \<Rightarrow> hitem list \<Rightarrow> 's \<Rightarrow> (bool \<times> 's) res" where
  "visit fn [] s = Inr (False, s)"
| "visit fn (p # ps) s = rbind (fn p s) (\<lambda>(rc, s). if rc then Inr (True, s) else visit fn ps s)"

lemma henum_chain_visit: "henum_chain fn e ps s = visit fn (filter (\<lambda>p. \<not> hi_free p \<or> e) ps) s"
  by (induction ps arbitrary: s) (auto simp: rbind_def split: sum.splits)

lemma visit_append:
  "visit fn (ps @ qs) s = rbind (visit fn ps s) (\<lambda>(rc, s). if rc then Inr (True, s) else visit fn qs s)"
proof (induction ps arbitrary: s)
  case (Cons p ps)
  show ?case by (cases "fn p s") (auto simp: Cons.IH split: if_splits)
qed simp

lemma henum_table_visit:
  "Dangling \<notin> set bs \<Longrightarrow>
   henum_table fn e bs s = rbind (visit fn (filter (\<lambda>p. \<not> hi_free p \<or> e) (concat (map chain_items bs))) s) (\<lambda>(rc, s). Inr s)"
proof (induction bs arbitrary: s)
  case (Cons b bs)
  then obtain ps where b: "b = Chain ps" by (cases b) auto
  show ?case
    using Cons by (cases "visit fn (filter (\<lambda>p. \<not> hi_free p \<or> e) ps) s")
      (auto simp: b henum_chain_visit visit_append split: if_splits)
qed simp

end
