(* ===== verification/Hashtab_Props.thy ===== *)
theory Hashtab_Props
  imports Hashtab_Correct
begin

text \<open>
  The properties of the hash table in the slab mode, the one the server runs in by default.
\<close>

subsection \<open>A table to evaluate at\<close>

lemma li_malloc_slab:
  assumes "\<not> use_sys_malloc m" and "n \<noteq> 0" and "scmalloc n (slabst m) = Inr (r, s')"
  shows "li_malloc mf n m = Inr (r, m\<lparr>slabst := s'\<rparr>)"
  using assms by (simp add: li_malloc_def)

lemma sample_table_size:
  assumes ls: "ls \<le> 16"
  obtains ht m where "htcreate (li_malloc mf) li_free ls sample_mem = Inr (Some ht, m)"
    and "htab_inv slab_inv slab_live (ht, m)" and "hview ht = Map.empty"
proof -
  have "(2::nat) ^ ls \<le> 2 ^ 16" using ls by (intro power_increasing) auto
  then have sz: "HSIZE ls * 8 \<le> 963984" "HSIZE ls * 8 \<noteq> 0" by (simp_all add: HSIZE_def)
  have e: "chunks sample_cm = {}" using fresh_cm_ok(2) [OF sample_fresh] by simp
  have len: "length (slab_ctls sample_cm) = 63" by (simp add: sample_cm_def)
  obtain x c s1 where a: "scmalloc 32 sample_state = Inr (Some (chunk_addr c x), s1)" "cm s1 = Some c"
    "slab_ok s1" "alloc_step sample_cm x c"
    using sample_step [OF sample_ok sample_cm, of "(0, 0)" 32] e len by (auto simp: sample_last)
  have lay: "same_layout sample_cm c" "chunks c = {x}" using a(4) e by (simp_all add: alloc_step_def)
  then have len': "length (slab_ctls c) = 63" using len by (simp add: same_layout_def)
  have "std_classes s1"
    using std_classes_step [OF _ sample_cm lay(1) a(2)] sample_mem_inv by (simp add: slab_inv_def sample_mem_def)
  then have "chunk_size (last (caches c)) = 963984" using std_last a(2) by (simp add: largest_chunk_def)
  then obtain y c' s2 where b: "scmalloc (HSIZE ls * 8) s1 = Inr (Some (chunk_addr c' y), s2)"
    using sample_step [OF a(3,2), of x "HSIZE ls * 8"] lay(2) len' sz by auto
  have m1: "li_malloc mf 32 sample_mem = Inr (Some (chunk_addr c x), sample_mem\<lparr>slabst := s1\<rparr>)"
    using a(1) by (intro li_malloc_slab) (simp_all add: sample_mem_def)
  have m2: "li_malloc mf (HSIZE ls * 8) (sample_mem\<lparr>slabst := s1\<rparr>) = Inr (Some (chunk_addr c' y), sample_mem\<lparr>slabst := s2\<rparr>)"
    using b sz(2) by (subst li_malloc_slab [where s' = s2]) (simp_all add: sample_mem_def)
  have "\<exists>ht m. htcreate (li_malloc mf) li_free ls sample_mem = Inr (Some ht, m)"
    using m1 m2 ls by (simp add: htcreate_def sizeof_htab_def)
  then obtain ht m where h: "htcreate (li_malloc mf) li_free ls sample_mem = Inr (Some ht, m)" by blast
  with slab_alloc.htcreate_inv [OF sample_mem_inv ls h] that show thesis by auto
qed

lemma sample_table:
  obtains ht m where "htcreate (li_malloc mf) li_free 4 sample_mem = Inr (Some ht, m)"
    and "htab_inv slab_inv slab_live (ht, m)" and "hview ht = Map.empty"
  using sample_table_size [of 4 mf] by auto

definition sample_key :: cptr where
  "sample_key = Some [102, 111, 111, 0]"

lemma sample_key_ok: "key_ok sample_key 3"
  by (simp add: sample_key_def key_ok_def)

subsection \<open>Properties\<close>

text \<open>
  C23: \<open>hset\<close> on a table in use never faults and always ends, nested growing included. It
  returns \<open>HEXISTS\<close> and changes nothing exactly when the key has a value; otherwise it
  returns \<open>HSUCCESS\<close>, and the map is the old one with the new pair, the counters stay exact,
  the load stays below 3/4 and no block of anybody else is touched, or \<open>HERROR\<close>.
\<close>

theorem hset_correct:
  assumes "htab_inv slab_inv slab_live (ht, m)" and "key_ok key n"
  shows "\<exists>r ht' m'. hset (li_malloc mf) li_free ht key n val m = Inr (r, ht', m') \<and> slab_inv m' \<and>
    (case r of
       HEXISTS \<Rightarrow> hview ht (key_str key n) \<noteq> None \<and> ht' = ht \<and> m' = m
     | HSUCCESS \<Rightarrow> hview ht (key_str key n) = None \<and> hview ht' = (hview ht)(key_str key n \<mapsto> val) \<and>
         htab_inv slab_inv slab_live (ht', m') \<and>
         slab_live m - set (owned ht) \<subseteq> slab_live m' - set (owned ht')
     | HERROR \<Rightarrow> hview ht (key_str key n) = None)"
proof -
  let ?k = "key_str key n"
  have h: "slab_inv m" "tab_ok ht" "\<not> crowded ht" "holds_blocks (slab_live m) ht"
    "hcount ht = int (card (dom (hview ht)))"
    using assms(1) by (simp_all add: htab_inv_def)
  obtain r ht' m' where r: "hset (li_malloc mf) li_free ht key n val m = Inr (r, ht', m')" "slab_inv m'"
    "r = HEXISTS \<longleftrightarrow> hview ht ?k \<noteq> None" "r = HEXISTS \<Longrightarrow> ht' = ht \<and> m' = m"
    "r = HSUCCESS \<Longrightarrow> set_done (slab_live m) ht ?k val (slab_live m') ht'"
    using slab_alloc.set_specD [OF slab_alloc.hset_ok h(1-4) assms(2), of mf val] by (metis le0)
  show ?thesis
  proof (cases r)
    case HSUCCESS
    then have sd: "tab_ok ht'" "\<not> crowded ht'" "holds_blocks (slab_live m') ht'" "hview ht' = (hview ht)(?k \<mapsto> val)"
      "hcount ht' = hcount ht + 1" "keeps_rest (slab_live m) ht (slab_live m') ht'"
      using r(5) by (simp_all add: set_done_def)
    have "hview ht ?k = None" using r(3) HSUCCESS by simp
    moreover from this have "card (dom (hview ht')) = Suc (card (dom (hview ht)))" using sd(4) by (simp add: domIff)
    ultimately show ?thesis using r(1,2) HSUCCESS sd h(5) by (simp add: htab_inv_def keeps_rest_def)
  qed (use r in auto)
qed

theorem hset_correct_witness:
  "\<exists>ht m r. htab_inv slab_inv slab_live (ht, m) \<and> hset (li_malloc bump_malloc) li_free ht sample_key 3 7 m = Inr r"
proof -
  obtain ht m where "htab_inv slab_inv slab_live (ht, m)" by (rule sample_table [of bump_malloc])
  with hset_correct [OF this sample_key_ok, of bump_malloc 7] show ?thesis by blast
qed



text \<open>
  C26: \<open>hget\<close> never faults on a table in use. It returns a live item with the key asked for,
  the one that carries its value in the map, and NULL exactly when the key is not there;
  releasing that item with \<open>hfree\<close> takes exactly this key out of the map and one off
  \<open>hcount\<close>.
\<close>

theorem hget_hfree_correct:
  assumes "htab_inv slab_inv slab_live (ht, m)" and "key_ok key n"
  shows "\<exists>r. hget ht key n = Inr r \<and>
    (case r of
       None \<Rightarrow> hview ht (key_str key n) = None
     | Some it \<Rightarrow> \<not> hi_free it \<and> hkey it = key_str key n \<and> hview ht (key_str key n) = Some (hi_val it) \<and>
         hview (hfree ht it) = (hview ht)(key_str key n := None) \<and> hcount (hfree ht it) = hcount ht - 1 \<and>
         hget (hfree ht it) key n = Inr None)"
proof -
  have h: "tab_ok ht" "\<not> crowded ht" "distinct (owned ht)"
    using assms(1) by (simp_all add: htab_inv_def holds_blocks_def)
  show ?thesis
  proof (cases "find (hit (key_str key n)) (items ht)")
    case None
    then show ?thesis using hget_ok [OF h(1) assms(2)] find_view_None by auto
  next
    case (Some it)
    then have it: "hit (key_str key n) it" by (auto simp: find_Some_iff)
    note f = hfree_ok [OF h(1,3,2) Some]
    then have "hview (hfree ht it) (key_str key n) = None" by simp
    then have "hget (hfree ht it) key n = Inr None"
      using hget_ok [of "hfree ht it" key n] f assms(2) by (simp add: hview_def lview_def)
    then show ?thesis using hget_ok [OF h(1) assms(2)] Some it f find_view [OF Some] by (simp add: hit_def)
  qed
qed

theorem hget_hfree_correct_witness:
  "\<exists>ht m. htab_inv slab_inv slab_live (ht, m) \<and> hget ht sample_key 3 = Inr None"
proof -
  obtain ht m where a: "htab_inv slab_inv slab_live (ht, m)" "hview ht = Map.empty"
    by (rule sample_table [of bump_malloc])
  with hget_hfree_correct [OF a(1) sample_key_ok] show ?thesis by (auto split: option.splits)
qed

text \<open>
  C27: \<open>htdestroy\<close> frees the table, its bucket array, every item and every key exactly once:
  afterwards the blocks in use are those in use before less the table's own.
\<close>

theorem htdestroy_frees_all:
  assumes "htab_inv slab_inv slab_live (ht, m)"
  shows "\<exists>m'. htdestroy li_free ht m = Inr m' \<and> slab_inv m' \<and> slab_live m' = slab_live m - set (owned ht)"
  using assms slab_alloc.htdestroy_ok by (simp add: htab_inv_def)

theorem htdestroy_frees_all_witness:
  "\<exists>ht m m'. htab_inv slab_inv slab_live (ht, m) \<and> htdestroy li_free ht m = Inr m' \<and> ht_addr ht \<notin> slab_live m'"
proof -
  obtain ht m where a: "htab_inv slab_inv slab_live (ht, m)" by (rule sample_table [of bump_malloc])
  with htdestroy_frees_all [OF a] show ?thesis by (auto simp: owned_def)
qed

text \<open>
  C28: on a table without dangling buckets \<open>henum\<close> calls the callback on the live items (on
  all items with \<open>enum_free\<close>), each once, bucket by bucket, until it asks to stop.
\<close>

theorem henum_visits:
  assumes "Dangling \<notin> set (ht_table ht)"
  shows "henum ht fn enum_free s =
    rbind (visit fn (filter (\<lambda>p. \<not> hi_free p \<or> enum_free) (items ht)) s) (\<lambda>(rc, s). Inr s)"
  using henum_table_visit [OF assms] by (simp add: henum_def items_def)

definition demo_item :: "nat \<Rightarrow> bool \<Rightarrow> hitem" where
  "demo_item a fl = \<lparr>hi_addr = a, hi_keyp = a + 1, hi_key = [97, 0], hi_klen = 1, hi_val = a, hi_free = fl\<rparr>"

definition demo_table :: htab where
  "demo_table = \<lparr>ht_addr = 1, ht_realsize = 2, ht_logsize = 1, ht_count = 3, ht_mask = 1, ht_freecount = 1,
     ht_tablep = 2, ht_table = [Chain [demo_item 10 True, demo_item 20 False], Chain [demo_item 30 False]]\<rparr>"

theorem henum_visits_witness:
  "henum demo_table (\<lambda>p l. Inr (False, hi_addr p # l)) False [] = Inr [30, 20]"
proof -
  have "Dangling \<notin> set (ht_table demo_table)" by (simp add: demo_table_def)
  from henum_visits [OF this, of "\<lambda>p l. Inr (False, hi_addr p # l)" False "[]"]
  show ?thesis by (simp add: demo_table_def items_def demo_item_def)
qed

text \<open>
  C29: in the slab mode the table cannot grow past 65536 buckets, because the next bucket
  array is larger than the largest chunk. From 49151 keys on, every insertion of a new key
  returns \<open>HERROR\<close>, although, when the item could be allocated, it was inserted and
  \<open>hget\<close> finds it with the value the caller was told was not stored.
\<close>

theorem hset_limit:
  assumes "slab_inv m" and "tab_ok ht" and "holds_blocks (slab_live m) ht"
    and "key_ok key n" and "hview ht (key_str key n) = None"
    and "ht_logsize ht = 16" and "49151 \<le> hcount ht"
  shows "\<exists>ht' m'. hset (li_malloc mf) li_free ht key n val m = Inr (HERROR, ht', m') \<and>
    (\<forall>ht1 m1. hput (li_malloc mf) li_free ht key n val m = Inr (HSUCCESS, ht1, m1) \<longrightarrow>
       (\<exists>it. hget ht' key n = Inr (Some it) \<and> hi_val it = val))"
proof -
  have "largest_chunk < HSIZE (ht_logsize ht + 1) * 8" by (simp add: assms(6) HSIZE_def largest_chunk_def)
  moreover have "3 * int (ht_realsize ht) \<le> 4 * (hcount ht + 1)" using assms(2,6,7) by (simp add: tab_ok_def)
  ultimately show ?thesis using slab_alloc.hset_refused [OF assms(1-5)] by blast
qed

theorem hset_limit_witness:
  "\<exists>ht m ht' m'. ht_logsize ht = 16 \<and> tab_ok ht \<and> hview ht = Map.empty \<and>
     hset (li_malloc bump_malloc) li_free ht sample_key 3 7 m = Inr (HERROR, ht', m')"
proof -
  obtain ht m where t: "htcreate (li_malloc bump_malloc) li_free 16 sample_mem = Inr (Some ht, m)"
    and i: "htab_inv slab_inv slab_live (ht, m)" and v: "hview ht = Map.empty"
    using sample_table_size [of 16 bump_malloc] by auto
  have l: "ht_logsize ht = 16" using t by (auto simp: htcreate_def rbind_eq_Inr_iff split: option.splits)
  have z: "hcount ht = 0" using i v by (simp add: htab_inv_def)
  let ?t = "ht\<lparr>ht_count := ht_count ht + 49151\<rparr>"
  have "slab_inv m" "tab_ok ?t" "holds_blocks (slab_live m) ?t" "hview ?t (key_str sample_key 3) = None"
    "ht_logsize ?t = 16" "49151 \<le> hcount ?t"
    using i v l z by (simp_all add: htab_inv_def holds_blocks_def hcount_def)
  with hset_limit [of m ?t sample_key 3 bump_malloc 7] sample_key_ok v show ?thesis
    by (metis count_frame(4,8))
qed

end
