(* ===== verification/Server.thy ===== *)
theory Server
  imports Protocol Hashtab_Props
begin

text \<open>
  The state of the server and its connections: \<open>make_conn\<close>, the release of requests and
  responses, the states of a connection and its registration with \<open>epoll\<close>
  (\<open>src/lightcache.c\<close> up to \<open>flush_item_enum\<close>, \<open>src/epoll.c\<close>). Requests and buffers are
  looked up by address; an address that was freed has no object any more unless the
  allocator has given it out again.
\<close>

subsection \<open>The environment of one step\<close>

text \<open>
  What the kernel and the C library answer during the handling of one event: the clock, the
  contents of fresh memory, the system's \<open>malloc\<close>, and the results of \<open>read\<close>, \<open>write\<close>,
  \<open>accept\<close> and \<open>epoll_ctl\<close> (\<open>e_ctl\<close>: an error besides the ones that follow from what is
  registered). The clock is read once per event.
\<close>

datatype ctl_op = EPOLL_CTL_ADD | EPOLL_CTL_MOD | EPOLL_CTL_DEL
datatype errno = EEXIST | ENOENT | EOTHER
datatype rd_result = Rd_eof | Rd_again | Rd_error | Rd_byte byte
datatype wr_result = Wr_again | Wr_error | Wr_bytes nat

record env =
  e_now :: int
  e_junk :: "ptr \<Rightarrow> nat \<Rightarrow> byte"
  e_conn :: "ptr \<Rightarrow> conn"
  e_malloc :: malloc_fun
  e_rd :: rd_result
  e_wr :: wr_result
  e_accept :: "int option"
  e_ctl :: "ctl_op \<Rightarrow> int \<Rightarrow> errno option"
  e_pid :: int

subsection \<open>The state\<close>

text \<open>
  \<open>sv_watch\<close> is the interest list of the epoll instance, \<open>sv_sent\<close> the bytes written so far
  with their descriptors, \<open>sv_closed\<close> the descriptors closed. The connections are in the
  order of the linked list \<open>conns\<close>.
\<close>

record server =
  sv_mem :: memst
  sv_reqs :: "ptr \<Rightarrow> request option"
  sv_bufs :: "ptr \<Rightarrow> byte list option"
  sv_conns :: "conn list"
  sv_cache :: htab
  sv_settings :: settings
  sv_stats :: stats
  sv_watch :: "int \<Rightarrow> (event \<times> ptr) option"
  sv_sent :: "(int \<times> byte) list"
  sv_closed :: "int list"

definition conn_of :: "server \<Rightarrow> ptr \<Rightarrow> conn res" where
  "conn_of s p = (case find (\<lambda>c. c_addr c = p) (sv_conns s) of None \<Rightarrow> Inl Use_after_free | Some c \<Rightarrow> Inr c)"

definition upd_conn :: "ptr \<Rightarrow> (conn \<Rightarrow> conn) \<Rightarrow> server \<Rightarrow> server" where
  "upd_conn p f s = s\<lparr>sv_conns := map (\<lambda>c. if c_addr c = p then f c else c) (sv_conns s)\<rparr>"

definition req_of :: "server \<Rightarrow> ptr \<Rightarrow> request res" where
  "req_of s q =
     (if q = 0 then Inl Null_deref
      else case sv_reqs s q of None \<Rightarrow> Inl Use_after_free | Some r \<Rightarrow> Inr r)"

definition upd_req :: "ptr \<Rightarrow> (request \<Rightarrow> request) \<Rightarrow> server \<Rightarrow> server" where
  "upd_req q f s = s\<lparr>sv_reqs := (sv_reqs s)(q := map_option f (sv_reqs s q))\<rparr>"

text \<open>A \<open>char *\<close> argument; NULL is passed on.\<close>

definition buf_of :: "server \<Rightarrow> ptr \<Rightarrow> cptr res" where
  "buf_of s b =
     (if b = 0 then Inr None
      else case sv_bufs s b of None \<Rightarrow> Inl Use_after_free | Some xs \<Rightarrow> Inr (Some xs))"

definition upd_stats :: "(stats \<Rightarrow> stats) \<Rightarrow> server \<Rightarrow> server" where
  "upd_stats f s = s\<lparr>sv_stats := f (sv_stats s)\<rparr>"

text \<open>\<open>li_malloc\<close> (NULL is 0) and \<open>li_free\<close> on the state.\<close>

definition s_malloc :: "env \<Rightarrow> nat \<Rightarrow> server \<Rightarrow> (ptr \<times> server) res" where
  "s_malloc e n s =
     rbind (li_malloc (e_malloc e) n (sv_mem s)) (\<lambda>(r, m).
       Inr (case r of None \<Rightarrow> 0 | Some a \<Rightarrow> a, s\<lparr>sv_mem := m\<rparr>))"

definition new_buf :: "env \<Rightarrow> nat \<Rightarrow> server \<Rightarrow> (ptr \<times> server) res" where
  "new_buf e n s =
     rbind (s_malloc e n s) (\<lambda>(a, s).
       if a = 0 then Inr (0, s)
       else Inr (a, s\<lparr>sv_bufs := (sv_bufs s)(a := Some (map (e_junk e a) [0..<n]))\<rparr>))"

definition s_free :: "ptr \<Rightarrow> server \<Rightarrow> server res" where
  "s_free p s =
     rbind (li_free p (sv_mem s)) (\<lambda>m.
       Inr (s\<lparr>sv_mem := m, sv_reqs := (sv_reqs s)(p := None), sv_bufs := (sv_bufs s)(p := None)\<rparr>))"

text \<open>A store into a buffer.\<close>

definition poke :: "ptr \<Rightarrow> nat \<Rightarrow> byte \<Rightarrow> server \<Rightarrow> server res" where
  "poke a i b s =
     (if a = 0 then Inl Null_deref
      else case sv_bufs s a of
        None \<Rightarrow> Inl Use_after_free
      | Some xs \<Rightarrow>
          if length xs \<le> i then Inl Out_of_bounds
          else Inr (s\<lparr>sv_bufs := (sv_bufs s)(a := Some (xs[i := b]))\<rparr>))"

subsection \<open>epoll\<close>

text \<open>\<open>epoll_ctl\<close> on the interest list; the errors first are those the interface documents.\<close>

definition epoll_ctl :: "env \<Rightarrow> ctl_op \<Rightarrow> int \<Rightarrow> event \<times> ptr \<Rightarrow> server \<Rightarrow> errno option \<times> server" where
  "epoll_ctl e op fd ev s =
     (if op = EPOLL_CTL_ADD \<and> sv_watch s fd \<noteq> None then (Some EEXIST, s)
      else if op \<noteq> EPOLL_CTL_ADD \<and> sv_watch s fd = None then (Some ENOENT, s)
      else
        (case e_ctl e op fd of
           Some x \<Rightarrow> (Some x, s)
         | None \<Rightarrow> (None, s\<lparr>sv_watch := (sv_watch s)(fd := (if op = EPOLL_CTL_DEL then None else Some ev))\<rparr>)))"

definition event_del :: "env \<Rightarrow> conn \<Rightarrow> server \<Rightarrow> bool \<times> server" where
  "event_del e c s =
     (case epoll_ctl e EPOLL_CTL_DEL (c_fd c) (EVENT_READ, 0) s of (r, s) \<Rightarrow> (r = None, s))"

definition event_set :: "env \<Rightarrow> conn \<Rightarrow> event \<Rightarrow> server \<Rightarrow> bool \<times> server" where
  "event_set e c ev s =
     (case epoll_ctl e EPOLL_CTL_ADD (c_fd c) (ev, c_addr c) s of (r, s) \<Rightarrow>
        if r = Some EEXIST then
          (case epoll_ctl e EPOLL_CTL_MOD (c_fd c) (ev, c_addr c) s of (r, s) \<Rightarrow> (r = None, s))
        else (True, s))"

text \<open>\<open>close\<close> takes the descriptor out of the interest list.\<close>

definition close_fd :: "int \<Rightarrow> server \<Rightarrow> server" where
  "close_fd fd s = s\<lparr>sv_watch := (sv_watch s)(fd := None), sv_closed := sv_closed s @ [fd]\<rparr>"

subsection \<open>Connections\<close>

text \<open>
  \<open>make_conn\<close>: the first free connection of the list, or a new one at its head. What a new
  structure holds in the fields that are not set here is \<open>e_conn\<close>. The result 0 is NULL.
\<close>

definition raw_conn :: "env \<Rightarrow> ptr \<Rightarrow> conn" where
  "raw_conn e a =
     (e_conn e a)\<lparr>c_addr := a, c_out := (c_out (e_conn e a))\<lparr>rs_header := map (e_junk e a) [32..<40]\<rparr>\<rparr>"

definition init_conn :: "env \<Rightarrow> int \<Rightarrow> conn \<Rightarrow> conn" where
  "init_conn e fd c =
     c\<lparr>c_fd := fd, last_heard := e_now e, c_listening := False, c_free := False, c_in := 0\<rparr>"

definition make_conn :: "env \<Rightarrow> int \<Rightarrow> server \<Rightarrow> (ptr \<times> server) res" where
  "make_conn e fd s =
     rbind
       (case find c_free (sv_conns s) of
          Some c \<Rightarrow> Inr (c_addr c, s)
        | None \<Rightarrow>
            rbind (s_malloc e sizeof_conn s) (\<lambda>(a, s).
              if a = 0 then Inr (0, s)
              else Inr (a, s\<lparr>sv_conns := raw_conn e a # sv_conns s\<rparr>)))
       (\<lambda>(p, s).
          if p = 0 then Inr (0, s)
          else
            Inr (p, upd_stats (\<lambda>t. t\<lparr>curr_connections := u64 (curr_connections t + 1)\<rparr>)
                      (upd_conn p (init_conn e fd) s)))"

text \<open>The three buffers of a request and the request itself.\<close>

definition free_req_blocks :: "ptr \<Rightarrow> request \<Rightarrow> server \<Rightarrow> server res" where
  "free_req_blocks q r s =
     rbind (s_free (rkey r) s) (\<lambda>s.
     rbind (s_free (rdata r) s) (\<lambda>s.
     rbind (s_free (rextra r) s) (s_free q)))"

definition del_cached_req :: "hitem \<Rightarrow> server \<Rightarrow> server res" where
  "del_cached_req it s =
     rbind
       (if hi_val it \<noteq> 0 then
          rbind (req_of s (hi_val it)) (\<lambda>r. free_req_blocks (hi_val it) r s)
        else Inr s)
       (\<lambda>s. Inr (s\<lparr>sv_cache := hupd (hi_addr it) (\<lambda>x. x\<lparr>hi_val := 0\<rparr>) (sv_cache s)\<rparr>))"

definition free_request :: "ptr \<Rightarrow> server \<Rightarrow> server res" where
  "free_request p s =
     rbind (conn_of s p) (\<lambda>c.
     if c_in c = 0 then Inr s
     else
       rbind (req_of s (c_in c)) (\<lambda>r.
       if \<not> rq_can_free r then Inr s
       else
         rbind (free_req_blocks (c_in c) r s) (\<lambda>s.
           Inr (upd_conn p (\<lambda>c. c\<lparr>c_in := 0\<rparr>) s))))"

definition free_response :: "ptr \<Rightarrow> server \<Rightarrow> server res" where
  "free_response p s =
     rbind (conn_of s p) (\<lambda>c.
     rbind (if rs_can_free (c_out c) then s_free (sdata (c_out c)) s else Inr s) (\<lambda>s.
       Inr (upd_conn p (\<lambda>c. c\<lparr>c_out := (c_out c)\<lparr>sdata := 0\<rparr>\<rparr>) s)))"

text \<open>A new request; \<open>received\<close> is not set here, and is written before it is read.\<close>

definition fresh_request :: "env \<Rightarrow> ptr \<Rightarrow> request" where
  "fresh_request e a =
     \<lparr>rq_header = map (e_junk e a) [0..<sizeof_req_header], rdata = 0, rkey = 0, rextra = 0, rbytes = 0,
      received = 0, rq_can_free = True\<rparr>"

definition init_resources :: "env \<Rightarrow> ptr \<Rightarrow> server \<Rightarrow> (bool \<times> server) res" where
  "init_resources e p s =
     rbind (free_request p s) (\<lambda>s.
     rbind (free_response p s) (\<lambda>s.
     rbind (s_malloc e sizeof_request s) (\<lambda>(a, s).
     if a = 0 then Inr (False, upd_conn p (\<lambda>c. c\<lparr>c_in := 0\<rparr>) s)
     else
       Inr (True,
         upd_conn p (\<lambda>c. c\<lparr>c_in := a, c_out := (c_out c)\<lparr>sdata := 0, sbytes := 0, rs_can_free := True\<rparr>\<rparr>)
           (s\<lparr>sv_reqs := (sv_reqs s)(a := Some (fresh_request e a))\<rparr>)))))"

subsection \<open>States of a connection\<close>

text \<open>
  The branches of \<open>set_conn_state\<close> that call nothing but \<open>event_set\<close>; the others reach
  \<open>disconnect_conn\<close> and \<open>send_response\<close>, which come back here with \<open>CONN_CLOSED\<close> and
  \<open>SEND_HEADER\<close>.
\<close>

definition set_state_plain :: "env \<Rightarrow> ptr \<Rightarrow> conn_states \<Rightarrow> server \<Rightarrow> server res" where
  "set_state_plain e p st s =
     rbind
       (if st = SEND_HEADER then
          (let s = upd_conn p (\<lambda>c. c\<lparr>c_out := (c_out c)\<lparr>sbytes := 0\<rparr>\<rparr>) s in
           rbind (conn_of s p) (\<lambda>c. Inr (snd (event_set e c EVENT_WRITE s))))
        else Inr s)
       (\<lambda>s. Inr (upd_conn p (\<lambda>c. c\<lparr>c_state := st\<rparr>) s))"

definition disconnect_conn :: "env \<Rightarrow> ptr \<Rightarrow> server \<Rightarrow> server res" where
  "disconnect_conn e p s =
     rbind (free_request p s) (\<lambda>s.
     rbind (free_response p s) (\<lambda>s.
     let s = upd_conn p (\<lambda>c. c\<lparr>c_free := True\<rparr>) s in
     rbind (conn_of s p) (\<lambda>c.
     let s = close_fd (c_fd c) (snd (event_del e c s));
         s = upd_stats (\<lambda>t. t\<lparr>curr_connections := sub64 (curr_connections t) 1\<rparr>) s in
     set_state_plain e p CONN_CLOSED s)))"

definition resp_fields :: "byte \<Rightarrow> code_t \<Rightarrow> nat \<Rightarrow> byte list \<Rightarrow> byte list" where
  "resp_fields op code n h = store32 4 (htonl n) (h[0 := op, 1 := code_byte code])"

definition add_response :: "env \<Rightarrow> ptr \<Rightarrow> ptr \<Rightarrow> nat \<Rightarrow> code_t \<Rightarrow> server \<Rightarrow> server res" where
  "add_response e p dat n code s =
     rbind (conn_of s p) (\<lambda>c.
     rbind (req_of s (c_in c)) (\<lambda>r.
     set_state_plain e p SEND_HEADER
       (upd_conn p (\<lambda>c. c\<lparr>c_out := (c_out c)\<lparr>
            rs_header := resp_fields (rq_opcode (rq_header r)) code n (rs_header (c_out c)),
            sdata := dat, rs_can_free := True\<rparr>\<rparr>) s)))"

definition send_response :: "env \<Rightarrow> ptr \<Rightarrow> code_t \<Rightarrow> server \<Rightarrow> server res" where
  "send_response e p code s = add_response e p 0 0 code s"

text \<open>
  \<open>READ_KEY\<close>, \<open>READ_DATA\<close>, \<open>READ_EXTRA\<close>: a buffer of the announced length and a closing 0
  (\<open>n\<close> is the size that is passed to \<open>li_malloc\<close>).
\<close>

definition take_buffer ::
  "env \<Rightarrow> ptr \<Rightarrow> conn_states \<Rightarrow> (byte list \<Rightarrow> nat) \<Rightarrow> (ptr \<Rightarrow> request \<Rightarrow> request) \<Rightarrow> server \<Rightarrow> server res" where
  "take_buffer e p st len setp s =
     rbind (conn_of s p) (\<lambda>c.
     rbind (req_of s (c_in c)) (\<lambda>r.
     let n = len (rq_header r) in
     rbind (new_buf e (u32 (n + 1)) s) (\<lambda>(a, s).
     let s = upd_req (c_in c) (setp a) s in
     if a = 0 then send_response e p OUT_OF_MEMORY s
     else rbind (poke a n 0 s) (set_state_plain e p st))))"

definition set_conn_state :: "env \<Rightarrow> ptr \<Rightarrow> conn_states \<Rightarrow> server \<Rightarrow> server res" where
  "set_conn_state e p st s =
     (case st of
        READ_HEADER \<Rightarrow>
          rbind (init_resources e p s) (\<lambda>(ok, s).
          if \<not> ok then disconnect_conn e p s
          else
            rbind (conn_of s p) (\<lambda>c.
            set_state_plain e p READ_HEADER (snd (event_set e c EVENT_READ s))))
      | READ_KEY \<Rightarrow> take_buffer e p READ_KEY key_length (\<lambda>a r. r\<lparr>rkey := a\<rparr>) s
      | READ_DATA \<Rightarrow> take_buffer e p READ_DATA data_length (\<lambda>a r. r\<lparr>rdata := a\<rparr>) s
      | READ_EXTRA \<Rightarrow> take_buffer e p READ_EXTRA extra_length (\<lambda>a r. r\<lparr>rextra := a\<rparr>) s
      | _ \<Rightarrow> set_state_plain e p st s)"

subsection \<open>An environment and a state to evaluate at\<close>

definition zero_conn :: conn where
  "zero_conn = \<lparr>c_addr = 0, c_fd = 0, c_listening = False, c_free = False, last_heard = 0, c_state = READ_HEADER,
     c_in = 0, c_out = \<lparr>rs_header = replicate 8 0, sdata = 0, sbytes = 0, rs_can_free = False\<rparr>\<rparr>"

definition sample_env :: env where
  "sample_env = \<lparr>e_now = 1000, e_junk = (\<lambda>_ _. 0), e_conn = (\<lambda>_. zero_conn), e_malloc = bump_malloc, e_rd = Rd_again,
     e_wr = Wr_again, e_accept = None, e_ctl = (\<lambda>_ _. None), e_pid = 4711\<rparr>"

text \<open>No connection yet, nothing cached.\<close>

definition start_server :: "htab \<Rightarrow> memst \<Rightarrow> server" where
  "start_server ht m = \<lparr>sv_mem = m, sv_reqs = Map.empty, sv_bufs = Map.empty, sv_conns = [], sv_cache = ht,
     sv_settings = \<lparr>deamon_mode = 0, idle_conn_timeout = 2, socket_path = None, fd_limit = 1024\<rparr>,
     sv_stats = \<lparr>start_time = 1000, curr_connections = 0, st_cmd_get = 0, st_cmd_set = 0, get_hits = 0,
       get_misses = 0, bytes_read = 0, bytes_written = 0\<rparr>,
     sv_watch = Map.empty, sv_sent = [], sv_closed = []\<rparr>"

end
