(* ===== verification/Command.thy ===== *)
theory Command
  imports Server
begin

text \<open>
  \<open>execute_cmd\<close> of \<open>src/lightcache.c\<close>, one definition per command, with the text that
  \<open>CMD_GET_STATS\<close> prints and the callback of \<open>CMD_FLUSH_ALL\<close>.
\<close>

subsection \<open>The statistics\<close>

definition str8 :: "string \<Rightarrow> byte list" where
  "str8 s = map of_char s"

definition crlf :: "byte list" where
  "crlf = [13, 10]"

fun digits :: "nat \<Rightarrow> byte list" where
  "digits n = (if n < 10 then [word_of_nat (48 + n)] else digits (n div 10) @ [word_of_nat (48 + n mod 10)])"

declare digits.simps [simp del]

definition pr_uint :: "nat \<Rightarrow> byte list" where
  "pr_uint n = digits n"

definition pr_int :: "int \<Rightarrow> byte list" where
  "pr_int i = (if i < 0 then 45 # digits (nat (- i)) else digits (nat i))"

text \<open>\<open>(unsigned long) t\<close> of a \<open>time_t\<close>.\<close>

definition ulong_of :: "int \<Rightarrow> nat" where
  "ulong_of t = nat (t mod 2 ^ 64)"

definition stats_line :: "string \<Rightarrow> byte list \<Rightarrow> byte list" where
  "stats_line l v = str8 l @ v @ crlf"

definition stats_text :: "env \<Rightarrow> server \<Rightarrow> byte list" where
  "stats_text e s =
     stats_line ''mem_used:'' (pr_uint (u64 (li_memused (sv_mem s)))) @
     stats_line ''mem_avail:'' (pr_uint (u64 (mem_avail (sv_mem s)))) @
     stats_line ''uptime:'' (pr_uint (ulong_of (e_now e - start_time (sv_stats s)))) @
     stats_line ''version: '' (str8 ''0.1'' @ str8 '' Build.'' @ pr_int 5) @
     stats_line ''pid:'' (pr_int (e_pid e)) @
     stats_line ''time:'' (pr_uint (ulong_of (e_now e))) @
     stats_line ''curr_items:'' (pr_int (hcount (sv_cache s))) @
     stats_line ''curr_connections:'' (pr_uint (u64 (curr_connections (sv_stats s)))) @
     stats_line ''cmd_get:'' (pr_uint (u64 (st_cmd_get (sv_stats s)))) @
     stats_line ''cmd_set:'' (pr_uint (u64 (st_cmd_set (sv_stats s)))) @
     stats_line ''get_misses:'' (pr_uint (u64 (get_misses (sv_stats s)))) @
     stats_line ''get_hits:'' (pr_uint (u64 (get_hits (sv_stats s)))) @
     stats_line ''bytes_read:'' (pr_uint (u64 (bytes_read (sv_stats s)))) @
     stats_line ''bytes_written:'' (pr_uint (u64 (bytes_written (sv_stats s))))"

text \<open>\<open>sprintf\<close> into a buffer: the text and a 0, which must fit.\<close>

definition sprintf_buf :: "ptr \<Rightarrow> byte list \<Rightarrow> server \<Rightarrow> server res" where
  "sprintf_buf a txt s =
     (case sv_bufs s a of
        None \<Rightarrow> Inl Use_after_free
      | Some xs \<Rightarrow>
          if length xs < length txt + 1 then Inl Out_of_bounds
          else Inr (s\<lparr>sv_bufs := (sv_bufs s)(a := Some (txt @ 0 # drop (length txt + 1) xs))\<rparr>))"

subsection \<open>Commands\<close>

definition set_cache :: "htab \<Rightarrow> server \<Rightarrow> server" where
  "set_cache ht s = s\<lparr>sv_cache := ht\<rparr>"

text \<open>\<open>GET_KEY_NOTEXISTS\<close>.\<close>

definition get_key_notexists :: "env \<Rightarrow> ptr \<Rightarrow> server \<Rightarrow> server res" where
  "get_key_notexists e p s =
     send_response e p KEY_NOTEXISTS (upd_stats (\<lambda>t. t\<lparr>get_misses := u64 (get_misses t + 1)\<rparr>) s)"

text \<open>\<open>(unsigned int)(a - b)\<close> of two times.\<close>

definition elapsed :: "int \<Rightarrow> int \<Rightarrow> nat" where
  "elapsed a b = nat ((a - b) mod 2 ^ 32)"

definition cmd_get :: "env \<Rightarrow> ptr \<Rightarrow> server \<Rightarrow> server res" where
  "cmd_get e p s =
     (let s = upd_stats (\<lambda>t. t\<lparr>st_cmd_get := u64 (st_cmd_get t + 1)\<rparr>) s in
      rbind (conn_of s p) (\<lambda>c.
      rbind (req_of s (c_in c)) (\<lambda>r.
      rbind (buf_of s (rkey r)) (\<lambda>key.
      rbind (hget (sv_cache s) key (key_length (rq_header r))) (\<lambda>it.
      case it of
        None \<Rightarrow> get_key_notexists e p s
      | Some it \<Rightarrow>
          rbind (req_of s (hi_val it)) (\<lambda>cached.
          rbind (buf_of s (rextra cached)) (\<lambda>x.
          rbind (atoull x) (\<lambda>v.
          case v of
            None \<Rightarrow> Inl Assert_failed
          | Some val \<Rightarrow>
              if val < elapsed (received r) (received cached) then
                rbind (del_cached_req it s) (\<lambda>s.
                get_key_notexists e p (set_cache (hfree (sv_cache s) it) s))
              else
                (let s = upd_stats (\<lambda>t. t\<lparr>get_hits := u64 (get_hits t + 1)\<rparr>) s in
                 rbind (add_response e p (rdata cached) (data_length (rq_header cached)) SUCCESS s) (\<lambda>s.
                 Inr (upd_conn p (\<lambda>c. c\<lparr>c_out := (c_out c)\<lparr>rs_can_free := False\<rparr>\<rparr>) s)))))))))))"

definition cmd_set :: "env \<Rightarrow> ptr \<Rightarrow> server \<Rightarrow> server res" where
  "cmd_set e p s =
     (let s = upd_stats (\<lambda>t. t\<lparr>st_cmd_set := u64 (st_cmd_set t + 1)\<rparr>) s in
      rbind (conn_of s p) (\<lambda>c.
      rbind (req_of s (c_in c)) (\<lambda>r.
      if rdata r = 0 then send_response e p INVALID_PARAM s
      else
        rbind (buf_of s (rextra r)) (\<lambda>x.
        rbind (atoull x) (\<lambda>v.
        if v = None then send_response e p INVALID_PARAM s
        else
          rbind (buf_of s (rkey r)) (\<lambda>key.
          rbind (hset (li_malloc (e_malloc e)) li_free (sv_cache s) key (key_length (rq_header r)) (c_in c) (sv_mem s))
            (\<lambda>(ret, ht, m).
          let s = s\<lparr>sv_cache := ht, sv_mem := m\<rparr> in
          if ret = HERROR then send_response e p OUT_OF_MEMORY s
          else
            rbind
              (if ret = HEXISTS then
                 rbind (hget (sv_cache s) key (key_length (rq_header r))) (\<lambda>it.
                 case it of
                   None \<Rightarrow> Inl Assert_failed
                 | Some it \<Rightarrow>
                     rbind (del_cached_req it s) (\<lambda>s.
                     Inr (set_cache (hupd (hi_addr it) (\<lambda>x. x\<lparr>hi_val := c_in c\<rparr>) (sv_cache s)) s)))
               else Inr s)
              (\<lambda>s. send_response e p SUCCESS (upd_req (c_in c) (\<lambda>r. r\<lparr>rq_can_free := False\<rparr>) s)))))))))"

definition cmd_delete :: "env \<Rightarrow> ptr \<Rightarrow> server \<Rightarrow> server res" where
  "cmd_delete e p s =
     rbind (conn_of s p) (\<lambda>c.
     rbind (req_of s (c_in c)) (\<lambda>r.
     rbind (buf_of s (rkey r)) (\<lambda>key.
     rbind (hget (sv_cache s) key (key_length (rq_header r))) (\<lambda>it.
     case it of
       None \<Rightarrow> send_response e p KEY_NOTEXISTS s
     | Some it \<Rightarrow>
         rbind (del_cached_req it s) (\<lambda>s.
         send_response e p SUCCESS (set_cache (hfree (sv_cache s) it) s))))))"

definition flush_item_enum :: "hitem \<Rightarrow> server \<Rightarrow> (bool \<times> server) res" where
  "flush_item_enum item s =
     rbind (del_cached_req item s) (\<lambda>s. Inr (False, set_cache (hfree (sv_cache s) item) s))"

definition cmd_flush_all :: "env \<Rightarrow> ptr \<Rightarrow> server \<Rightarrow> server res" where
  "cmd_flush_all e p s = rbind (henum (sv_cache s) flush_item_enum True s) (send_response e p SUCCESS)"

definition idle_key :: "byte list" where
  "idle_key = str8 ''idle_conn_timeout'' @ [0]"

definition cmd_chg_setting :: "env \<Rightarrow> ptr \<Rightarrow> server \<Rightarrow> server res" where
  "cmd_chg_setting e p s =
     rbind (conn_of s p) (\<lambda>c.
     rbind (req_of s (c_in c)) (\<lambda>r.
     if rdata r = 0 then send_response e p INVALID_PARAM s
     else
       rbind (buf_of s (rkey r)) (\<lambda>key.
       rbind (strcmp_eq key (Some idle_key)) (\<lambda>eq.
       if eq then
         rbind (buf_of s (rdata r)) (\<lambda>x.
         rbind (atoull x) (\<lambda>v.
         case v of
           None \<Rightarrow> send_response e p INVALID_PARAM s
         | Some val \<Rightarrow>
             send_response e p SUCCESS
               (s\<lparr>sv_settings := (sv_settings s)\<lparr>idle_conn_timeout := val\<rparr>\<rparr>)))
       else send_response e p INVALID_PARAM s))))"

text \<open>The eight bytes of a \<open>uint64_t\<close> in the memory of the little-endian host.\<close>

definition cmd_get_setting :: "env \<Rightarrow> ptr \<Rightarrow> server \<Rightarrow> server res" where
  "cmd_get_setting e p s =
     rbind (conn_of s p) (\<lambda>c.
     rbind (req_of s (c_in c)) (\<lambda>r.
     rbind (buf_of s (rkey r)) (\<lambda>key.
     rbind (strcmp_eq key (Some idle_key)) (\<lambda>eq.
     if eq then
       rbind (new_buf e 8 s) (\<lambda>(a, s).
       if a = 0 then send_response e p OUT_OF_MEMORY s
       else
         add_response e p a 8 SUCCESS
           (s\<lparr>sv_bufs := (sv_bufs s)(a :=
                Some (mem_bytes64 True (htonll True (word_of_nat (idle_conn_timeout (sv_settings s))))))\<rparr>))
     else send_response e p INVALID_PARAM s))))"

definition cmd_get_stats :: "env \<Rightarrow> ptr \<Rightarrow> server \<Rightarrow> server res" where
  "cmd_get_stats e p s =
     rbind (new_buf e LIGHTCACHE_STATS_SIZE s) (\<lambda>(a, s).
     if a = 0 then send_response e p OUT_OF_MEMORY s
     else
       rbind (sprintf_buf a (stats_text e s) s) (\<lambda>s.
       add_response e p a LIGHTCACHE_STATS_SIZE SUCCESS s))"

definition execute_cmd :: "env \<Rightarrow> ptr \<Rightarrow> server \<Rightarrow> server res" where
  "execute_cmd e p s =
     rbind (conn_of s p) (\<lambda>c.
     rbind (rassert (c_state c = CMD_RECEIVED)) (\<lambda>_.
     rbind (req_of s (c_in c)) (\<lambda>r.
     let s = upd_req (c_in c) (\<lambda>r. r\<lparr>received := e_now e\<rparr>) s in
     case command_of (rq_opcode (rq_header r)) of
       Some CMD_GET \<Rightarrow> cmd_get e p s
     | Some CMD_SET \<Rightarrow> cmd_set e p s
     | Some CMD_DELETE \<Rightarrow> cmd_delete e p s
     | Some CMD_FLUSH_ALL \<Rightarrow> cmd_flush_all e p s
     | Some CMD_CHG_SETTING \<Rightarrow> cmd_chg_setting e p s
     | Some CMD_GET_SETTING \<Rightarrow> cmd_get_setting e p s
     | Some CMD_GET_STATS \<Rightarrow> cmd_get_stats e p s
     | None \<Rightarrow> send_response e p INVALID_COMMAND s)))"

subsection \<open>The statistics fit their buffer\<close>

lemma digits_length: "n < 10 ^ Suc k \<Longrightarrow> length (digits n) \<le> Suc k"
proof (induction k arbitrary: n)
  case 0
  then show ?case by (subst digits.simps) simp
next
  case (Suc k)
  have "n div 10 < 10 ^ Suc k" using Suc.prems by (simp add: div_less_iff_less_mult mult.commute)
  from Suc.IH [OF this] show ?case by (subst digits.simps) simp
qed

lemma pr_uint_length: "n < 2 ^ 64 \<Longrightarrow> length (pr_uint n) \<le> 20"
  using digits_length [of n 19] by (simp add: pr_uint_def)

lemma pr_int_length:
  assumes "- (2 ^ 31) \<le> i" and "i < 2 ^ 31"
  shows "length (pr_int i) \<le> 11"
proof -
  have "nat (- i) < 10 ^ Suc 9" "nat i < 10 ^ Suc 9" using assms by simp_all
  then show ?thesis using digits_length [of "nat (- i)" 9] digits_length [of "nat i" 9] by (simp add: pr_int_def)
qed

lemma u64_less: "u64 n < 2 ^ 64"
  by (simp add: u64_def)

lemma ulong_less: "ulong_of t < 2 ^ 64"
  by (simp add: ulong_of_def nat_less_iff)

lemma stats_line_length: "length v \<le> k \<Longrightarrow> length (stats_line l v) \<le> length l + k + 2"
  by (simp add: stats_line_def str8_def crlf_def)

text \<open>
  The text that \<open>CMD_GET_STATS\<close> prints fits the buffer of \<open>LIGHTCACHE_STATS_SIZE\<close> bytes
  with its closing 0, whatever the counters are.
\<close>

lemma stats_text_fits:
  assumes "- (2 ^ 31) \<le> e_pid e" and "e_pid e < 2 ^ 31"
    and "- (2 ^ 31) \<le> hcount (sv_cache s)" and "hcount (sv_cache s) < 2 ^ 31"
  shows "length (stats_text e s) + 1 \<le> LIGHTCACHE_STATS_SIZE"
proof -
  note u = stats_line_length [OF pr_uint_length [OF u64_less]]
  note t = stats_line_length [OF pr_uint_length [OF ulong_less]]
  note i = stats_line_length [OF pr_int_length [OF assms(1,2)]] stats_line_length [OF pr_int_length [OF assms(3,4)]]
  have v: "length (str8 ''0.1'' @ str8 '' Build.'' @ pr_int 5) \<le> 21"
    using pr_int_length [of 5] by (simp add: str8_def)
  show ?thesis
    unfolding stats_text_def length_append LIGHTCACHE_STATS_SIZE_def
    using u [of "''mem_used:''" "li_memused (sv_mem s)"] u [of "''mem_avail:''" "mem_avail (sv_mem s)"]
      t [of "''uptime:''" "e_now e - start_time (sv_stats s)"] stats_line_length [OF v, of "''version: ''"]
      i(1) [of "''pid:''"] t [of "''time:''" "e_now e"] i(2) [of "''curr_items:''"]
      u [of "''curr_connections:''" "curr_connections (sv_stats s)"] u [of "''cmd_get:''" "st_cmd_get (sv_stats s)"]
      u [of "''cmd_set:''" "st_cmd_set (sv_stats s)"] u [of "''get_misses:''" "get_misses (sv_stats s)"]
      u [of "''get_hits:''" "get_hits (sv_stats s)"] u [of "''bytes_read:''" "bytes_read (sv_stats s)"]
      u [of "''bytes_written:''" "bytes_written (sv_stats s)"]
    by simp
qed

end
