(* ===== verification/Events.thy ===== *)
theory Events
  imports Command
begin

text \<open>
  Reading requests and writing responses, byte by byte: \<open>read_nbytes\<close>, \<open>try_read_request\<close>,
  \<open>send_nbytes\<close>, \<open>try_send_response\<close>, \<open>event_handler\<close> and \<open>disconnect_idle_conns\<close> of
  \<open>src/lightcache.c\<close>, \<open>event_process\<close> of \<open>src/epoll.c\<close>.
\<close>

subsection \<open>Reading\<close>

text \<open>Where \<open>read_nbytes\<close> stores: the header of the request or one of its buffers.\<close>

datatype target = To_header | To_buf ptr

definition store_byte :: "target \<Rightarrow> ptr \<Rightarrow> request \<Rightarrow> byte \<Rightarrow> server \<Rightarrow> server res" where
  "store_byte tgt q r b s =
     (case tgt of
        To_header \<Rightarrow>
          if sizeof_req_header \<le> rbytes r then Inl Out_of_bounds
          else Inr (upd_req q (\<lambda>r. r\<lparr>rq_header := (rq_header r)[rbytes r := b]\<rparr>) s)
      | To_buf a \<Rightarrow> poke a (rbytes r) b s)"

text \<open>The code after \<open>read\<close>; a failed read that is not \<open>EAGAIN\<close> counts as -1 bytes.\<close>

definition count_read :: "ptr \<Rightarrow> nat \<Rightarrow> bool \<Rightarrow> server \<Rightarrow> (socket_state \<times> server) res" where
  "count_read q tot failed s =
     (let s = upd_stats (\<lambda>t. t\<lparr>bytes_read := (if failed then sub64 (bytes_read t) 1 else u64 (bytes_read t + 1))\<rparr>) s;
          s = upd_req q (\<lambda>r. r\<lparr>rbytes := (if failed then dec32 (rbytes r) else u32 (rbytes r + 1))\<rparr>) s in
      rbind (req_of s q) (\<lambda>r.
      if rbytes r = tot then Inr (READ_COMPLETED, upd_req q (\<lambda>r. r\<lparr>rbytes := 0\<rparr>) s)
      else Inr (NEED_MORE, s)))"

definition read_nbytes :: "env \<Rightarrow> ptr \<Rightarrow> target \<Rightarrow> nat \<Rightarrow> server \<Rightarrow> (socket_state \<times> server) res" where
  "read_nbytes e p tgt tot s =
     rbind (conn_of s p) (\<lambda>c.
     rbind (req_of s (c_in c)) (\<lambda>r.
     case e_rd e of
       Rd_eof \<Rightarrow> Inr (READ_ERR, s)
     | Rd_again \<Rightarrow> Inr (NEED_MORE, s)
     | Rd_error \<Rightarrow> count_read (c_in c) tot True s
     | Rd_byte b \<Rightarrow>
         rbind (store_byte tgt (c_in c) r b s) (count_read (c_in c) tot False)))"

text \<open>\<open>x = ntohl(x)\<close> for the two lengths in the header.\<close>

definition header_to_host :: "byte list \<Rightarrow> byte list" where
  "header_to_host h = (let h = store32 4 (ntohl (data_length h)) h in store32 8 (ntohl (extra_length h)) h)"

definition run_command :: "env \<Rightarrow> ptr \<Rightarrow> server \<Rightarrow> server res" where
  "run_command e p s = rbind (set_conn_state e p CMD_RECEIVED s) (execute_cmd e p)"

definition header_done :: "env \<Rightarrow> ptr \<Rightarrow> server \<Rightarrow> (socket_state \<times> server) res" where
  "header_done e p s =
     rbind (conn_of s p) (\<lambda>c.
     let s = upd_req (c_in c) (\<lambda>r. r\<lparr>rq_header := header_to_host (rq_header r)\<rparr>) s in
     rbind (req_of s (c_in c)) (\<lambda>r.
     let h = rq_header r in
     if PROTOCOL_MAX_DATA_SIZE \<le> data_length h \<or> PROTOCOL_MAX_KEY_SIZE \<le> key_length h
        \<or> PROTOCOL_MAX_EXTRA_SIZE \<le> extra_length h then
       rbind (send_response e p INVALID_PARAM_SIZE s) (\<lambda>s. Inr (FAILED, s))
     else
       rbind (if key_length h = 0 then run_command e p s else set_conn_state e p READ_KEY s) (\<lambda>s.
       Inr (READ_COMPLETED, s))))"

definition try_read_request :: "env \<Rightarrow> ptr \<Rightarrow> server \<Rightarrow> (socket_state \<times> server) res" where
  "try_read_request e p s =
     rbind (conn_of s p) (\<lambda>c.
     case c_state c of
       READ_HEADER \<Rightarrow>
         rbind (read_nbytes e p To_header sizeof_req_header s) (\<lambda>(ret, s).
         if ret = READ_COMPLETED then header_done e p s else Inr (ret, s))
     | READ_KEY \<Rightarrow>
         rbind (rassert (c_in c \<noteq> 0)) (\<lambda>_.
         rbind (req_of s (c_in c)) (\<lambda>r.
         rbind (rassert (rkey r \<noteq> 0 \<and> key_length (rq_header r) \<noteq> 0)) (\<lambda>_.
         rbind (read_nbytes e p (To_buf (rkey r)) (key_length (rq_header r)) s) (\<lambda>(ret, s).
         if ret = READ_COMPLETED then
           rbind (if data_length (rq_header r) = 0 then run_command e p s else set_conn_state e p READ_DATA s)
             (\<lambda>s. Inr (ret, s))
         else Inr (ret, s)))))
     | READ_DATA \<Rightarrow>
         rbind (rassert (c_in c \<noteq> 0)) (\<lambda>_.
         rbind (req_of s (c_in c)) (\<lambda>r.
         rbind (rassert (rdata r \<noteq> 0 \<and> data_length (rq_header r) \<noteq> 0)) (\<lambda>_.
         rbind (read_nbytes e p (To_buf (rdata r)) (data_length (rq_header r)) s) (\<lambda>(ret, s).
         if ret = READ_COMPLETED then
           rbind (if extra_length (rq_header r) \<noteq> 0 then set_conn_state e p READ_EXTRA s else run_command e p s)
             (\<lambda>s. Inr (ret, s))
         else Inr (ret, s)))))
     | READ_EXTRA \<Rightarrow>
         rbind (req_of s (c_in c)) (\<lambda>r.
         rbind (read_nbytes e p (To_buf (rextra r)) (extra_length (rq_header r)) s) (\<lambda>(ret, s).
         if ret = READ_COMPLETED then rbind (run_command e p s) (\<lambda>s. Inr (ret, s)) else Inr (ret, s)))
     | _ \<Rightarrow> rbind (send_response e p INVALID_STATE s) (\<lambda>s. Inr (FAILED, s)))"

subsection \<open>Writing\<close>

text \<open>
  \<open>send_nbytes\<close> of \<open>bytes\<close>: one byte at a time. A \<open>write\<close> of one byte writes at most one
  (\<open>Wr_bytes 0\<close> or 1).
\<close>

definition send_nbytes :: "env \<Rightarrow> ptr \<Rightarrow> byte list \<Rightarrow> nat \<Rightarrow> server \<Rightarrow> (socket_state \<times> server) res" where
  "send_nbytes e p bytes tot s =
     rbind (conn_of s p) (\<lambda>c.
     if length bytes \<le> sbytes (c_out c) then Inl Out_of_bounds
     else
       (case e_wr e of
          Wr_again \<Rightarrow> Inr (NEED_MORE, s)
        | Wr_error \<Rightarrow> Inr (SEND_ERR, s)
        | Wr_bytes n \<Rightarrow>
            (let s = s\<lparr>sv_sent := sv_sent s @ map (Pair (c_fd c)) (take (min n 1) (drop (sbytes (c_out c)) bytes))\<rparr>;
                 s = upd_stats (\<lambda>t. t\<lparr>bytes_written := u64 (bytes_written t + min n 1)\<rparr>) s;
                 k = u32 (sbytes (c_out c) + min n 1) in
             if k = tot then Inr (SEND_COMPLETED, upd_conn p (\<lambda>c. c\<lparr>c_out := (c_out c)\<lparr>sbytes := 0\<rparr>\<rparr>) s)
             else Inr (NEED_MORE, upd_conn p (\<lambda>c. c\<lparr>c_out := (c_out c)\<lparr>sbytes := k\<rparr>\<rparr>) s))))"

text \<open>The response is out: \<open>CMD_SENT\<close>, then the next request.\<close>

definition next_request :: "env \<Rightarrow> ptr \<Rightarrow> server \<Rightarrow> server res" where
  "next_request e p s = rbind (set_conn_state e p CMD_SENT s) (set_conn_state e p READ_HEADER)"

definition try_send_response :: "env \<Rightarrow> ptr \<Rightarrow> server \<Rightarrow> (socket_state \<times> server) res" where
  "try_send_response e p s =
     rbind (conn_of s p) (\<lambda>c.
     case c_state c of
       SEND_HEADER \<Rightarrow>
         rbind (send_nbytes e p (rs_header (c_out c)) sizeof_resp_header s) (\<lambda>(ret, s).
         if ret = SEND_COMPLETED then
           rbind (if ntohl (resp_data_length (rs_header (c_out c))) \<noteq> 0 then set_conn_state e p SEND_DATA s
                  else next_request e p s)
             (\<lambda>s. Inr (ret, s))
         else Inr (ret, s))
     | SEND_DATA \<Rightarrow>
         rbind (buf_of s (sdata (c_out c))) (\<lambda>b.
         case b of
           None \<Rightarrow> Inl Null_deref
         | Some bytes \<Rightarrow>
             rbind (send_nbytes e p bytes (ntohl (resp_data_length (rs_header (c_out c)))) s) (\<lambda>(ret, s).
             if ret = SEND_COMPLETED then rbind (next_request e p s) (\<lambda>s. Inr (ret, s)) else Inr (ret, s)))
     | _ \<Rightarrow> rbind (send_response e p INVALID_STATE s) (\<lambda>s. Inr (FAILED, s)))"

subsection \<open>Events\<close>

definition accept_conn :: "env \<Rightarrow> server \<Rightarrow> server res" where
  "accept_conn e s =
     (case e_accept e of
        None \<Rightarrow> Inr s
      | Some fd \<Rightarrow>
          rbind (make_conn e fd s) (\<lambda>(p, s).
          if p = 0 then Inr (close_fd fd s) else set_conn_state e p READ_HEADER s))"

definition event_handler :: "env \<Rightarrow> ptr \<Rightarrow> event \<Rightarrow> server \<Rightarrow> server res" where
  "event_handler e p ev s =
     rbind (conn_of s p) (\<lambda>c.
     if c_state c = CONN_CLOSED then Inr s
     else
       (let s = upd_conn p (\<lambda>c. c\<lparr>last_heard := e_now e\<rparr>) s in
        case ev of
          EVENT_READ \<Rightarrow>
            if c_listening c then accept_conn e s
            else
              rbind (try_read_request e p s) (\<lambda>(ret, s).
              if ret = READ_ERR then disconnect_conn e p s else Inr s)
        | EVENT_WRITE \<Rightarrow>
            rbind (try_send_response e p s) (\<lambda>(ret, s).
            if ret = SEND_ERR then disconnect_conn e p s else Inr s)))"

text \<open>
  The loop of \<open>event_process\<close> over what \<open>epoll_wait\<close> returned: the connection pointer of
  each entry and the environment of its \<open>EPOLLIN\<close> and its \<open>EPOLLOUT\<close> part, if set.
\<close>

fun event_process :: "(ptr \<times> env option \<times> env option) list \<Rightarrow> server \<Rightarrow> server res" where
  "event_process [] s = Inr s"
| "event_process ((p, i, w) # rs) s =
     rbind (rassert (p \<noteq> 0)) (\<lambda>_.
     rbind (case i of None \<Rightarrow> Inr s | Some e \<Rightarrow> event_handler e p EVENT_READ s) (\<lambda>s.
     rbind (case w of None \<Rightarrow> Inr s | Some e \<Rightarrow> event_handler e p EVENT_WRITE s) (\<lambda>s.
     event_process rs s)))"

fun idle_loop :: "env \<Rightarrow> ptr list \<Rightarrow> server \<Rightarrow> server res" where
  "idle_loop e [] s = Inr s"
| "idle_loop e (p # ps) s =
     rbind (conn_of s p) (\<lambda>c.
     if c_free c \<or> c_listening c then Inr s
     else
       rbind (if idle_conn_timeout (sv_settings s) < elapsed (e_now e) (last_heard c) then disconnect_conn e p s
              else Inr s)
         (idle_loop e ps))"

definition disconnect_idle_conns :: "env \<Rightarrow> server \<Rightarrow> server res" where
  "disconnect_idle_conns e s = idle_loop e (map c_addr (sv_conns s)) s"

end
