(* ===== verification/Startup.thy ===== *)
theory Startup
  imports Events
begin

text \<open>
  \<open>main\<close> of \<open>src/lightcache.c\<close>: settings, command line, allocator, listening socket, cache,
  and one round of the server loop. Going to the background is in theory Daemon, the whole
  program in theory Main_Loop.
\<close>

subsection \<open>Settings and the command line\<close>

text \<open>\<open>init_settings\<close>: the settings, \<open>mem_avail\<close> and \<open>use_sys_malloc\<close>; \<open>debug\<close> is \<open>DEBUG\<close>.\<close>

definition init_settings :: "bool \<Rightarrow> settings \<times> nat \<times> bool" where
  "init_settings debug =
     (\<lparr>deamon_mode = (if debug then 0 else 1), idle_conn_timeout = (if debug then 4000000000 else 2),
       socket_path = None, fd_limit = 1024\<rparr>, 64 * 1024 * 1024, False)"

definition init_stats :: "env \<Rightarrow> stats" where
  "init_stats e = \<lparr>start_time = e_now e, curr_connections = 0, st_cmd_get = 0, st_cmd_set = 0, get_hits = 0,
     get_misses = 0, bytes_read = 0, bytes_written = 0\<rparr>"

text \<open>What \<open>getopt\<close> returned; \<open>-d\<close> and \<open>-l\<close> with the value \<open>atoi\<close> has for their argument.\<close>

datatype cmd_opt = Opt_m "byte list" | Opt_d int | Opt_s "byte list" | Opt_l int | Opt_other

text \<open>\<open>None\<close>: the program stops.\<close>

fun parse_opts :: "cmd_opt list \<Rightarrow> settings \<Rightarrow> nat \<Rightarrow> (settings \<times> nat) option res" where
  "parse_opts [] st avail = Inr (Some (st, avail))"
| "parse_opts (Opt_m arg # os) st avail =
     rbind (atoull (Some arg)) (\<lambda>r.
     case r of None \<Rightarrow> Inr None | Some param \<Rightarrow> parse_opts os st (u64 (param * 1024 * 1024)))"
| "parse_opts (Opt_d n # os) st avail = parse_opts os (st\<lparr>deamon_mode := n\<rparr>) avail"
| "parse_opts (Opt_s arg # os) st avail = parse_opts os (st\<lparr>socket_path := Some arg\<rparr>) avail"
| "parse_opts (Opt_l n # os) st avail = parse_opts os (st\<lparr>fd_limit := n\<rparr>) avail"
| "parse_opts (Opt_other # os) st avail = parse_opts os st avail"

subsection \<open>The allocator\<close>

text \<open>The choice between the slab allocator and the system's.\<close>

definition choose_allocator :: "malloc_fun \<Rightarrow> nat \<Rightarrow> slab_state \<Rightarrow> memst res" where
  "choose_allocator mf avail sl =
     rbind (init_cache_manager mf (avail div 1024 div 1024) SLAB_SIZE_FACTOR sl) (\<lambda>(ok, sl).
       Inr \<lparr>use_sys_malloc = (\<not> ok \<or> sl_slab_count (slab_stats sl) < sl_cache_count (slab_stats sl)),
            mem_avail = avail, mem_used = 0, slabst = sl\<rparr>)"

subsection \<open>The listening socket\<close>

text \<open>
  The results of \<open>socket\<close>, \<open>bind\<close> and \<open>listen\<close>; those of \<open>setsockopt\<close> are only logged. With
  \<open>settings.socket_path\<close> the socket is a Unix domain one, the rest is the same.
\<close>

record sock_env =
  k_socket :: "int option"
  k_bind :: bool
  k_listen :: bool
  k_epoll :: bool

definition init_server_socket :: "env \<Rightarrow> sock_env \<Rightarrow> server \<Rightarrow> (bool \<times> server) res" where
  "init_server_socket e k s =
     (case k_socket k of
        None \<Rightarrow> Inr (False, s)
      | Some fd \<Rightarrow>
          if \<not> k_bind k then Inr (False, close_fd fd s)
          else if \<not> k_listen k then Inr (False, close_fd fd s)
          else
            rbind (make_conn e fd s) (\<lambda>(p, s).
            if p = 0 then Inr (False, s)
            else
              (let s = upd_conn p (\<lambda>c. c\<lparr>c_listening := True\<rparr>) s in
               rbind (conn_of s p) (\<lambda>c. Inr (True, snd (event_set e c EVENT_READ s))))))"

subsection \<open>main\<close>

definition null_cache :: htab where
  "null_cache = \<lparr>ht_addr = 0, ht_realsize = 0, ht_logsize = 0, ht_count = 0, ht_mask = 0, ht_freecount = 0,
     ht_tablep = 0, ht_table = []\<rparr>"

definition slab_start_state :: slab_state where
  "slab_start_state = slab_start []"

text \<open>Up to the server loop; \<open>None\<close> is \<open>exit(EXIT_FAILURE)\<close>.\<close>

definition main_init :: "env \<Rightarrow> sock_env \<Rightarrow> bool \<Rightarrow> cmd_opt list \<Rightarrow> server option res" where
  "main_init e k debug os =
     (case init_settings debug of (st, avail, _) \<Rightarrow>
      rbind (parse_opts os st avail) (\<lambda>r.
      case r of
        None \<Rightarrow> Inr None
      | Some (st, avail) \<Rightarrow>
          rbind (choose_allocator (e_malloc e) avail slab_start_state) (\<lambda>m.
          let s = \<lparr>sv_mem = m, sv_reqs = Map.empty, sv_bufs = Map.empty, sv_conns = [], sv_cache = null_cache,
                sv_settings = st, sv_stats = init_stats e, sv_watch = Map.empty, sv_sent = [], sv_closed = []\<rparr> in
          if \<not> k_epoll k then Inr None
          else
            rbind (init_server_socket e k s) (\<lambda>(ok, s).
            if \<not> ok then Inr None
            else
              rbind (htcreate (li_malloc (e_malloc e)) li_free 4 (sv_mem s)) (\<lambda>(t, m).
              case t of
                None \<Rightarrow> Inr None
              | Some ht \<Rightarrow> Inr (Some (s\<lparr>sv_cache := ht, sv_mem := m\<rparr>)))))))"

text \<open>
  \<open>collect_unused_memory\<close>, which has nothing to do yet, and the ratio of memory use above which
  it is called.
\<close>

definition LIGHTCACHE_GARBAGE_COLLECT_RATIO_THRESHOLD :: nat where
  "LIGHTCACHE_GARBAGE_COLLECT_RATIO_THRESHOLD = 75"

definition collect_unused_memory :: "server \<Rightarrow> server" where
  "collect_unused_memory s = s"

text \<open>
  What the loop does when more than a second has passed since \<open>ptime\<close>: the idle connections and
  the memory ratio. The result has the new \<open>ptime\<close>.
\<close>

definition per_second :: "env \<Rightarrow> int \<Rightarrow> int \<Rightarrow> server \<Rightarrow> (int \<times> server) res" where
  "per_second e ctime ptime s =
     (if 1 < ctime - ptime then
       rbind (disconnect_idle_conns e s) (\<lambda>s.
       if mem_avail (sv_mem s) = 0 then Inl Division_by_zero
       else
         Inr (ctime,
           if LIGHTCACHE_GARBAGE_COLLECT_RATIO_THRESHOLD < u64 (li_memused (sv_mem s) * 100) div mem_avail (sv_mem s)
           then collect_unused_memory s else s))
     else Inr (ptime, s))"

text \<open>One round of the loop with the events \<open>rs\<close>.\<close>

definition main_round ::
  "env \<Rightarrow> int \<Rightarrow> int \<Rightarrow> (ptr \<times> env option \<times> env option) list \<Rightarrow> server \<Rightarrow> (int \<times> server) res" where
  "main_round e ctime ptime rs s = rbind (event_process rs s) (per_second e ctime ptime)"

end
