(* ===== verification/Server_Inv.thy ===== *)
theory Server_Inv
  imports Startup
begin

text \<open>
  The invariant of the server in the slab mode. Every block the server holds has one owner:
  the cache, a connection, what a connection has in hand (the request it reads and the
  response it must free) or a cached request. \<open>inv_x p F\<close> is the invariant while a handler
  of connection \<open>p\<close> runs: the connection is in any state, and \<open>F\<close> are the blocks that the
  handler may free or hand over.
\<close>

subsection \<open>Owners of blocks\<close>

definition vals :: "server \<Rightarrow> ptr set" where
  "vals s = ran (hview (sv_cache s))"

definition client :: "conn \<Rightarrow> bool" where
  "client c \<longleftrightarrow> \<not> c_free c \<and> \<not> c_listening c"

definition req_blks :: "server \<Rightarrow> ptr \<Rightarrow> ptr set" where
  "req_blks s q = insert q (case sv_reqs s q of None \<Rightarrow> {} | Some r \<Rightarrow> {rkey r, rdata r, rextra r} - {0})"

definition holds :: "server \<Rightarrow> conn \<Rightarrow> bool" where
  "holds s c \<longleftrightarrow> client c \<and> c_in c \<noteq> 0 \<and> c_in c \<notin> vals s"

definition out_blks :: "conn \<Rightarrow> ptr set" where
  "out_blks c = (if rs_can_free (c_out c) \<and> sdata (c_out c) \<noteq> 0 then {sdata (c_out c)} else {})"

definition foot :: "server \<Rightarrow> conn \<Rightarrow> ptr set" where
  "foot s c = (if holds s c then req_blks s (c_in c) else {}) \<union> out_blks c"

definition addrs :: "server \<Rightarrow> ptr set" where
  "addrs s = c_addr ` set (sv_conns s)"

definition conn_at :: "server \<Rightarrow> ptr \<Rightarrow> conn" where
  "conn_at s p = the (find (\<lambda>c. c_addr c = p) (sv_conns s))"

datatype owner = O_tab | O_conn ptr | O_foot ptr | O_val ptr

fun blk :: "ptr \<Rightarrow> ptr set \<Rightarrow> server \<Rightarrow> owner \<Rightarrow> ptr set" where
  "blk p F s O_tab = set (owned (sv_cache s))"
| "blk p F s (O_conn q) = {q}"
| "blk p F s (O_foot q) = (if q = p then F else foot s (conn_at s q))"
| "blk p F s (O_val v) = req_blks s v"

definition owners :: "server \<Rightarrow> owner set" where
  "owners s = insert O_tab (O_conn ` addrs s \<union> O_foot ` addrs s \<union> O_val ` vals s)"

text \<open>A family of pairwise disjoint sets of live blocks.\<close>

definition disj_fam :: "'i set \<Rightarrow> ('i \<Rightarrow> ptr set) \<Rightarrow> ptr set \<Rightarrow> bool" where
  "disj_fam I f L \<longleftrightarrow> (\<forall>i \<in> I. f i \<subseteq> L) \<and> (\<forall>i \<in> I. \<forall>j \<in> I. i \<noteq> j \<longrightarrow> f i \<inter> f j = {})"

lemma disj_famD:
  assumes "disj_fam I f L"
  shows "i \<in> I \<Longrightarrow> f i \<subseteq> L" and "i \<in> I \<Longrightarrow> j \<in> I \<Longrightarrow> i \<noteq> j \<Longrightarrow> f i \<inter> f j = {}"
  using assms unfolding disj_fam_def by blast+

text \<open>
  Members \<open>K\<close> of the family stay as they are, the others are replaced by the family \<open>X\<close>,
  which lives on the blocks that \<open>K\<close> does not have.
\<close>

lemma disj_fam_change:
  assumes d: "disj_fam I f L" and K: "K \<subseteq> I" and same: "\<And>i. i \<in> K \<Longrightarrow> g i = f i"
    and keep: "\<And>i. i \<in> K \<Longrightarrow> f i \<subseteq> L'"
    and X: "disj_fam X g L'" and apart: "\<And>x i. x \<in> X \<Longrightarrow> i \<in> K \<Longrightarrow> g x \<inter> f i = {}"
  shows "disj_fam (K \<union> X) g L'"
proof -
  have 1: "g i \<subseteq> L'" if "i \<in> K \<union> X" for i
    using that same [of i] keep [of i] disj_famD(1) [OF X, of i] by (cases "i \<in> K") auto
  have 2: "g i \<inter> g j = {}" if ij: "i \<in> K \<union> X" "j \<in> K \<union> X" "i \<noteq> j" for i j
  proof -
    consider "i \<in> K" "j \<in> K" | "i \<in> X" "j \<in> X" | "i \<in> X" "j \<in> K" | "i \<in> K" "j \<in> X" using ij(1,2) by blast
    then show ?thesis
    proof cases
      case 1
      then show ?thesis using disj_famD(2) [OF d, of i j] K ij(3) same by auto
    next
      case 2
      then show ?thesis using disj_famD(2) [OF X] ij(3) by blast
    next
      case 3
      then show ?thesis using apart same by simp
    next
      case 4
      then show ?thesis using apart [of j i] same by auto
    qed
  qed
  show ?thesis unfolding disj_fam_def using 1 2 by blast
qed

definition sep :: "ptr \<Rightarrow> ptr set \<Rightarrow> server \<Rightarrow> bool" where
  "sep p F s \<longleftrightarrow> disj_fam (owners s) (blk p F s) (slab_live (sv_mem s))"

subsection \<open>Requests and connections\<close>

text \<open>A buffer for \<open>n\<close> bytes with its closing 0.\<close>

definition buf_ok :: "server \<Rightarrow> ptr \<Rightarrow> nat \<Rightarrow> bool" where
  "buf_ok s a n \<longleftrightarrow> (\<exists>xs. sv_bufs s a = Some xs \<and> length xs = Suc n \<and> xs ! n = 0)"

definition req_ok :: "server \<Rightarrow> ptr \<Rightarrow> request \<Rightarrow> bool" where
  "req_ok s q r \<longleftrightarrow> q \<noteq> 0 \<and> sv_reqs s q = Some r \<and> length (rq_header r) = 12 \<and>
     (rkey r \<noteq> 0 \<longrightarrow> buf_ok s (rkey r) (key_length (rq_header r))) \<and>
     (rdata r \<noteq> 0 \<longrightarrow> buf_ok s (rdata r) (data_length (rq_header r))) \<and>
     (rextra r \<noteq> 0 \<longrightarrow> buf_ok s (rextra r) (extra_length (rq_header r))) \<and>
     (rkey r \<noteq> 0 \<longrightarrow> rkey r \<notin> {rdata r, rextra r, q}) \<and> (rdata r \<noteq> 0 \<longrightarrow> rdata r \<notin> {rextra r, q}) \<and>
     (rextra r \<noteq> 0 \<longrightarrow> rextra r \<noteq> q)"

text \<open>
  The requests the server is safe for: within the limits, with a key where the command looks
  one up, and with a timeout for a \<open>CMD_SET\<close> that has data. A key has no 0 byte.
\<close>

definition good_header :: "byte list \<Rightarrow> bool" where
  "good_header h \<longleftrightarrow> data_length h < PROTOCOL_MAX_DATA_SIZE \<and> key_length h < PROTOCOL_MAX_KEY_SIZE \<and>
     extra_length h < PROTOCOL_MAX_EXTRA_SIZE \<and>
     (command_of (rq_opcode h) \<in> {Some CMD_GET, Some CMD_DELETE, Some CMD_GET_SETTING} \<longrightarrow> key_length h \<noteq> 0) \<and>
     (command_of (rq_opcode h) = Some CMD_SET \<and> key_length h \<noteq> 0 \<and> data_length h \<noteq> 0 \<longrightarrow> extra_length h \<noteq> 0)"

definition key_full :: "server \<Rightarrow> request \<Rightarrow> bool" where
  "key_full s r \<longleftrightarrow> rkey r \<noteq> 0 \<and> (\<exists>xs. sv_bufs s (rkey r) = Some xs \<and> key_ok (Some xs) (key_length (rq_header r)))"

definition key_part :: "server \<Rightarrow> request \<Rightarrow> bool" where
  "key_part s r \<longleftrightarrow> (\<exists>xs. sv_bufs s (rkey r) = Some xs \<and> 0 \<notin> set (take (rbytes r) xs))"

definition cached_ok :: "server \<Rightarrow> ptr \<Rightarrow> bool" where
  "cached_ok s v \<longleftrightarrow> (\<exists>r. req_ok s v r \<and> \<not> rq_can_free r \<and> rdata r \<noteq> 0 \<and> rextra r \<noteq> 0 \<and>
     (\<exists>xs n. sv_bufs s (rextra r) = Some xs \<and> atoull (Some xs) = Inr (Some n)))"

text \<open>The response in hand: its data are the connection's own or those of a cached request.\<close>

definition resp_len :: "conn \<Rightarrow> nat" where
  "resp_len c = be32 (rs_header (c_out c)) 4"

definition out_ok :: "server \<Rightarrow> conn \<Rightarrow> bool" where
  "out_ok s c \<longleftrightarrow>
     (if sdata (c_out c) = 0 then resp_len c = 0
      else (\<exists>xs. sv_bufs s (sdata (c_out c)) = Some xs \<and> resp_len c \<le> length xs) \<and>
        (if rs_can_free (c_out c) then holds s c \<longrightarrow> sdata (c_out c) \<notin> req_blks s (c_in c)
         else \<exists>v \<in> vals s. \<exists>r. sv_reqs s v = Some r \<and> rdata r = sdata (c_out c)))"

definition reading :: "server \<Rightarrow> conn \<Rightarrow> request \<Rightarrow> bool" where
  "reading s c r \<longleftrightarrow>
     (let h = rq_header r in
      case c_state c of
        READ_HEADER \<Rightarrow> rkey r = 0 \<and> rdata r = 0 \<and> rextra r = 0 \<and> rbytes r < 12
      | READ_KEY \<Rightarrow> good_header h \<and> rkey r \<noteq> 0 \<and> rdata r = 0 \<and> rextra r = 0 \<and> rbytes r < key_length h \<and> key_part s r
      | READ_DATA \<Rightarrow> good_header h \<and> key_length h \<noteq> 0 \<and> key_full s r \<and> rdata r \<noteq> 0 \<and> rextra r = 0 \<and> rbytes r < data_length h
      | READ_EXTRA \<Rightarrow> good_header h \<and> key_length h \<noteq> 0 \<and> data_length h \<noteq> 0 \<and> key_full s r \<and> rdata r \<noteq> 0 \<and> rextra r \<noteq> 0 \<and> rbytes r < extra_length h
      | _ \<Rightarrow> False)"

definition sending :: "server \<Rightarrow> conn \<Rightarrow> bool" where
  "sending s c \<longleftrightarrow> out_ok s c \<and>
     (c_state c = SEND_HEADER \<and> sbytes (c_out c) < 8 \<or>
      c_state c = SEND_DATA \<and> sdata (c_out c) \<noteq> 0 \<and> sbytes (c_out c) < resp_len c)"

definition has_req :: "server \<Rightarrow> conn \<Rightarrow> request \<Rightarrow> bool" where
  "has_req s c r \<longleftrightarrow> req_ok s (c_in c) r \<and> (rq_can_free r \<longleftrightarrow> c_in c \<notin> vals s)"

definition conn_ok :: "server \<Rightarrow> conn \<Rightarrow> bool" where
  "conn_ok s c \<longleftrightarrow> length (rs_header (c_out c)) = 8 \<and>
     (c_free c \<longrightarrow> c_state c = CONN_CLOSED \<and> sdata (c_out c) = 0) \<and>
     (client c \<longrightarrow> c_state c \<noteq> CONN_CLOSED \<and>
       (\<exists>r. has_req s c r \<and>
          (c_in c \<notin> vals s \<and> sdata (c_out c) = 0 \<and> rs_can_free (c_out c) \<and> reading s c r \<or> sending s c)))"

definition inv_x :: "ptr \<Rightarrow> ptr set \<Rightarrow> server \<Rightarrow> bool" where
  "inv_x p F s \<longleftrightarrow> htab_inv slab_inv slab_live (sv_cache s, sv_mem s) \<and> fvals (items (sv_cache s)) \<subseteq> {0} \<and>
     inj_on (hview (sv_cache s)) (dom (hview (sv_cache s))) \<and> distinct (map c_addr (sv_conns s)) \<and> sep p F s \<and>
     (\<forall>v \<in> vals s. cached_ok s v) \<and> (\<forall>c \<in> set (sv_conns s). c_addr c \<noteq> p \<longrightarrow> conn_ok s c)"

definition server_inv :: "server \<Rightarrow> bool" where
  "server_inv s \<longleftrightarrow> inv_x 0 {} s"

subsection \<open>Framing\<close>

text \<open>What is said of a request, a cached value or a connection depends on its blocks only.\<close>

definition same_on :: "ptr set \<Rightarrow> server \<Rightarrow> server \<Rightarrow> bool" where
  "same_on B s s' \<longleftrightarrow> (\<forall>x \<in> B. sv_reqs s' x = sv_reqs s x \<and> sv_bufs s' x = sv_bufs s x)"

lemma same_onD: "same_on B s s' \<Longrightarrow> x \<in> B \<Longrightarrow> sv_reqs s' x = sv_reqs s x \<and> sv_bufs s' x = sv_bufs s x"
  by (simp add: same_on_def)

lemma same_on_mono: "same_on B s s' \<Longrightarrow> A \<subseteq> B \<Longrightarrow> same_on A s s'"
  by (auto simp: same_on_def)

lemma req_blks_same: "same_on B s s' \<Longrightarrow> q \<in> B \<Longrightarrow> req_blks s' q = req_blks s q"
  by (simp add: req_blks_def same_on_def)

lemma req_blks_self [simp]: "q \<in> req_blks s q"
  by (simp add: req_blks_def)

lemma req_ok_same:
  assumes "req_ok s q r" and "same_on B s s'" and "req_blks s q \<subseteq> B"
  shows "req_ok s' q r"
proof -
  have "sv_reqs s q = Some r" using assms(1) by (simp add: req_ok_def)
  then have "q \<in> B" "rkey r \<noteq> 0 \<longrightarrow> rkey r \<in> B" "rdata r \<noteq> 0 \<longrightarrow> rdata r \<in> B" "rextra r \<noteq> 0 \<longrightarrow> rextra r \<in> B"
    using assms(3) by (auto simp: req_blks_def)
  then show ?thesis using assms(1) same_onD [OF assms(2)] by (auto simp: req_ok_def buf_ok_def)
qed

lemma cached_ok_same:
  assumes "cached_ok s v" and "same_on B s s'" and "req_blks s v \<subseteq> B"
  shows "cached_ok s' v"
proof -
  obtain r xs n where r: "req_ok s v r" "\<not> rq_can_free r" "rdata r \<noteq> 0" "rextra r \<noteq> 0"
    "sv_bufs s (rextra r) = Some xs" "atoull (Some xs) = Inr (Some n)"
    using assms(1) by (auto simp: cached_ok_def)
  have "sv_reqs s v = Some r" using r(1) by (simp add: req_ok_def)
  then have "rextra r \<in> B" using assms(3) r(4) by (auto simp: req_blks_def)
  then have "sv_bufs s' (rextra r) = Some xs" using r(5) same_onD [OF assms(2)] by simp
  moreover have "req_ok s' v r" by (rule req_ok_same [OF r(1) assms(2,3)])
  ultimately show ?thesis unfolding cached_ok_def using r by blast
qed

lemma req_ok_in_blks:
  assumes "req_ok s q r"
  shows "req_blks s q = {q} \<union> ({rkey r, rdata r, rextra r} - {0})"
  using assms by (auto simp: req_ok_def req_blks_def)

lemma reading_same:
  assumes rd: "reading s c r" and q: "req_ok s q r" and same: "same_on B s s'" and sub: "req_blks s q \<subseteq> B"
  shows "reading s' c r"
proof -
  have k: "sv_bufs s' (rkey r) = sv_bufs s (rkey r)" if "rkey r \<noteq> 0"
    using sub req_ok_in_blks [OF q] same_onD [OF same, of "rkey r"] that by auto
  have "key_part s' r = key_part s r" "key_full s' r = key_full s r" if "rkey r \<noteq> 0"
    using k [OF that] that by (simp_all add: key_part_def key_full_def)
  moreover have "key_full s r \<Longrightarrow> rkey r \<noteq> 0" by (simp add: key_full_def)
  ultimately show ?thesis using rd by (auto simp: reading_def Let_def split: conn_states.splits)
qed

lemma out_ok_same:
  assumes out: "out_ok s c" and same: "same_on B s s'" and v: "vals s' = vals s" and f: "foot s c \<subseteq> B"
    and vb: "\<And>v. v \<in> vals s \<Longrightarrow> req_blks s v \<subseteq> B"
  shows "out_ok s' c"
proof (cases "sdata (c_out c) = 0")
  case True
  with out show ?thesis by (simp add: out_ok_def)
next
  case nz: False
  obtain xs where xs: "sv_bufs s (sdata (c_out c)) = Some xs" "resp_len c \<le> length xs"
    using out nz by (auto simp: out_ok_def)
  have h: "holds s' c = holds s c" by (simp add: holds_def v)
  show ?thesis
  proof (cases "rs_can_free (c_out c)")
    case True
    have "sdata (c_out c) \<in> B" using True nz f by (auto simp: foot_def out_blks_def)
    moreover have "req_blks s' (c_in c) = req_blks s (c_in c)" if "holds s c"
    proof (rule req_blks_same [OF same])
      have "c_in c \<in> foot s c" using that by (simp add: foot_def)
      with f show "c_in c \<in> B" by blast
    qed
    ultimately show ?thesis using out nz True xs same_onD [OF same] h by (auto simp: out_ok_def)
  next
    case False
    then obtain w r where w: "w \<in> vals s" "sv_reqs s w = Some r" "rdata r = sdata (c_out c)"
      using out nz by (auto simp: out_ok_def)
    then have "w \<in> B" "sdata (c_out c) \<in> B" using vb [OF w(1)] nz by (auto simp: req_blks_def)
    then have "sv_reqs s' w = Some r" "sv_bufs s' (sdata (c_out c)) = Some xs"
      using w(2) xs(1) same_onD [OF same] by simp_all
    then show ?thesis using nz False w xs(2) v by (auto simp: out_ok_def)
  qed
qed

lemma conn_ok_same:
  assumes c: "conn_ok s c" and same: "same_on B s s'" and v: "vals s' = vals s" and f: "foot s c \<subseteq> B"
    and vb: "\<And>v. v \<in> vals s \<Longrightarrow> req_blks s v \<subseteq> B"
  shows "conn_ok s' c"
proof (cases "client c")
  case False
  with c show ?thesis by (simp add: conn_ok_def)
next
  case True
  with c obtain r where r: "has_req s c r" and st: "c_state c \<noteq> CONN_CLOSED"
    and alt: "c_in c \<notin> vals s \<and> sdata (c_out c) = 0 \<and> rs_can_free (c_out c) \<and> reading s c r \<or> sending s c"
    by (auto simp: conn_ok_def)
  have q: "req_ok s (c_in c) r" using r by (simp add: has_req_def)
  then have nz: "c_in c \<noteq> 0" by (simp add: req_ok_def)
  have sub: "req_blks s (c_in c) \<subseteq> B"
  proof (cases "c_in c \<in> vals s")
    case True
    then show ?thesis by (rule vb)
  next
    case False
    then have "holds s c" using True nz by (simp add: holds_def)
    then show ?thesis using f by (simp add: foot_def)
  qed
  have "has_req s' c r" using r req_ok_same [OF q same sub] v by (simp add: has_req_def)
  moreover have "reading s c r \<Longrightarrow> reading s' c r" using reading_same [OF _ q same sub] .
  moreover have "sending s c \<Longrightarrow> sending s' c" using out_ok_same [OF _ same v f vb] by (auto simp: sending_def)
  ultimately show ?thesis using c alt v by (auto simp: conn_ok_def)
qed

subsection \<open>Looking up a connection\<close>

lemma conn_of_iff: "conn_of s p = Inr c \<longleftrightarrow> find (\<lambda>c. c_addr c = p) (sv_conns s) = Some c"
  by (simp add: conn_of_def split: option.splits)

lemma conn_ofD:
  assumes "conn_of s p = Inr c"
  shows "c \<in> set (sv_conns s)" and "c_addr c = p" and "conn_at s p = c" and "p \<in> addrs s"
proof -
  have f: "find (\<lambda>c. c_addr c = p) (sv_conns s) = Some c" using assms by (simp add: conn_of_iff)
  then show "conn_at s p = c" by (simp add: conn_at_def)
  show "c \<in> set (sv_conns s)" "c_addr c = p" using f by (auto simp: find_Some_iff)
  then show "p \<in> addrs s" by (auto simp: addrs_def)
qed

lemma find_addr:
  "distinct (map c_addr cs) \<Longrightarrow> c \<in> set cs \<Longrightarrow> find (\<lambda>d. c_addr d = c_addr c) cs = Some c"
  by (induction cs) (force split: if_splits)+

lemma conn_of_mem:
  assumes "distinct (map c_addr (sv_conns s))" and "c \<in> set (sv_conns s)"
  shows "conn_of s (c_addr c) = Inr c"
  using find_addr [OF assms] by (simp add: conn_of_iff)

lemma find_map_addr:
  "(\<And>d. c_addr d = p \<Longrightarrow> c_addr (g d) = p) \<Longrightarrow>
   find (\<lambda>d. c_addr d = p) (map (\<lambda>d. if c_addr d = p then g d else d) cs) = map_option g (find (\<lambda>d. c_addr d = p) cs)"
  by (induction cs) auto

lemma find_map_other:
  "(\<And>d. c_addr d = p \<Longrightarrow> c_addr (g d) = p) \<Longrightarrow> p' \<noteq> p \<Longrightarrow>
   find (\<lambda>d. c_addr d = p') (map (\<lambda>d. if c_addr d = p then g d else d) cs) = find (\<lambda>d. c_addr d = p') cs"
  by (induction cs) auto

end
