(* ===== verification/Server_Frame.thy ===== *)
theory Server_Frame
  imports Server_Inv
begin

text \<open>
  The frame rule of the server: a step of a handler on its own blocks (\<open>own_step\<close>) keeps the
  invariant of everybody else (\<open>inv_local\<close>); opening and closing the invariant at the
  connection whose handler runs.
\<close>

text \<open>\<open>s'\<close> has the connections of \<open>s\<close> but for a change of \<open>p\<close>.\<close>

definition conns_upd :: "ptr \<Rightarrow> server \<Rightarrow> server \<Rightarrow> bool" where
  "conns_upd p s s' \<longleftrightarrow> (\<exists>g. (\<forall>d. c_addr d = p \<longrightarrow> c_addr (g d) = p) \<and>
     sv_conns s' = map (\<lambda>d. if c_addr d = p then g d else d) (sv_conns s))"

lemma conns_upd_refl: "sv_conns s' = sv_conns s \<Longrightarrow> conns_upd p s s'"
  unfolding conns_upd_def by (intro exI [of _ id]) (simp add: map_idI)

lemma conns_upd_addrs: "conns_upd p s s' \<Longrightarrow> map c_addr (sv_conns s') = map c_addr (sv_conns s)"
  by (auto simp: conns_upd_def)

lemma conns_upd_other:
  assumes "conns_upd p s s'" and "q \<noteq> p"
  shows "conn_at s' q = conn_at s q"
  using assms find_map_other [of p _ q "sv_conns s"] by (auto simp: conns_upd_def conn_at_def)

lemma conn_of_upd:
  assumes "\<And>d. c_addr d = p \<Longrightarrow> c_addr (f d) = p" and "conn_of s p = Inr c"
  shows "conn_of (upd_conn p f s) p = Inr (f c)"
  using assms find_map_addr [of p f "sv_conns s"] by (simp add: conn_of_iff upd_conn_def)

subsection \<open>A step of a handler on its own blocks\<close>

lemma inv_xD:
  assumes "inv_x p F s"
  shows "htab_inv slab_inv slab_live (sv_cache s, sv_mem s)" and "fvals (items (sv_cache s)) \<subseteq> {0}"
    and "inj_on (hview (sv_cache s)) (dom (hview (sv_cache s)))" and "distinct (map c_addr (sv_conns s))"
    and "disj_fam (owners s) (blk p F s) (slab_live (sv_mem s))" and "v \<in> vals s \<Longrightarrow> cached_ok s v"
    and "c \<in> set (sv_conns s) \<Longrightarrow> c_addr c \<noteq> p \<Longrightarrow> conn_ok s c" and "slab_inv (sv_mem s)"
  using assms by (auto simp: inv_x_def sep_def htab_inv_def)

lemma owner_tab [simp]: "O_tab \<in> owners s"
  by (simp add: owners_def)

lemma owner_iffs [simp]:
  "O_conn p \<in> owners s \<longleftrightarrow> p \<in> addrs s" "O_foot p \<in> owners s \<longleftrightarrow> p \<in> addrs s" "O_val v \<in> owners s \<longleftrightarrow> v \<in> vals s"
  by (auto simp: owners_def)

lemma blk_apart:
  assumes inv: "inv_x p F s" and p: "p \<in> addrs s" and o: "i \<in> owners s" "i \<noteq> O_foot p"
  shows "blk p F s i \<subseteq> slab_live (sv_mem s) - F"
proof -
  note d = disj_famD [OF inv_xD(5) [OF inv]]
  have "blk p F s i \<inter> blk p F s (O_foot p) = {}" using d(2) [OF o(1), of "O_foot p"] o(2) p by simp
  then show ?thesis using d(1) [OF o(1)] by auto
qed

lemma own_live:
  assumes inv: "inv_x p F s" and p: "p \<in> addrs s"
  shows "F \<subseteq> slab_live (sv_mem s)"
  using disj_famD(1) [OF inv_xD(5) [OF inv], of "O_foot p"] p by simp

text \<open>
  The handler may free blocks of \<open>F\<close>, take new ones and write to them; the cache and the
  blocks of everybody else stay as they are.
\<close>

definition own_step :: "ptr \<Rightarrow> ptr set \<Rightarrow> ptr set \<Rightarrow> server \<Rightarrow> server \<Rightarrow> bool" where
  "own_step p F F' s s' \<longleftrightarrow> sv_cache s' = sv_cache s \<and> slab_inv (sv_mem s') \<and> conns_upd p s s' \<and>
     slab_live (sv_mem s) - F \<subseteq> slab_live (sv_mem s') \<and> same_on (slab_live (sv_mem s) - F) s s' \<and>
     F' \<subseteq> slab_live (sv_mem s') - (slab_live (sv_mem s) - F)"

lemma own_step_blk:
  assumes inv: "inv_x p F s" and p: "p \<in> addrs s" and st: "own_step p F F' s s'"
    and i: "i \<in> owners s" "i \<noteq> O_foot p"
  shows "blk p F' s' i = blk p F s i"
proof (cases i)
  case O_tab
  then show ?thesis using st by (simp add: own_step_def)
next
  case (O_foot q)
  let ?d = "conn_at s q"
  have q: "q \<noteq> p" using i O_foot by auto
  have same: "same_on (slab_live (sv_mem s) - F) s s'" and h: "holds s' d = holds s d" for d
    using st by (simp_all add: own_step_def holds_def vals_def)
  have "req_blks s' (c_in ?d) = req_blks s (c_in ?d)" if "holds s ?d"
  proof (rule req_blks_same [OF same])
    have "c_in ?d \<in> blk p F s i" using that q by (simp add: O_foot foot_def)
    then show "c_in ?d \<in> slab_live (sv_mem s) - F" using blk_apart [OF inv p i] by blast
  qed
  then have "foot s' ?d = foot s ?d" by (simp add: foot_def h)
  moreover have "conns_upd p s s'" using st by (simp add: own_step_def)
  then have "conn_at s' q = ?d" by (rule conns_upd_other [OF _ q])
  ultimately show ?thesis using q by (simp add: O_foot)
next
  case (O_val w)
  have same: "same_on (slab_live (sv_mem s) - F) s s'" using st by (simp add: own_step_def)
  have "w \<in> blk p F s i" by (simp add: O_val)
  then have "w \<in> slab_live (sv_mem s) - F" using blk_apart [OF inv p i] by blast
  then show ?thesis using req_blks_same [OF same] by (simp add: O_val)
qed simp

lemma own_step_sep:
  assumes inv: "inv_x p F s" and p: "p \<in> addrs s" and st: "own_step p F F' s s'"
  shows "sep p F' s'"
proof -
  let ?L = "slab_live (sv_mem s) - F" and ?K = "owners s - {O_foot p}"
  have cu: "conns_upd p s s'" and live: "?L \<subseteq> slab_live (sv_mem s')" and ft: "F' \<subseteq> slab_live (sv_mem s') - ?L"
    using st by (simp_all add: own_step_def)
  have v: "vals s' = vals s" using st by (simp add: vals_def own_step_def)
  have a: "addrs s' = addrs s" using conns_upd_addrs [OF cu] by (metis addrs_def image_set)
  have o: "owners s' = ?K \<union> {O_foot p}" using v a p by (auto simp: owners_def)
  have sub: "blk p F s i \<subseteq> ?L" if "i \<in> ?K" for i using blk_apart [OF inv p] that by blast
  have "disj_fam (?K \<union> {O_foot p}) (blk p F' s') (slab_live (sv_mem s'))"
  proof (rule disj_fam_change [OF inv_xD(5) [OF inv]])
    show "blk p F' s' i = blk p F s i" if "i \<in> ?K" for i using own_step_blk [OF inv p st] that by blast
    show "disj_fam {O_foot p} (blk p F' s') (slab_live (sv_mem s'))"
      unfolding disj_fam_def using ft by auto
    show "blk p F s i \<subseteq> slab_live (sv_mem s')" if "i \<in> ?K" for i using sub [OF that] live by blast
    show "blk p F' s' x \<inter> blk p F s i = {}" if "x \<in> {O_foot p}" "i \<in> ?K" for x i
    proof -
      have "x = O_foot p" using that(1) by simp
      then show ?thesis using sub [OF that(2)] ft by auto
    qed
  qed auto
  then show ?thesis unfolding sep_def o .
qed

lemma inv_local:
  assumes inv: "inv_x p F s" and p: "p \<in> addrs s" and st: "own_step p F F' s s'"
  shows "inv_x p F' s'"
proof -
  let ?L = "slab_live (sv_mem s) - F"
  have cache: "sv_cache s' = sv_cache s" and mem: "slab_inv (sv_mem s')" and cu: "conns_upd p s s'"
    and live: "?L \<subseteq> slab_live (sv_mem s')" and same: "same_on ?L s s'"
    using st by (simp_all add: own_step_def)
  have v: "vals s' = vals s" by (simp add: vals_def cache)
  note i = inv_xD [OF inv]
  have ow: "set (owned (sv_cache s)) \<subseteq> ?L" using blk_apart [OF inv p, of O_tab] by simp
  have tab: "htab_inv slab_inv slab_live (sv_cache s', sv_mem s')"
    using i(1) mem ow live by (auto simp: cache htab_inv_def holds_blocks_def)
  have vb: "req_blks s w \<subseteq> ?L" if "w \<in> vals s" for w using blk_apart [OF inv p, of "O_val w"] that by simp
  have cached: "cached_ok s' w" if "w \<in> vals s'" for w
    using cached_ok_same [OF i(6) same vb] that by (simp add: v)
  have conns: "conn_ok s' d" if d: "d \<in> set (sv_conns s')" "c_addr d \<noteq> p" for d
  proof -
    have "d \<in> set (sv_conns s)" using d cu by (auto simp: conns_upd_def split: if_splits)
    then have m: "d \<in> set (sv_conns s)" "conn_ok s d" "conn_of s (c_addr d) = Inr d"
      using i(7) d(2) conn_of_mem [OF i(4)] by auto
    have "foot s d \<subseteq> ?L"
      using blk_apart [OF inv p, of "O_foot (c_addr d)"] conn_ofD(3,4) [OF m(3)] d(2) by simp
    then show ?thesis using conn_ok_same [OF m(2) same v] vb by blast
  qed
  show ?thesis
    unfolding inv_x_def using tab i(2,3,4) cached conns own_step_sep [OF inv p st] conns_upd_addrs [OF cu]
    by (simp add: cache)
qed

subsection \<open>Opening and closing the invariant\<close>

lemma live_nonzero: "slab_inv m \<Longrightarrow> 0 \<notin> slab_live m"
  using slab_live_pos by (fastforce simp: slab_inv_def slab_live_def slab_ok_def live_addrs_def)

lemma addr_nonzero: "inv_x p F s \<Longrightarrow> 0 \<notin> addrs s"
  using disj_famD(1) [OF inv_xD(5), of p F s "O_conn 0"] live_nonzero [OF inv_xD(8)] by auto

lemma disj_fam_shrink:
  assumes d: "disj_fam I f L" and g: "\<And>i. i \<in> I \<Longrightarrow> g i \<subseteq> f i"
  shows "disj_fam I g L"
proof -
  have "g i \<inter> g j = {}" if "i \<in> I" "j \<in> I" "i \<noteq> j" for i j
    using disj_famD(2) [OF d that] g [OF that(1)] g [OF that(2)] by blast
  moreover have "g i \<subseteq> L" if "i \<in> I" for i using disj_famD(1) [OF d that] g [OF that] by blast
  ultimately show ?thesis unfolding disj_fam_def by blast
qed

lemma inv_close:
  assumes inv: "inv_x p F s" and c: "conn_of s p = Inr c" and ok: "conn_ok s c" and f: "foot s c \<subseteq> F"
  shows "server_inv s"
proof -
  have cs: "conn_ok s d" if "d \<in> set (sv_conns s)" for d
  proof (cases "c_addr d = p")
    case True
    then have "conn_of s p = Inr d" using conn_of_mem [OF inv_xD(4) [OF inv] that] by simp
    then show ?thesis using c ok by simp
  next
    case False
    then show ?thesis using inv_xD(7) [OF inv that] by simp
  qed
  have z: "0 \<notin> addrs s" by (rule addr_nonzero [OF inv])
  have "blk 0 {} s i \<subseteq> blk p F s i" if "i \<in> owners s" for i
  proof (cases i)
    case (O_foot q)
    then have "q \<noteq> 0" using that z by (cases q) auto
    then show ?thesis using conn_ofD(3) [OF c] f by (auto simp: O_foot)
  qed auto
  then have "sep 0 {} s" using disj_fam_shrink [OF inv_xD(5) [OF inv]] by (simp add: sep_def)
  then show ?thesis using inv cs unfolding server_inv_def inv_x_def by blast
qed

lemma inv_open:
  assumes inv: "server_inv s" and c: "conn_of s p = Inr c"
  shows "inv_x p (foot s c) s" and "conn_ok s c"
proof -
  have z: "inv_x 0 {} s" using inv by (simp add: server_inv_def)
  have "blk p (foot s c) s i \<subseteq> blk 0 {} s i" if "i \<in> owners s" for i
  proof (cases i)
    case (O_foot q)
    then have "q \<noteq> 0" using that addr_nonzero [OF z] by (cases q) auto
    then show ?thesis using conn_ofD(3) [OF c] by (auto simp: O_foot)
  qed auto
  then have "sep p (foot s c) s" using disj_fam_shrink [OF inv_xD(5) [OF z]] by (simp add: sep_def)
  moreover have "conn_ok s d" if "d \<in> set (sv_conns s)" for d
  proof -
    have "c_addr d \<in> addrs s" using that by (simp add: addrs_def)
    then have "c_addr d \<noteq> 0" using addr_nonzero [OF z] by metis
    then show ?thesis using inv_xD(7) [OF z that] by simp
  qed
  ultimately show "inv_x p (foot s c) s" "conn_ok s c"
    using z conn_ofD(1) [OF c] unfolding inv_x_def by blast+
qed

end
