(* ===== verification/Server_Prim.thy ===== *)
theory Server_Prim
  imports Server_Frame
begin

text \<open>
  The rules for the single actions of a handler: \<open>run p F c s\<close> says that a handler of
  connection \<open>p\<close> runs with the blocks \<open>F\<close> in hand and the connection in state \<open>c\<close>.
\<close>

subsection \<open>Reading the state after an update\<close>

lemma conn_of_simps [simp]:
  "conn_of (s\<lparr>sv_mem := m\<rparr>) p = conn_of s p" "conn_of (s\<lparr>sv_reqs := x\<rparr>) p = conn_of s p"
  "conn_of (s\<lparr>sv_bufs := b\<rparr>) p = conn_of s p" "conn_of (s\<lparr>sv_cache := h\<rparr>) p = conn_of s p"
  "conn_of (s\<lparr>sv_settings := t\<rparr>) p = conn_of s p" "conn_of (s\<lparr>sv_stats := u\<rparr>) p = conn_of s p"
  "conn_of (s\<lparr>sv_watch := w\<rparr>) p = conn_of s p" "conn_of (s\<lparr>sv_sent := y\<rparr>) p = conn_of s p"
  "conn_of (s\<lparr>sv_closed := z\<rparr>) p = conn_of s p" "conn_of (upd_req q f s) p = conn_of s p"
  "conn_of (upd_stats g s) p = conn_of s p" "conn_of (set_cache h s) p = conn_of s p"
  by (simp_all add: conn_of_def upd_req_def upd_stats_def set_cache_def)

lemma upd_conn_simps [simp]:
  "sv_mem (upd_conn p f s) = sv_mem s" "sv_reqs (upd_conn p f s) = sv_reqs s" "sv_bufs (upd_conn p f s) = sv_bufs s"
  "sv_cache (upd_conn p f s) = sv_cache s" "sv_settings (upd_conn p f s) = sv_settings s"
  "sv_stats (upd_conn p f s) = sv_stats s" "sv_watch (upd_conn p f s) = sv_watch s"
  "sv_sent (upd_conn p f s) = sv_sent s" "sv_closed (upd_conn p f s) = sv_closed s"
  by (simp_all add: upd_conn_def)

lemma upd_req_simps [simp]:
  "sv_mem (upd_req q f s) = sv_mem s" "sv_conns (upd_req q f s) = sv_conns s" "sv_bufs (upd_req q f s) = sv_bufs s"
  "sv_cache (upd_req q f s) = sv_cache s" "sv_reqs (upd_req q f s) = (sv_reqs s)(q := map_option f (sv_reqs s q))"
  by (simp_all add: upd_req_def)

lemma upd_stats_simps [simp]:
  "sv_mem (upd_stats f s) = sv_mem s" "sv_conns (upd_stats f s) = sv_conns s" "sv_bufs (upd_stats f s) = sv_bufs s"
  "sv_cache (upd_stats f s) = sv_cache s" "sv_reqs (upd_stats f s) = sv_reqs s" "sv_watch (upd_stats f s) = sv_watch s"
  "sv_settings (upd_stats f s) = sv_settings s"
  by (simp_all add: upd_stats_def)

lemma set_cache_simps [simp]:
  "sv_mem (set_cache h s) = sv_mem s" "sv_conns (set_cache h s) = sv_conns s" "sv_bufs (set_cache h s) = sv_bufs s"
  "sv_cache (set_cache h s) = h" "sv_reqs (set_cache h s) = sv_reqs s"
  by (simp_all add: set_cache_def)

lemma req_of_iff: "req_of s q = Inr r \<longleftrightarrow> q \<noteq> 0 \<and> sv_reqs s q = Some r"
  by (simp add: req_of_def split: option.splits)

lemma buf_of_Some: "a \<noteq> 0 \<Longrightarrow> sv_bufs s a = Some xs \<Longrightarrow> buf_of s a = Inr (Some xs)"
  by (simp add: buf_of_def)

lemma buf_of_0 [simp]: "buf_of s 0 = Inr None"
  by (simp add: buf_of_def)

lemma vals_cong: "sv_cache s' = sv_cache s \<Longrightarrow> vals s' = vals s"
  by (simp add: vals_def)

lemma epoll_ctl_watch: "\<exists>W. snd (epoll_ctl e op fd ev s) = s\<lparr>sv_watch := W\<rparr>"
proof -
  have id: "s = s\<lparr>sv_watch := sv_watch s\<rparr>" by simp
  show ?thesis
  proof (cases "op = EPOLL_CTL_ADD \<and> sv_watch s fd \<noteq> None \<or> op \<noteq> EPOLL_CTL_ADD \<and> sv_watch s fd = None")
    case True
    then have "snd (epoll_ctl e op fd ev s) = s" by (auto simp: epoll_ctl_def)
    then show ?thesis using id by metis
  next
    case False
    then show ?thesis using id
      by (cases "e_ctl e op fd") (auto simp: epoll_ctl_def intro: exI [of _ "sv_watch s"])
  qed
qed

lemma event_set_watch: "\<exists>W. snd (event_set e c ev s) = s\<lparr>sv_watch := W\<rparr>"
proof -
  obtain r1 s1 where 1: "epoll_ctl e EPOLL_CTL_ADD (c_fd c) (ev, c_addr c) s = (r1, s1)" by fastforce
  obtain r2 s2 where 2: "epoll_ctl e EPOLL_CTL_MOD (c_fd c) (ev, c_addr c) s1 = (r2, s2)" by fastforce
  obtain W1 where w1: "s1 = s\<lparr>sv_watch := W1\<rparr>"
    using epoll_ctl_watch [of e EPOLL_CTL_ADD "c_fd c" "(ev, c_addr c)" s] 1 by auto
  obtain W2 where "s2 = s1\<lparr>sv_watch := W2\<rparr>"
    using epoll_ctl_watch [of e EPOLL_CTL_MOD "c_fd c" "(ev, c_addr c)" s1] 2 by auto
  then have "s2 = s\<lparr>sv_watch := W2\<rparr>" using w1 by simp
  moreover have "snd (event_set e c ev s) = s1 \<or> snd (event_set e c ev s) = s2" by (simp add: event_set_def 1 2)
  ultimately show ?thesis using w1 by blast
qed

lemma event_del_watch: "\<exists>W. snd (event_del e c s) = s\<lparr>sv_watch := W\<rparr>"
  using epoll_ctl_watch [of e EPOLL_CTL_DEL "c_fd c" "(EVENT_READ, 0)" s] by (simp add: event_del_def case_prod_unfold)

subsection \<open>A running handler\<close>

definition run :: "ptr \<Rightarrow> ptr set \<Rightarrow> conn \<Rightarrow> server \<Rightarrow> bool" where
  "run p F c s \<longleftrightarrow> inv_x p F s \<and> conn_of s p = Inr c"

lemma runI: "inv_x p F s \<Longrightarrow> conn_of s p = Inr c \<Longrightarrow> run p F c s"
  by (simp add: run_def)

lemma run_inv: "run p F c s \<Longrightarrow> inv_x p F s" and run_conn: "run p F c s \<Longrightarrow> conn_of s p = Inr c"
  by (simp_all add: run_def)

lemma run_open: "server_inv s \<Longrightarrow> conn_of s p = Inr c \<Longrightarrow> run p (foot s c) c s \<and> conn_ok s c"
  using inv_open by (simp add: run_def)

lemma run_close: "run p F c s \<Longrightarrow> conn_ok s c \<Longrightarrow> foot s c \<subseteq> F \<Longrightarrow> server_inv s"
  by (rule inv_close [OF run_inv run_conn])

lemma run_slab: "run p F c s \<Longrightarrow> slab_inv (sv_mem s)"
  by (rule inv_xD(8) [OF run_inv])

lemma run_live: "run p F c s \<Longrightarrow> F \<subseteq> slab_live (sv_mem s)"
  by (rule own_live [OF run_inv conn_ofD(4) [OF run_conn]])

lemma run_step:
  assumes "run p F c s" and "own_step p F F' s s'" and "conn_of s' p = Inr c'"
  shows "run p F' c' s'"
  using assms inv_local conn_ofD(4) unfolding run_def by blast

lemma run_same:
  assumes r: "run p F c s" and eq: "sv_cache s' = sv_cache s" "sv_mem s' = sv_mem s" "conns_upd p s s'"
    and same: "same_on (slab_live (sv_mem s) - F) s s'" and c: "conn_of s' p = Inr c'"
  shows "run p F c' s'"
proof (rule run_step [OF r _ c])
  show "own_step p F F s s'"
    using run_slab [OF r] run_live [OF r] eq same by (auto simp: own_step_def)
qed

lemma same_on_refl: "sv_reqs s' = sv_reqs s \<Longrightarrow> sv_bufs s' = sv_bufs s \<Longrightarrow> same_on B s s'"
  by (simp add: same_on_def)

lemma conns_upd_upd_conn: "(\<And>d. c_addr (f d) = c_addr d) \<Longrightarrow> conns_upd p s (upd_conn p f s)"
  unfolding conns_upd_def by (intro exI [of _ f]) (simp add: upd_conn_def)

lemma run_upd_conn:
  assumes "run p F c s" and "\<And>d. c_addr (f d) = c_addr d"
  shows "run p F (f c) (upd_conn p f s)"
proof (rule run_same [OF assms(1)])
  show "conn_of (upd_conn p f s) p = Inr (f c)"
    by (rule conn_of_upd) (use assms in \<open>simp_all add: run_def\<close>)
  show "conns_upd p s (upd_conn p f s)" by (rule conns_upd_upd_conn [OF assms(2)])
qed (simp_all add: same_on_def)

lemma run_misc:
  assumes "run p F c s"
  shows "run p F c (s\<lparr>sv_watch := W\<rparr>)" and "run p F c (s\<lparr>sv_sent := y\<rparr>)" and "run p F c (s\<lparr>sv_closed := z\<rparr>)"
    and "run p F c (s\<lparr>sv_settings := t\<rparr>)" and "run p F c (upd_stats g s)"
  by (rule run_same [OF assms]; simp add: run_conn [OF assms] conns_upd_refl same_on_def)+

lemma run_reqs:
  assumes "run p F c s" and "q \<in> F"
  shows "run p F c (s\<lparr>sv_reqs := (sv_reqs s)(q := x)\<rparr>)" and "run p F c (upd_req q f s)"
proof -
  show a: "run p F c (s\<lparr>sv_reqs := (sv_reqs s)(q := x)\<rparr>)" for x
    by (rule run_same [OF assms(1)]) (use assms(2) in \<open>auto simp: run_conn [OF assms(1)] conns_upd_refl same_on_def\<close>)
  show "run p F c (upd_req q f s)" unfolding upd_req_def by (rule a)
qed

lemma run_bufs:
  assumes "run p F c s" and "a \<in> F"
  shows "run p F c (s\<lparr>sv_bufs := (sv_bufs s)(a := x)\<rparr>)"
  by (rule run_same [OF assms(1)]) (use assms(2) in \<open>auto simp: run_conn [OF assms(1)] conns_upd_refl same_on_def\<close>)

lemma run_malloc:
  assumes r: "run p F c s"
  obtains (none) "s_malloc e n s = Inr (0, s)"
  | (some) a m where "s_malloc e n s = Inr (a, s\<lparr>sv_mem := m\<rparr>)" "a \<noteq> 0" "a \<notin> slab_live (sv_mem s)"
    "run p (insert a F) c (s\<lparr>sv_mem := m\<rparr>)"
  using run_slab [OF r]
proof (cases rule: slab_alloc.malloc_cases [where n = n and mf = "e_malloc e"])
  case none
  have "s_malloc e n s = Inr (0, s)" using none by (simp add: s_malloc_def)
  then show thesis by (rule that(1))
next
  case (some a m)
  have "own_step p F (insert a F) s (s\<lparr>sv_mem := m\<rparr>)"
    using some(2,4,5) run_live [OF r] by (auto simp: own_step_def same_on_def intro: conns_upd_refl)
  then have "run p (insert a F) c (s\<lparr>sv_mem := m\<rparr>)"
    by (rule run_step [OF r]) (simp add: run_conn [OF r])
  moreover have "s_malloc e n s = Inr (a, s\<lparr>sv_mem := m\<rparr>)" using some(1) by (simp add: s_malloc_def)
  ultimately show thesis using some(3,4) by (intro that(2)) auto
qed

text \<open>Freeing: the objects at the addresses are gone.\<close>

definition wipe :: "ptr set \<Rightarrow> memst \<Rightarrow> server \<Rightarrow> server" where
  "wipe B m s = s\<lparr>sv_mem := m, sv_reqs := (\<lambda>x. if x \<in> B then None else sv_reqs s x),
     sv_bufs := (\<lambda>x. if x \<in> B then None else sv_bufs s x)\<rparr>"

lemma wipe_simps [simp]:
  "sv_mem (wipe B m s) = m" "sv_cache (wipe B m s) = sv_cache s" "sv_conns (wipe B m s) = sv_conns s"
  "sv_reqs (wipe B m s) x = (if x \<in> B then None else sv_reqs s x)"
  "sv_bufs (wipe B m s) x = (if x \<in> B then None else sv_bufs s x)"
  "sv_settings (wipe B m s) = sv_settings s" "sv_stats (wipe B m s) = sv_stats s"
  "conn_of (wipe B m s) p = conn_of s p" "wipe A m (wipe B m' s) = wipe (A \<union> B) m s"
  by (auto simp: wipe_def conn_of_def fun_eq_iff)

lemma s_free_ok:
  assumes "slab_inv (sv_mem s)" and "a = 0 \<or> a \<in> slab_live (sv_mem s)"
  shows "\<exists>m. s_free a s = Inr (wipe {a} m s) \<and> slab_inv m \<and> slab_live m = slab_live (sv_mem s) - {a}"
proof -
  have "\<exists>m. li_free a (sv_mem s) = Inr m \<and> slab_inv m \<and> slab_live m = slab_live (sv_mem s) - {a}"
  proof (cases "a = 0")
    case True
    then show ?thesis using assms(1) live_nonzero [OF assms(1)] slab_alloc.null_law by auto
  next
    case False
    then show ?thesis using slab_alloc.free_law [OF assms(1)] assms(2) by blast
  qed
  then obtain m where m: "li_free a (sv_mem s) = Inr m" "slab_inv m" "slab_live m = slab_live (sv_mem s) - {a}" by blast
  then have "s_free a s = Inr (wipe {a} m s)"
    by (simp add: s_free_def wipe_def fun_upd_def)
  with m show ?thesis by blast
qed

lemma run_wipe:
  assumes r: "run p F c s" and m: "slab_inv m" "slab_live m = slab_live (sv_mem s) - B" and B: "B \<subseteq> insert 0 F"
  shows "run p (F - B) c (wipe B m s)"
proof (rule run_step [OF r])
  have z: "0 \<notin> slab_live (sv_mem s)" by (rule live_nonzero [OF run_slab [OF r]])
  then show "own_step p F (F - B) s (wipe B m s)"
    using m B run_live [OF r] by (auto simp: own_step_def same_on_def intro: conns_upd_refl)
qed (use r in \<open>simp add: run_def\<close>)

lemma free_req_blocks_ok:
  assumes inv: "slab_inv (sv_mem s)" and q: "req_ok s q r" and sub: "req_blks s q \<subseteq> slab_live (sv_mem s)"
  shows "\<exists>m. free_req_blocks q r s = Inr (wipe {rkey r, rdata r, rextra r, q} m s) \<and> slab_inv m \<and>
    slab_live m = slab_live (sv_mem s) - {rkey r, rdata r, rextra r, q}"
proof -
  have d: "rdata r = 0 \<or> rdata r \<noteq> rkey r" "rextra r = 0 \<or> rextra r \<noteq> rkey r \<and> rextra r \<noteq> rdata r"
    "q \<noteq> 0" "q \<noteq> rkey r" "q \<noteq> rdata r" "q \<noteq> rextra r" using q by (auto simp: req_ok_def)
  have l: "{rkey r, rdata r, rextra r, q} - {0} \<subseteq> slab_live (sv_mem s)"
    using sub req_ok_in_blks [OF q] by auto
  obtain m1 where 1: "s_free (rkey r) s = Inr (wipe {rkey r} m1 s)" "slab_inv m1"
    "slab_live m1 = slab_live (sv_mem s) - {rkey r}"
    using s_free_ok [OF inv, of "rkey r"] l by blast
  let ?s1 = "wipe {rkey r} m1 s"
  have "rdata r = 0 \<or> rdata r \<in> slab_live m1" unfolding 1(3) using l d(1) by blast
  then obtain m2 where 2: "s_free (rdata r) ?s1 = Inr (wipe {rdata r, rkey r} m2 s)" "slab_inv m2"
    "slab_live m2 = slab_live m1 - {rdata r}"
    using s_free_ok [of ?s1 "rdata r"] 1(2) by (auto simp: insert_commute)
  let ?s2 = "wipe {rdata r, rkey r} m2 s"
  have "rextra r = 0 \<or> rextra r \<in> slab_live m2" unfolding 1(3) 2(3) using l d(2) by blast
  then obtain m3 where 3: "s_free (rextra r) ?s2 = Inr (wipe {rextra r, rdata r, rkey r} m3 s)" "slab_inv m3"
    "slab_live m3 = slab_live m2 - {rextra r}"
    using s_free_ok [of ?s2 "rextra r"] 2(2) by (auto simp: insert_commute)
  let ?s3 = "wipe {rextra r, rdata r, rkey r} m3 s"
  have "q \<in> slab_live m3" unfolding 1(3) 2(3) 3(3) using l d(3-6) by blast
  then obtain m4 where 4: "s_free q ?s3 = Inr (wipe {q, rextra r, rdata r, rkey r} m4 s)" "slab_inv m4"
    "slab_live m4 = slab_live m3 - {q}"
    using s_free_ok [of ?s3 q] 3(2) by (auto simp: insert_commute)
  have e: "{rkey r, rdata r, rextra r, q} = {q, rextra r, rdata r, rkey r}" by auto
  show ?thesis
    unfolding e using 1 2 3 4 by (intro exI [of _ m4]) (auto simp: free_req_blocks_def)
qed

end
