(* ===== verification/Server_Conn.thy ===== *)
theory Server_Conn
  imports Server_Prim
begin

text \<open>
  The connection functions keep the invariant: releasing what a connection has in hand,
  \<open>disconnect_conn\<close>, \<open>init_resources\<close>, \<open>set_conn_state\<close> and \<open>add_response\<close>.
\<close>

text \<open>Nothing the invariant says of requests and buffers changes.\<close>

definition kept :: "server \<Rightarrow> server \<Rightarrow> bool" where
  "kept s s' \<longleftrightarrow> sv_cache s' = sv_cache s \<and> sv_reqs s' = sv_reqs s \<and> sv_bufs s' = sv_bufs s \<and> sv_mem s' = sv_mem s"

lemma keptD:
  assumes "kept s s'"
  shows "vals s' = vals s" and "req_blks s' = req_blks s" and "holds s' = holds s" and "foot s' = foot s"
    and "req_ok s' = req_ok s" and "has_req s' = has_req s" and "reading s' = reading s" and "out_ok s' = out_ok s"
    and "sending s' = sending s" and "conn_ok s' = conn_ok s"
proof -
  have k: "sv_cache s' = sv_cache s" "sv_reqs s' = sv_reqs s" "sv_bufs s' = sv_bufs s" "sv_mem s' = sv_mem s"
    using assms by (simp_all add: kept_def)
  show v: "vals s' = vals s" by (simp add: vals_def k)
  show b: "req_blks s' = req_blks s" by (simp add: fun_eq_iff req_blks_def k)
  show h: "holds s' = holds s" by (simp add: fun_eq_iff holds_def v)
  show "foot s' = foot s" by (simp add: fun_eq_iff foot_def h b)
  have "buf_ok s' = buf_ok s" by (simp add: fun_eq_iff buf_ok_def k)
  then show q: "req_ok s' = req_ok s" by (simp add: fun_eq_iff req_ok_def k)
  show hr: "has_req s' = has_req s" by (simp add: fun_eq_iff has_req_def q v)
  have kk: "key_part s' = key_part s" "key_full s' = key_full s" by (simp_all add: fun_eq_iff key_part_def key_full_def k)
  show rd: "reading s' = reading s" by (intro ext) (simp only: reading_def kk)
  show o: "out_ok s' = out_ok s" by (simp add: fun_eq_iff out_ok_def h b v k)
  show sd: "sending s' = sending s" by (simp add: fun_eq_iff sending_def o)
  show "conn_ok s' = conn_ok s" by (simp add: fun_eq_iff conn_ok_def hr rd sd v)
qed

lemma kept_trans: "kept s s' \<Longrightarrow> kept s' s'' \<Longrightarrow> kept s s''"
  by (simp add: kept_def)

lemma kept_simps [simp]:
  "kept s s" "kept s (upd_conn p f s')  = kept s s'" "kept s (s'\<lparr>sv_watch := W\<rparr>) = kept s s'"
  "kept s (upd_stats g s') = kept s s'" "kept s (s'\<lparr>sv_sent := y\<rparr>) = kept s s'"
  "kept s (s'\<lparr>sv_closed := z\<rparr>) = kept s s'" "kept s (s'\<lparr>sv_settings := t\<rparr>) = kept s s'"
  by (simp_all add: kept_def)

subsection \<open>States without resources\<close>

definition in_state :: "conn_states \<Rightarrow> conn \<Rightarrow> conn" where
  "in_state st c = c\<lparr>c_state := st, c_out := (if st = SEND_HEADER then (c_out c)\<lparr>sbytes := 0\<rparr> else c_out c)\<rparr>"

lemma in_state_simps [simp]:
  "c_state (in_state st c) = st" "c_in (in_state st c) = c_in c" "c_free (in_state st c) = c_free c"
  "c_listening (in_state st c) = c_listening c" "c_addr (in_state st c) = c_addr c" "c_fd (in_state st c) = c_fd c"
  "rs_header (c_out (in_state st c)) = rs_header (c_out c)"
  "sdata (c_out (in_state st c)) = sdata (c_out c)" "rs_can_free (c_out (in_state st c)) = rs_can_free (c_out c)"
  by (simp_all add: in_state_def)

lemma in_state_frame [simp]:
  "client (in_state st c) = client c" "holds s (in_state st c) = holds s c" "out_blks (in_state st c) = out_blks c"
  "resp_len (in_state st c) = resp_len c" "has_req s (in_state st c) r = has_req s c r"
  by (simp_all add: client_def holds_def out_blks_def resp_len_def has_req_def)

lemma in_state_foot [simp]: "foot s (in_state st c) = foot s c" "out_ok s (in_state st c) = out_ok s c"
  by (simp_all only: foot_def out_ok_def in_state_frame in_state_simps)

lemma set_state_plain_ok:
  assumes r: "run p F c s"
  obtains s' where "set_state_plain e p st s = Inr s'" and "run p F (in_state st c) s'" and "kept s s'"
proof (cases "st = SEND_HEADER")
  case True
  let ?f = "\<lambda>c. c\<lparr>c_out := (c_out c)\<lparr>sbytes := 0\<rparr>\<rparr>"
  have r1: "run p F (?f c) (upd_conn p ?f s)" by (rule run_upd_conn [OF r]) simp
  obtain W where W: "snd (event_set e (?f c) EVENT_WRITE (upd_conn p ?f s)) = (upd_conn p ?f s)\<lparr>sv_watch := W\<rparr>"
    using event_set_watch by blast
  let ?s = "upd_conn p (\<lambda>c. c\<lparr>c_state := st\<rparr>) ((upd_conn p ?f s)\<lparr>sv_watch := W\<rparr>)"
  have "run p F ((?f c)\<lparr>c_state := st\<rparr>) ?s" by (rule run_upd_conn [OF run_misc(1) [OF r1]]) simp
  moreover have "set_state_plain e p st s = Inr ?s" using True W run_conn [OF r1] by (simp add: set_state_plain_def Let_def)
  moreover have "(?f c)\<lparr>c_state := st\<rparr> = in_state st c" using True by (simp add: in_state_def)
  ultimately show thesis using that [of ?s] by simp
next
  case False
  let ?s = "upd_conn p (\<lambda>c. c\<lparr>c_state := st\<rparr>) s"
  have "run p F (c\<lparr>c_state := st\<rparr>) ?s" by (rule run_upd_conn [OF r]) simp
  moreover have "set_state_plain e p st s = Inr ?s" using False by (simp add: set_state_plain_def)
  moreover have "c\<lparr>c_state := st\<rparr> = in_state st c" using False by (simp add: in_state_def)
  ultimately show thesis using that [of ?s] by simp
qed

subsection \<open>Releasing what a connection has in hand\<close>

definition releasable :: "server \<Rightarrow> conn \<Rightarrow> bool" where
  "releasable s c \<longleftrightarrow> (c_in c = 0 \<or> client c \<and> (\<exists>r. has_req s c r)) \<and>
     (holds s c \<longrightarrow> out_blks c \<inter> req_blks s (c_in c) = {})"

lemma conn_ok_releasable:
  assumes "conn_ok s c" and "client c"
  shows "releasable s c"
  using assms by (auto simp: conn_ok_def releasable_def sending_def out_ok_def out_blks_def)

lemma nonzero_parts: "q \<noteq> 0 \<Longrightarrow> {a, b, c, q} - {0} = {q} \<union> ({a, b, c} - {0})" for q :: ptr
  by auto

lemma without_null:
  "A - {0} = B \<Longrightarrow> B \<subseteq> F \<Longrightarrow> A \<subseteq> insert 0 F" "A - {0} = B \<Longrightarrow> C \<inter> B = {} \<Longrightarrow> 0 \<notin> C \<Longrightarrow> C \<inter> A = {}"
  "C \<subseteq> F \<Longrightarrow> C \<inter> A = {} \<Longrightarrow> C \<subseteq> F - A" "0 \<notin> C \<Longrightarrow> C - A = C - (A - {0})" for A B C F :: "ptr set"
  by blast+

lemma req_ok_of: "req_ok s q r \<Longrightarrow> req_of s q = Inr r"
  by (simp add: req_of_iff req_ok_def)

lemma free_request_ok:
  assumes r: "run p F c s" and rel: "releasable s c" and f: "foot s c \<subseteq> F"
  obtains s' F' c' where "free_request p s = Inr s'" and "run p F' c' s'" and "sv_cache s' = sv_cache s"
    and "\<not> holds s' c'" and "out_blks c' \<subseteq> F'" and "c' = c \<or> c' = c\<lparr>c_in := 0\<rparr>"
proof (cases "holds s c")
  case False
  have e: "free_request p s = Inr s"
  proof (cases "c_in c = 0")
    case True
    then show ?thesis using run_conn [OF r] by (simp add: free_request_def)
  next
    case nz: False
    then obtain q where q: "has_req s c q" "client c" using rel by (auto simp: releasable_def)
    then have "c_in c \<in> vals s" using False nz by (simp add: holds_def)
    then have "req_of s (c_in c) = Inr q" "\<not> rq_can_free q" using q nz by (auto simp: has_req_def req_ok_def req_of_iff)
    then show ?thesis using run_conn [OF r] nz by (simp add: free_request_def)
  qed
  have o: "out_blks c \<subseteq> F" using f by (simp add: foot_def)
  show thesis by (rule that [OF e r _ False o]) simp_all
next
  case True
  then have nz: "c_in c \<noteq> 0" by (simp add: holds_def)
  then obtain q where q: "has_req s c q" using rel by (auto simp: releasable_def)
  have rq: "req_ok s (c_in c) q" "rq_can_free q" using q True by (auto simp: has_req_def holds_def)
  have b: "req_blks s (c_in c) \<subseteq> F" using f True by (simp add: foot_def)
  let ?W = "{rkey q, rdata q, rextra q, c_in c}"
  have W2: "?W - {0} = req_blks s (c_in c)" unfolding req_ok_in_blks [OF rq(1)] by (rule nonzero_parts [OF nz])
  then have W: "?W \<subseteq> insert 0 F" by (rule without_null(1) [OF _ b])
  obtain m where m: "free_req_blocks (c_in c) q s = Inr (wipe ?W m s)" "slab_inv m"
    "slab_live m = slab_live (sv_mem s) - ?W"
    using free_req_blocks_ok [OF run_slab [OF r] rq(1)] b run_live [OF r] by blast
  have r1: "run p (F - ?W) c (wipe ?W m s)" by (rule run_wipe [OF r m(2,3) W])
  let ?f = "\<lambda>c. c\<lparr>c_in := 0\<rparr>"
  have r2: "run p (F - ?W) (?f c) (upd_conn p ?f (wipe ?W m s))" by (rule run_upd_conn [OF r1]) simp
  have e: "free_request p s = Inr (upd_conn p ?f (wipe ?W m s))"
    using run_conn [OF r] nz req_ok_of [OF rq(1)] rq(2) m(1) by (simp add: free_request_def)
  have "out_blks c \<inter> req_blks s (c_in c) = {}" using rel True by (simp add: releasable_def)
  then have "out_blks c \<inter> ?W = {}" by (rule without_null(2) [OF W2]) (simp add: out_blks_def)
  moreover have "out_blks c \<subseteq> F" "out_blks (?f c) = out_blks c" using f by (simp_all add: foot_def out_blks_def)
  ultimately have o: "out_blks (?f c) \<subseteq> F - ?W" by (metis without_null(3))
  have h: "\<not> holds (upd_conn p ?f (wipe ?W m s)) (?f c)" by (simp add: holds_def)
  show thesis by (rule that [OF e r2 _ h o]) simp_all
qed

definition no_data :: "conn \<Rightarrow> conn" where
  "no_data c = c\<lparr>c_out := (c_out c)\<lparr>sdata := 0\<rparr>\<rparr>"

lemma free_response_ok:
  assumes r: "run p F c s" and f: "out_blks c \<subseteq> F"
  obtains s' F' where "free_response p s = Inr s'" and "run p F' (no_data c) s'" and "sv_cache s' = sv_cache s"
proof (cases "rs_can_free (c_out c)")
  case False
  have "run p F (no_data c) (upd_conn p no_data s)" by (rule run_upd_conn [OF r]) (simp add: no_data_def)
  moreover have "free_response p s = Inr (upd_conn p no_data s)"
    using False run_conn [OF r] by (simp add: free_response_def no_data_def [abs_def])
  ultimately show thesis using that [of "upd_conn p no_data s" F] by simp
next
  case True
  let ?a = "sdata (c_out c)"
  have "?a = 0 \<or> ?a \<in> F" using True f by (simp add: out_blks_def split: if_splits)
  then obtain m where m: "s_free ?a s = Inr (wipe {?a} m s)" "slab_inv m" "slab_live m = slab_live (sv_mem s) - {?a}"
    using s_free_ok [OF run_slab [OF r], of ?a] run_live [OF r] by blast
  have "run p (F - {?a}) c (wipe {?a} m s)"
    using \<open>?a = 0 \<or> ?a \<in> F\<close> by (intro run_wipe [OF r m(2,3)]) auto
  then have "run p (F - {?a}) (no_data c) (upd_conn p no_data (wipe {?a} m s))"
    by (rule run_upd_conn) (simp add: no_data_def)
  moreover have "free_response p s = Inr (upd_conn p no_data (wipe {?a} m s))"
    using True run_conn [OF r] m(1) by (simp add: free_response_def no_data_def [abs_def])
  ultimately show thesis using that [of "upd_conn p no_data (wipe {?a} m s)" "F - {?a}"] by simp
qed

text \<open>Both together: the connection has nothing in hand any more.\<close>

lemma release_ok:
  assumes r: "run p F c s" and rel: "releasable s c" and f: "foot s c \<subseteq> F"
  obtains s1 s' F' c' where "free_request p s = Inr s1" and "free_response p s1 = Inr s'" and "run p F' c' s'"
    and "sv_cache s' = sv_cache s" and "\<not> holds s' c'" and "c' = no_data c \<or> c' = no_data (c\<lparr>c_in := 0\<rparr>)"
proof -
  obtain s1 F1 c1 where 1: "free_request p s = Inr s1" "run p F1 c1 s1" "sv_cache s1 = sv_cache s"
    "\<not> holds s1 c1" "out_blks c1 \<subseteq> F1" "c1 = c \<or> c1 = c\<lparr>c_in := 0\<rparr>"
    using free_request_ok [OF assms] by metis
  obtain s2 F2 where 2: "free_response p s1 = Inr s2" "run p F2 (no_data c1) s2" "sv_cache s2 = sv_cache s1"
    using free_response_ok [OF 1(2,5)] by metis
  have "holds s2 (no_data c1) = holds s1 c1" using vals_cong [OF 2(3)] by (simp add: holds_def no_data_def client_def)
  then have h: "\<not> holds s2 (no_data c1)" using 1(4) by simp
  have cc: "sv_cache s2 = sv_cache s" using 1(3) 2(3) by simp
  have "no_data c1 = no_data c \<or> no_data c1 = no_data (c\<lparr>c_in := 0\<rparr>)" using 1(6) by blast
  then show thesis by (rule that [OF 1(1) 2(1,2) cc h])
qed

lemma foot_no_data: "\<not> holds s c \<Longrightarrow> sdata (c_out c) = 0 \<Longrightarrow> foot s c = {}"
  by (simp add: foot_def out_blks_def)

lemma disconnect_ok:
  assumes r: "run p F c s" and rel: "releasable s c" and f: "foot s c \<subseteq> F" and h: "length (rs_header (c_out c)) = 8"
  shows "\<exists>s'. disconnect_conn e p s = Inr s' \<and> server_inv s'"
proof -
  obtain s1 s2 F2 c2 where 2: "free_request p s = Inr s1" "free_response p s1 = Inr s2" "run p F2 c2 s2"
    "c2 = no_data c \<or> c2 = no_data (c\<lparr>c_in := 0\<rparr>)"
    using release_ok [OF r rel f] by metis
  let ?f = "\<lambda>c. c\<lparr>c_free := True\<rparr>"
  let ?g = "\<lambda>t. t\<lparr>curr_connections := sub64 (curr_connections t) 1\<rparr>"
  have r3: "run p F2 (?f c2) (upd_conn p ?f s2)" by (rule run_upd_conn [OF 2(3)]) simp
  obtain W where W: "snd (event_del e (?f c2) (upd_conn p ?f s2)) = (upd_conn p ?f s2)\<lparr>sv_watch := W\<rparr>"
    using event_del_watch by blast
  let ?s = "upd_stats ?g (close_fd (c_fd (?f c2)) ((upd_conn p ?f s2)\<lparr>sv_watch := W\<rparr>))"
  have r4: "run p F2 (?f c2) ?s"
    unfolding close_fd_def by (intro run_misc(5) run_misc(3) run_misc(1) r3)
  obtain s' where s': "set_state_plain e p CONN_CLOSED ?s = Inr s'" "run p F2 (in_state CONN_CLOSED (?f c2)) s'"
    by (rule set_state_plain_ok [OF r4])
  have "disconnect_conn e p s = Inr s'"
    using 2(1,2) run_conn [OF r3] W s'(1) by (simp add: disconnect_conn_def Let_def)
  moreover have "server_inv s'"
  proof (rule run_close [OF s'(2)])
    show "conn_ok s' (in_state CONN_CLOSED (?f c2))"
      using 2(4) h by (auto simp: conn_ok_def client_def no_data_def)
    show "foot s' (in_state CONN_CLOSED (?f c2)) \<subseteq> F2"
      using 2(4) by (auto simp: foot_def holds_def client_def out_blks_def no_data_def)
  qed
  ultimately show ?thesis by blast
qed

end
