(* ===== verification/Server_Respond.thy ===== *)
theory Server_Respond
  imports Server_Conn
begin

text \<open>
  Answering, taking the next request and taking a buffer keep the invariant: \<open>add_response\<close>,
  \<open>set_conn_state\<close> with \<open>READ_HEADER\<close>, \<open>READ_KEY\<close>, \<open>READ_DATA\<close> and \<open>READ_EXTRA\<close>.
\<close>

subsection \<open>A connection with a request\<close>

definition at_req :: "ptr \<Rightarrow> ptr set \<Rightarrow> conn \<Rightarrow> request \<Rightarrow> server \<Rightarrow> bool" where
  "at_req p F c r s \<longleftrightarrow> run p F c s \<and> client c \<and> length (rs_header (c_out c)) = 8 \<and> has_req s c r \<and>
     c_in c \<notin> vals s \<and> sdata (c_out c) = 0 \<and> rs_can_free (c_out c) \<and> req_blks s (c_in c) \<subseteq> F"

lemma at_reqD:
  assumes "at_req p F c r s"
  shows "run p F c s" and "client c" and "length (rs_header (c_out c)) = 8" and "has_req s c r"
    and "c_in c \<notin> vals s" and "sdata (c_out c) = 0" and "rs_can_free (c_out c)" and "req_blks s (c_in c) \<subseteq> F"
    and "req_ok s (c_in c) r" and "rq_can_free r" and "c_in c \<noteq> 0" and "c_in c \<in> F" and "holds s c"
proof -
  show a: "run p F c s" "client c" "length (rs_header (c_out c)) = 8" "has_req s c r" "c_in c \<notin> vals s"
    "sdata (c_out c) = 0" "rs_can_free (c_out c)" "req_blks s (c_in c) \<subseteq> F"
    using assms unfolding at_req_def by blast+
  show "req_ok s (c_in c) r" "rq_can_free r" using a(4,5) by (simp_all add: has_req_def)
  then show nz: "c_in c \<noteq> 0" by (simp add: req_ok_def)
  show "c_in c \<in> F" using a(8) req_blks_self by blast
  show "holds s c" using a(2,5) nz by (simp add: holds_def)
qed

lemma at_req_releasable: "at_req p F c r s \<Longrightarrow> releasable s c"
  using at_reqD [of p F c r s] by (auto simp: releasable_def out_blks_def)

lemma at_req_foot: "at_req p F c r s \<Longrightarrow> foot s c \<subseteq> F"
  using at_reqD [of p F c r s] by (simp add: foot_def out_blks_def)

lemma reading_close:
  assumes a: "at_req p F c r s" and rd: "reading s c r"
  shows "server_inv s"
proof (rule run_close [OF at_reqD(1) [OF a] _ at_req_foot [OF a]])
  have "c_state c \<noteq> CONN_CLOSED" using rd by (auto simp: reading_def Let_def)
  then show "conn_ok s c" using at_reqD [OF a] rd by (auto simp: conn_ok_def client_def)
qed

subsection \<open>Responses\<close>

definition answer :: "request \<Rightarrow> ptr \<Rightarrow> nat \<Rightarrow> code_t \<Rightarrow> conn \<Rightarrow> conn" where
  "answer r dat n code c = c\<lparr>c_out := (c_out c)\<lparr>
     rs_header := resp_fields (rq_opcode (rq_header r)) code n (rs_header (c_out c)),
     sdata := dat, rs_can_free := True\<rparr>\<rparr>"

lemma answer_simps [simp]:
  "c_in (answer r dat n code c) = c_in c" "c_free (answer r dat n code c) = c_free c"
  "c_listening (answer r dat n code c) = c_listening c" "c_addr (answer r dat n code c) = c_addr c"
  "sdata (c_out (answer r dat n code c)) = dat" "rs_can_free (c_out (answer r dat n code c))"
  "length (rs_header (c_out (answer r dat n code c))) = length (rs_header (c_out c))"
  "client (answer r dat n code c) = client c" "holds s (answer r dat n code c) = holds s c"
  "has_req s (answer r dat n code c) q = has_req s c q"
  by (simp_all add: answer_def client_def holds_def has_req_def resp_fields_def)

lemma answer_len:
  "length (rs_header (c_out c)) = 8 \<Longrightarrow> n < 2 ^ 32 \<Longrightarrow> resp_len (answer r dat n code c) = n"
  using store32_htonl [of 4 "(rs_header (c_out c))[0 := rq_opcode (rq_header r), 1 := code_byte code]" n]
  by (simp add: resp_len_def answer_def resp_fields_def)

lemma add_response_ok:
  assumes r: "run p F c s" and q: "req_ok s (c_in c) rq"
  obtains s' where "add_response e p dat n code s = Inr s'"
    and "run p F (in_state SEND_HEADER (answer rq dat n code c)) s'" and "kept s s'"
proof -
  let ?f = "\<lambda>c. answer rq dat n code c"
  have r1: "run p F (?f c) (upd_conn p ?f s)" by (rule run_upd_conn [OF r]) simp
  obtain s' where s': "set_state_plain e p SEND_HEADER (upd_conn p ?f s) = Inr s'"
    "run p F (in_state SEND_HEADER (?f c)) s'" "kept (upd_conn p ?f s) s'"
    by (rule set_state_plain_ok [OF r1])
  have "add_response e p dat n code s = Inr s'"
    using run_conn [OF r] req_ok_of [OF q] s'(1) by (simp add: add_response_def answer_def [abs_def])
  moreover have "kept s s'" using s'(3) by (simp add: kept_def)
  ultimately show thesis using that s'(2) by blast
qed

lemma sending_close:
  assumes r: "run p F c s" and q: "has_req s c rq" and cl: "client c" and h: "length (rs_header (c_out c)) = 8"
    and snd: "sending s c" and f: "foot s c \<subseteq> F"
  shows "server_inv s"
proof (rule run_close [OF r _ f])
  have "c_state c \<noteq> CONN_CLOSED" using snd by (auto simp: sending_def)
  then show "conn_ok s c" using q cl h snd by (auto simp: conn_ok_def client_def)
qed

lemma foot_answer: "foot s (answer rq dat n code c) = (if holds s c then req_blks s (c_in c) else {}) \<union> ({dat} - {0})"
  by (auto simp: foot_def out_blks_def)

lemma resp_len_out: "rs_header (c_out c) = rs_header (c_out d) \<Longrightarrow> resp_len c = resp_len d"
  by (simp add: resp_len_def)

lemma sending_header: "out_ok s c \<Longrightarrow> sending s (in_state SEND_HEADER c)"
  unfolding sending_def in_state_foot(2) by (simp add: in_state_def)

text \<open>What a client is told: the state of its connection, the code and the data of the response.\<close>

definition buf_data :: "server \<Rightarrow> ptr \<Rightarrow> nat \<Rightarrow> byte list" where
  "buf_data s a n = (case sv_bufs s a of None \<Rightarrow> [] | Some xs \<Rightarrow> take n xs)"

definition reply :: "server \<Rightarrow> ptr \<Rightarrow> (conn_states \<times> byte \<times> byte list) option" where
  "reply s p =
     (case conn_of s p of
        Inl x \<Rightarrow> None
      | Inr c \<Rightarrow> Some (c_state c, rs_header (c_out c) ! 1, buf_data s (sdata (c_out c)) (resp_len c)))"

definition answered :: "ptr \<Rightarrow> code_t \<Rightarrow> byte list \<Rightarrow> server \<Rightarrow> server \<Rightarrow> bool" where
  "answered p code data s s' \<longleftrightarrow> server_inv s' \<and> kept s s' \<and> reply s' p = Some (SEND_HEADER, code_byte code, data)"

lemma answeredD: "answered p code data s s' \<Longrightarrow> server_inv s'"
  by (simp add: answered_def)

lemma answer_reply:
  assumes h: "length (rs_header (c_out c)) = 8" and n: "n < 2 ^ 32" and k: "kept s s'"
    and c: "conn_of s' p = Inr c'" and o: "rs_header (c_out c') = rs_header (c_out (answer r dat n code c))"
    "sdata (c_out c') = dat" "c_state c' = SEND_HEADER"
  shows "reply s' p = Some (SEND_HEADER, code_byte code, buf_data s dat n)"
proof -
  have "rs_header (c_out c') ! 1 = code_byte code"
    unfolding o(1) using h nth_store32_other [of 1 4] by (simp add: answer_def resp_fields_def)
  moreover have "resp_len c' = n"
    using answer_len [OF h n, of r dat code] o(1) by (simp add: resp_len_def)
  ultimately show ?thesis using c o k by (simp add: reply_def buf_data_def kept_def)
qed

text \<open>The whole answer, with data of the connection's own.\<close>

lemma respond_ok:
  assumes r: "run p F c s" and q: "has_req s c rq" and cl: "client c" and h: "length (rs_header (c_out c)) = 8"
    and f: "holds s c \<Longrightarrow> req_blks s (c_in c) \<subseteq> F" and n: "n < 2 ^ 32"
    and dat: "dat = 0 \<and> n = 0 \<or> dat \<noteq> 0 \<and> dat \<in> F \<and> (\<exists>xs. sv_bufs s dat = Some xs \<and> n \<le> length xs) \<and>
      (holds s c \<longrightarrow> dat \<notin> req_blks s (c_in c))"
  shows "\<exists>s'. add_response e p dat n code s = Inr s' \<and> answered p code (buf_data s dat n) s s'"
proof -
  have rq: "req_ok s (c_in c) rq" using q by (simp add: has_req_def)
  let ?c = "answer rq dat n code c"
  obtain s' where s': "add_response e p dat n code s = Inr s'" "run p F (in_state SEND_HEADER ?c) s'" "kept s s'"
    by (rule add_response_ok [OF r rq])
  note k = keptD [OF s'(3)]
  have len: "resp_len ?c = n" by (rule answer_len [OF h n])
  have "out_ok s ?c" using dat len unfolding out_ok_def answer_simps by auto
  then have "sending s' (in_state SEND_HEADER ?c)" unfolding k(9) by (rule sending_header)
  moreover have "foot s ?c \<subseteq> F" unfolding foot_answer using dat f by auto
  ultimately have "server_inv s'"
    using q cl h by (intro sending_close [OF s'(2), of rq]) (simp_all add: k)
  moreover have "reply s' p = Some (SEND_HEADER, code_byte code, buf_data s dat n)"
    by (rule answer_reply [OF h n s'(3) run_conn [OF s'(2)]]) simp_all
  ultimately show ?thesis using s'(1,3) by (simp add: answered_def)
qed

lemma buf_data_0 [simp]: "buf_data s a 0 = []"
  by (simp add: buf_data_def split: option.split)

lemma send_response_ok:
  assumes "run p F c s" and "has_req s c rq" and "client c" and "length (rs_header (c_out c)) = 8"
    and "holds s c \<Longrightarrow> req_blks s (c_in c) \<subseteq> F"
  shows "\<exists>s'. send_response e p code s = Inr s' \<and> answered p code [] s s'"
  unfolding send_response_def using respond_ok [OF assms, of 0 0 e code] by simp

lemma refuse_full: "at_req p F c r s \<Longrightarrow> \<exists>s'. send_response e p code s = Inr s' \<and> answered p code [] s s'"
  by (rule send_response_ok [OF at_reqD(1,4,2,3,8)])

lemma refuse_ok: "at_req p F c r s \<Longrightarrow> \<exists>s'. send_response e p code s = Inr s' \<and> server_inv s'"
  using refuse_full answeredD by blast

subsection \<open>The next request\<close>

lemma run_event_set:
  assumes r: "run p F c s"
  shows "run p F c (snd (event_set e c ev s)) \<and> kept s (snd (event_set e c ev s))"
proof -
  obtain W where "snd (event_set e c ev s) = s\<lparr>sv_watch := W\<rparr>" using event_set_watch by blast
  then show ?thesis using run_misc(1) [OF r] by simp
qed

lemma fresh_blks: "sv_reqs s a = Some (fresh_request e a) \<Longrightarrow> req_blks s a = {a}"
  by (simp add: req_blks_def fresh_request_def)

lemma vals_live:
  assumes inv: "inv_x p F s"
  shows "vals s \<subseteq> slab_live (sv_mem s)"
proof
  fix v assume v: "v \<in> vals s"
  then show "v \<in> slab_live (sv_mem s)"
    using disj_famD(1) [OF inv_xD(5) [OF inv], of "O_val v"] req_blks_self by auto
qed

lemma ready_ok:
  assumes r: "run p F c s" and rel: "releasable s c" and f: "foot s c \<subseteq> F"
    and h: "length (rs_header (c_out c)) = 8" and cl: "client c"
  shows "\<exists>s'. set_conn_state e p READ_HEADER s = Inr s' \<and> server_inv s'"
proof -
  obtain s1 s2 F2 c2 where 2: "free_request p s = Inr s1" "free_response p s1 = Inr s2" "run p F2 c2 s2"
    "sv_cache s2 = sv_cache s" "\<not> holds s2 c2" "c2 = no_data c \<or> c2 = no_data (c\<lparr>c_in := 0\<rparr>)"
    by (rule release_ok [OF r rel f])
  have c2: "client c2" "length (rs_header (c_out c2)) = 8" "sdata (c_out c2) = 0"
    using 2(6) h cl by (auto simp: no_data_def client_def)
  show ?thesis
    using 2(3)
  proof (cases rule: run_malloc [where e = e and n = sizeof_request])
    case none
    let ?f = "\<lambda>c. c\<lparr>c_in := 0\<rparr>"
    have i: "init_resources e p s = Inr (False, upd_conn p ?f s2)"
      using 2(1,2) none by (simp add: init_resources_def)
    have "run p F2 (?f c2) (upd_conn p ?f s2)" by (rule run_upd_conn [OF 2(3)]) simp
    moreover have "releasable (upd_conn p ?f s2) (?f c2)" by (simp add: releasable_def holds_def)
    moreover have "foot (upd_conn p ?f s2) (?f c2) \<subseteq> F2" using c2(3) by (simp add: foot_def holds_def out_blks_def)
    ultimately obtain s' where "disconnect_conn e p (upd_conn p ?f s2) = Inr s'" "server_inv s'"
      using disconnect_ok [of p F2 "?f c2" "upd_conn p ?f s2" e] c2(2) by auto
    with i show ?thesis by (simp add: set_conn_state_def)
  next
    case (some a m)
    let ?q = "fresh_request e a"
    let ?s3 = "s2\<lparr>sv_mem := m, sv_reqs := (sv_reqs s2)(a := Some ?q)\<rparr>"
    let ?f = "\<lambda>c. c\<lparr>c_in := a, c_out := (c_out c)\<lparr>sdata := 0, sbytes := 0, rs_can_free := True\<rparr>\<rparr>"
    have i: "init_resources e p s = Inr (True, upd_conn p ?f ?s3)"
      using 2(1,2) some(1,2) by (simp add: init_resources_def)
    have r3: "run p (insert a F2) c2 ?s3" using run_reqs(1) [OF some(4), of a "Some ?q"] by simp
    have r4: "run p (insert a F2) (?f c2) (upd_conn p ?f ?s3)" by (rule run_upd_conn [OF r3]) simp
    note r5 = run_event_set [OF r4, of e EVENT_READ]
    obtain s' where s': "set_state_plain e p READ_HEADER (snd (event_set e (?f c2) EVENT_READ (upd_conn p ?f ?s3))) = Inr s'"
      "run p (insert a F2) (in_state READ_HEADER (?f c2)) s'"
      "kept (snd (event_set e (?f c2) EVENT_READ (upd_conn p ?f ?s3))) s'"
      by (rule set_state_plain_ok [OF conjunct1 [OF r5]])
    have k: "kept ?s3 s'" using conjunct2 [OF r5] s'(3) by (simp add: kept_def)
    have "set_conn_state e p READ_HEADER s = Inr s'"
      using i run_conn [OF r4] s'(1) by (simp add: set_conn_state_def)
    moreover have "server_inv s'"
    proof (rule reading_close)
      have rq: "sv_reqs s' a = Some ?q" using k by (simp add: kept_def)
      have ok: "req_ok s' a ?q" using rq some(2) by (simp add: req_ok_def fresh_request_def sizeof_req_header_def)
      have "a \<notin> vals s2" using vals_live [OF run_inv [OF 2(3)]] some(3) by blast
      then have v: "a \<notin> vals s'" using keptD(1) [OF k] vals_cong [of s2 ?s3] by simp
      show "at_req p (insert a F2) (in_state READ_HEADER (?f c2)) ?q s'"
        unfolding at_req_def using s'(2) ok v c2 fresh_blks [OF rq]
        by (simp add: has_req_def client_def fresh_request_def)
      show "reading s' (in_state READ_HEADER (?f c2)) ?q"
        by (simp add: reading_def fresh_request_def)
    qed
    ultimately show ?thesis by blast
  qed
qed

subsection \<open>Buffers\<close>

lemma buf_ok_other: "buf_ok s x n \<Longrightarrow> x \<noteq> a \<Longrightarrow> sv_bufs s' = (sv_bufs s)(a := y) \<Longrightarrow> buf_ok s' x n"
  by (simp add: buf_ok_def)

text \<open>A buffer for the next part, when there is memory for it.\<close>

lemma take_buffer_step:
  assumes at: "at_req p F c r s" and n: "n = len (rq_header r)" "n + 1 < 2 ^ 32" and st: "st \<noteq> SEND_HEADER"
    and flag: "\<And>a. rq_can_free (setp a r) = rq_can_free r"
    and bl: "\<And>a. {rkey (setp a r), rdata (setp a r), rextra (setp a r)} \<subseteq> insert a {rkey r, rdata r, rextra r}"
    and req: "\<And>a s'. a \<noteq> 0 \<Longrightarrow> a \<notin> req_blks s (c_in c) \<Longrightarrow> sv_reqs s' (c_in c) = Some (setp a r) \<Longrightarrow>
      buf_ok s' a n \<Longrightarrow> (\<And>x. x \<noteq> a \<Longrightarrow> sv_bufs s' x = sv_bufs s x) \<Longrightarrow> req_ok s' (c_in c) (setp a r)"
  obtains (none) "s_malloc e (n + 1) s = Inr (0, s)"
  | (some) a m s' xs where "s_malloc e (n + 1) s = Inr (a, s\<lparr>sv_mem := m\<rparr>)" and "take_buffer e p st len setp s = Inr s'"
    and "a \<noteq> 0" and "a \<notin> slab_live (sv_mem s)" and "at_req p (insert a F) (in_state st c) (setp a r) s'"
    and "sv_bufs s' = (sv_bufs s)(a := Some xs)" and "length xs = Suc n" and "xs ! n = 0"
    and "sv_reqs s' = (sv_reqs s)(c_in c := Some (setp a r))" and "sv_mem s' = m" and "sv_cache s' = sv_cache s"
    and "sv_sent s' = sv_sent s" and "conns_upd p s s'"
proof -
  note a = at_reqD [OF at]
  have rq: "req_of s (c_in c) = Inr r" by (rule req_ok_of [OF a(9)])
  have q: "sv_reqs s (c_in c) = Some r" using a(9) by (simp add: req_ok_def)
  show thesis
    using a(1)
  proof (cases rule: run_malloc [where e = e and n = "n + 1"])
    case none
    then show thesis by (rule that(1))
  next
    case (some b m)
    let ?j = "map (e_junk e b) [0..<n + 1]"
    let ?s1 = "s\<lparr>sv_mem := m, sv_bufs := (sv_bufs s)(b := Some ?j)\<rparr>"
    let ?s2 = "upd_req (c_in c) (setp b) ?s1"
    let ?s3 = "?s2\<lparr>sv_bufs := (sv_bufs ?s2)(b := Some (?j[n := 0]))\<rparr>"
    let ?s' = "upd_conn p (\<lambda>c. c\<lparr>c_state := st\<rparr>) ?s3"
    have nF: "b \<notin> F" using run_live [OF a(1)] some(3) by blast
    have r1: "run p (insert b F) c ?s1" using run_bufs [OF some(4), of b] by simp
    have r2: "run p (insert b F) c ?s2" by (rule run_reqs(2) [OF r1]) (use a(12) in simp)
    have r3: "run p (insert b F) c ?s3" by (rule run_bufs [OF r2]) simp
    have plain: "set_state_plain e p st ?s3 = Inr ?s'" using st by (simp add: set_state_plain_def)
    obtain s' where s': "set_state_plain e p st ?s3 = Inr s'" "run p (insert b F) (in_state st c) s'" "kept ?s3 s'"
      by (rule set_state_plain_ok [OF r3])
    then have eq: "s' = ?s'" using plain by simp
    have "poke b n 0 ?s2 = Inr ?s3" using some(2) by (simp add: poke_def)
    then have take: "take_buffer e p st len setp s = Inr s'"
      using run_conn [OF a(1)] rq some(1,2) n s'(1) by (simp add: take_buffer_def new_buf_def)
    have reqs: "sv_reqs s' = (sv_reqs s)(c_in c := Some (setp b r))" using q by (simp add: eq upd_req_def)
    have l: "length (?j[n := 0]) = Suc n" "?j[n := 0] ! n = 0" by simp_all
    have bufs: "sv_bufs s' = (sv_bufs s)(b := Some (?j[n := 0]))" by (simp add: eq del: upt_Suc)
    have ok: "req_ok s' (c_in c) (setp b r)"
    proof (rule req [OF some(2)])
      show "b \<notin> req_blks s (c_in c)" using a(8) nF by blast
      show "buf_ok s' b n" using l by (simp add: buf_ok_def bufs)
    qed (simp_all add: reqs bufs)
    have v: "vals s' = vals s" using s'(3) by (intro vals_cong) (simp add: kept_def)
    have "req_blks s' (c_in c) \<subseteq> insert b (req_blks s (c_in c))" using bl [of b] reqs q by (auto simp: req_blks_def)
    then have "req_blks s' (c_in c) \<subseteq> insert b F" using a(8) by blast
    then have "at_req p (insert b F) (in_state st c) (setp b r) s'"
      unfolding at_req_def using s'(2) ok a v flag by (simp add: has_req_def)
    moreover have "conns_upd p ?s3 ?s'" by (rule conns_upd_upd_conn) simp
    then have "conns_upd p s s'" by (simp add: eq conns_upd_def)
    ultimately show thesis
      using that(2) [OF some(1) take some(2,3) _ bufs l reqs] by (simp add: eq upd_req_def)
  qed
qed

lemma take_buffer_ok:
  assumes at: "at_req p F c r s" and n: "n = len (rq_header r)" "n + 1 < 2 ^ 32" and st: "st \<noteq> SEND_HEADER"
    and null: "setp 0 r = r" and flag: "\<And>a. rq_can_free (setp a r) = rq_can_free r"
    and bl: "\<And>a. {rkey (setp a r), rdata (setp a r), rextra (setp a r)} \<subseteq> insert a {rkey r, rdata r, rextra r}"
    and setp: "\<And>a s'. a \<noteq> 0 \<Longrightarrow> a \<notin> req_blks s (c_in c) \<Longrightarrow> sv_reqs s' (c_in c) = Some (setp a r) \<Longrightarrow>
      buf_ok s' a n \<Longrightarrow> (\<And>x. x \<noteq> a \<Longrightarrow> sv_bufs s' x = sv_bufs s x) \<Longrightarrow>
      req_ok s' (c_in c) (setp a r) \<and> reading s' (in_state st c) (setp a r)"
  shows "\<exists>s'. take_buffer e p st len setp s = Inr s' \<and> server_inv s'"
proof -
  note a = at_reqD [OF at]
  have q: "sv_reqs s (c_in c) = Some r" using a(9) by (simp add: req_ok_def)
  show ?thesis
  proof (rule take_buffer_step [where e = e and setp = setp and len = len, OF at n st flag bl])
    show "req_ok s' (c_in c) (setp b r)" if "b \<noteq> 0" "b \<notin> req_blks s (c_in c)" "sv_reqs s' (c_in c) = Some (setp b r)"
      "buf_ok s' b n" "\<And>x. x \<noteq> b \<Longrightarrow> sv_bufs s' x = sv_bufs s x" for b s'
      using setp [OF that] by blast
  next
    assume none: "s_malloc e (n + 1) s = Inr (0, s)"
    have "upd_req (c_in c) (setp 0) s = s" using null q by (simp add: upd_req_def fun_upd_idem)
    then have "take_buffer e p st len setp s = send_response e p OUT_OF_MEMORY s"
      using run_conn [OF a(1)] req_ok_of [OF a(9)] none n by (simp add: take_buffer_def new_buf_def)
    then show ?thesis using refuse_ok [OF at] by simp
  next
    fix b m s' xs
    assume s': "take_buffer e p st len setp s = Inr s'" "b \<noteq> 0" "b \<notin> slab_live (sv_mem s)"
      "at_req p (insert b F) (in_state st c) (setp b r) s'" "sv_bufs s' = (sv_bufs s)(b := Some xs)"
      "length xs = Suc n" "xs ! n = 0" "sv_reqs s' = (sv_reqs s)(c_in c := Some (setp b r))"
    have "b \<notin> req_blks s (c_in c)" using a(8) run_live [OF a(1)] s'(3) by blast
    then have "reading s' (in_state st c) (setp b r)"
      using setp [OF s'(2), of s'] s'(5-8) by (simp add: buf_ok_def)
    then show ?thesis using reading_close [OF s'(4)] s'(1) by blast
  qed
qed

end
