(* ===== verification/Server_Read.thy ===== *)
theory Server_Read
  imports Server_Respond
begin

text \<open>
  Reading one byte of a request keeps the invariant: \<open>read_nbytes\<close> into the header or a
  buffer, and the changes of state at the end of a part.
\<close>

subsection \<open>Changes of the request in hand\<close>

lemma req_ok_ptrs:
  assumes ok: "req_ok s q r" and r: "sv_reqs s' q = Some r'"
    and ptrs: "rkey r' = rkey r" "rdata r' = rdata r" "rextra r' = rextra r"
    and hdr: "rq_header r' = rq_header r \<or>
      length (rq_header r') = 12 \<and> rkey r = 0 \<and> rdata r = 0 \<and> rextra r = 0"
    and b: "sv_bufs s' = sv_bufs s"
  shows "req_ok s' q r'"
proof -
  have bo: "buf_ok s' = buf_ok s" by (simp add: fun_eq_iff buf_ok_def b)
  from hdr show ?thesis
  proof
    assume h: "rq_header r' = rq_header r"
    show ?thesis using ok unfolding req_ok_def ptrs bo h by (simp add: r)
  next
    assume h: "length (rq_header r') = 12 \<and> rkey r = 0 \<and> rdata r = 0 \<and> rextra r = 0"
    then show ?thesis using ok by (simp add: req_ok_def ptrs r)
  qed
qed

lemma at_req_upd:
  assumes at: "at_req p F c r s"
    and ptrs: "rkey (f r) = rkey r" "rdata (f r) = rdata r" "rextra (f r) = rextra r" "rq_can_free (f r) = rq_can_free r"
    and hdr: "rq_header (f r) = rq_header r \<or>
      length (rq_header (f r)) = 12 \<and> rkey r = 0 \<and> rdata r = 0 \<and> rextra r = 0"
  shows "at_req p F c (f r) (upd_req (c_in c) f s)"
proof -
  note a = at_reqD [OF at]
  have q: "sv_reqs s (c_in c) = Some r" using a(9) by (simp add: req_ok_def)
  have "req_ok (upd_req (c_in c) f s) (c_in c) (f r)"
    by (rule req_ok_ptrs [OF a(9) _ ptrs(1-3) hdr]) (simp_all add: q)
  moreover have "vals (upd_req (c_in c) f s) = vals s" by (intro vals_cong) simp
  moreover have "req_blks (upd_req (c_in c) f s) (c_in c) = req_blks s (c_in c)"
    using q ptrs by (simp add: req_blks_def)
  ultimately show ?thesis
    unfolding at_req_def using run_reqs(2) [OF a(1,12)] a ptrs(4) by (simp add: has_req_def)
qed

lemma at_req_stats: "at_req p F c r s \<Longrightarrow> at_req p F c r (upd_stats g s)"
  using run_misc(5) [of p F c s g] keptD [of s "upd_stats g s"] by (simp add: at_req_def has_req_def)

text \<open>A byte of the key, the data or the extra data, before the closing 0.\<close>

lemma at_req_store:
  assumes at: "at_req p F c r s" and a: "a \<in> {rkey r, rdata r, rextra r}" "a \<noteq> 0"
    and xs: "sv_bufs s a = Some xs" "i + 1 < length xs"
  shows "at_req p F c r (s\<lparr>sv_bufs := (sv_bufs s)(a := Some (xs[i := b]))\<rparr>)" (is "at_req p F c r ?s")
proof -
  note d = at_reqD [OF at]
  have q: "sv_reqs s (c_in c) = Some r" using d(9) by (simp add: req_ok_def)
  have "a \<in> req_blks s (c_in c)" using a q by (auto simp: req_blks_def)
  then have aF: "a \<in> F" using d(8) by blast
  have b: "buf_ok ?s x n" if "buf_ok s x n" for x n
    using that xs by (cases "x = a") (auto simp: buf_ok_def nth_list_update)
  have rq: "req_ok ?s (c_in c) r" using d(9) by (simp add: req_ok_def b)
  have v: "vals ?s = vals s" by (rule vals_cong) simp
  have "req_blks ?s (c_in c) = req_blks s (c_in c)" by (simp add: req_blks_def)
  then show ?thesis
    unfolding at_req_def using run_bufs [OF d(1) aF, of "Some (xs[i := b])"] rq v d
    by (simp add: has_req_def)
qed

definition read_on :: "nat \<Rightarrow> request \<Rightarrow> request" where
  "read_on tot r = r\<lparr>rbytes := (if rbytes r + 1 = tot then 0 else rbytes r + 1)\<rparr>"

lemma read_on_simps [simp]:
  "rkey (read_on tot r) = rkey r" "rdata (read_on tot r) = rdata r" "rextra (read_on tot r) = rextra r"
  "rq_header (read_on tot r) = rq_header r" "rq_can_free (read_on tot r) = rq_can_free r"
  by (simp_all add: read_on_def)

abbreviation read_code :: "nat \<Rightarrow> request \<Rightarrow> socket_state" where
  "read_code tot r \<equiv> (if rbytes r + 1 = tot then READ_COMPLETED else NEED_MORE)"

text \<open>What a step that reads into a request leaves alone.\<close>

definition reads_only :: "ptr \<Rightarrow> server \<Rightarrow> server \<Rightarrow> bool" where
  "reads_only q s s' \<longleftrightarrow> sv_cache s' = sv_cache s \<and> sv_mem s' = sv_mem s \<and> sv_sent s' = sv_sent s \<and>
     (\<forall>x. x \<noteq> q \<longrightarrow> sv_reqs s' x = sv_reqs s x)"

lemma reads_only_trans: "reads_only q s s' \<Longrightarrow> reads_only q s' s'' \<Longrightarrow> reads_only q s s''"
  by (simp add: reads_only_def)

lemma reads_only_simps [simp]:
  "reads_only q s s" "reads_only q s (upd_req q f s')  = reads_only q s s'"
  "reads_only q s (upd_stats g s') = reads_only q s s'" "reads_only q s (s'\<lparr>sv_bufs := b\<rparr>) = reads_only q s s'"
  by (simp_all add: reads_only_def upd_req_def upd_stats_def)

lemma count_read_ok:
  assumes at: "at_req p F c r s" and n: "rbytes r < tot" "tot < 2 ^ 32"
  shows "\<exists>s'. count_read (c_in c) tot False s = Inr (read_code tot r, s') \<and> at_req p F c (read_on tot r) s' \<and>
    sv_bufs s' = sv_bufs s \<and> sv_conns s' = sv_conns s \<and> reads_only (c_in c) s s'"
proof -
  let ?s1 = "upd_stats (\<lambda>t. t\<lparr>bytes_read := u64 (bytes_read t + 1)\<rparr>) s"
  let ?f = "\<lambda>r. r\<lparr>rbytes := u32 (rbytes r + 1)\<rparr>" and ?g = "\<lambda>r. r\<lparr>rbytes := 0\<rparr>"
  let ?s2 = "upd_req (c_in c) ?f ?s1"
  have a2: "at_req p F c (?f r) ?s2" by (rule at_req_upd [OF at_req_stats [OF at]]) simp_all
  have q: "req_of ?s2 (c_in c) = Inr (?f r)" by (rule req_ok_of [OF at_reqD(9) [OF a2]])
  have u: "u32 (rbytes r + 1) = rbytes r + 1" using n by simp
  show ?thesis
  proof (cases "rbytes r + 1 = tot")
    case True
    have "at_req p F c (?g (?f r)) (upd_req (c_in c) ?g ?s2)" by (rule at_req_upd [OF a2]) simp_all
    moreover have "?g (?f r) = read_on tot r" using True by (simp add: read_on_def)
    ultimately show ?thesis using True q u by (simp add: count_read_def)
  next
    case False
    have "?f r = read_on tot r" using False u by (simp add: read_on_def)
    then have "at_req p F c (read_on tot r) ?s2" using a2 by simp
    moreover have "count_read (c_in c) tot False s = Inr (NEED_MORE, ?s2)"
      using False q u by (simp add: count_read_def)
    ultimately show ?thesis using False by auto
  qed
qed

lemma read_header_byte:
  assumes at: "at_req p F c r s" and z: "rkey r = 0" "rdata r = 0" "rextra r = 0" and n: "rbytes r < 12"
    and b: "e_rd e = Rd_byte b"
  shows "\<exists>s'. read_nbytes e p To_header sizeof_req_header s = Inr (read_code 12 r, s') \<and>
    at_req p F c (read_on 12 (r\<lparr>rq_header := (rq_header r)[rbytes r := b]\<rparr>)) s' \<and> sv_conns s' = sv_conns s \<and>
    sv_bufs s' = sv_bufs s \<and> reads_only (c_in c) s s'"
proof -
  note a = at_reqD [OF at]
  let ?f = "\<lambda>r. r\<lparr>rq_header := (rq_header r)[rbytes r := b]\<rparr>"
  have "length (rq_header r) = 12" using a(9) by (simp add: req_ok_def)
  then have a1: "at_req p F c (?f r) (upd_req (c_in c) ?f s)" using z by (intro at_req_upd [OF at]) simp_all
  have rn: "read_nbytes e p To_header sizeof_req_header s = count_read (c_in c) 12 False (upd_req (c_in c) ?f s)"
    using run_conn [OF a(1)] req_ok_of [OF a(9)] b n
    by (simp add: read_nbytes_def store_byte_def sizeof_req_header_def)
  obtain s' where s': "count_read (c_in c) 12 False (upd_req (c_in c) ?f s) = Inr (read_code 12 (?f r), s')"
    "at_req p F c (read_on 12 (?f r)) s'" "sv_bufs s' = sv_bufs (upd_req (c_in c) ?f s)"
    "sv_conns s' = sv_conns (upd_req (c_in c) ?f s)" "reads_only (c_in c) (upd_req (c_in c) ?f s) s'"
    using count_read_ok [OF a1, of 12] n by auto
  have "reads_only (c_in c) s (upd_req (c_in c) ?f s)" by simp
  then have "reads_only (c_in c) s s'" using s'(5) by (rule reads_only_trans)
  then show ?thesis unfolding rn using s' by simp
qed

lemma read_buf_byte:
  assumes at: "at_req p F c r s" and x: "x \<in> {rkey r, rdata r, rextra r}" "x \<noteq> 0" "buf_ok s x tot"
    and n: "rbytes r < tot" "tot < 2 ^ 32" and b: "e_rd e = Rd_byte b"
  shows "\<exists>s' xs. sv_bufs s x = Some xs \<and> read_nbytes e p (To_buf x) tot s = Inr (read_code tot r, s') \<and>
    at_req p F c (read_on tot r) s' \<and> sv_bufs s' = (sv_bufs s)(x := Some (xs[rbytes r := b])) \<and> sv_conns s' = sv_conns s \<and>
    reads_only (c_in c) s s'"
proof -
  note a = at_reqD [OF at]
  obtain xs where xs: "sv_bufs s x = Some xs" "length xs = Suc tot" using x(3) by (auto simp: buf_ok_def)
  let ?s1 = "s\<lparr>sv_bufs := (sv_bufs s)(x := Some (xs[rbytes r := b]))\<rparr>"
  have a1: "at_req p F c r ?s1" by (rule at_req_store [OF at x(1,2) xs(1)]) (use xs(2) n in simp)
  have rn: "read_nbytes e p (To_buf x) tot s = count_read (c_in c) tot False ?s1"
    using run_conn [OF a(1)] req_ok_of [OF a(9)] b n x(2) xs
    by (simp add: read_nbytes_def store_byte_def poke_def)
  obtain s' where s': "count_read (c_in c) tot False ?s1 = Inr (read_code tot r, s')" "at_req p F c (read_on tot r) s'"
    "sv_bufs s' = sv_bufs ?s1" "sv_conns s' = sv_conns ?s1" "reads_only (c_in c) ?s1 s'"
    using count_read_ok [OF a1 n] by blast
  have "reads_only (c_in c) s ?s1" by simp
  then have "reads_only (c_in c) s s'" using s'(5) by (rule reads_only_trans)
  then show ?thesis unfolding rn using s' xs(1) by simp
qed

end
