(* ===== verification/Server_Cache.thy ===== *)
theory Server_Cache
  imports Server_Read
begin

text \<open>
  Steps that change the cache: a value is dropped, replaced or added while no other connection
  is sending. A connection that sends may point into a cached request; \<open>calm\<close> excludes it.
\<close>

definition calm :: "ptr \<Rightarrow> server \<Rightarrow> bool" where
  "calm p s \<longleftrightarrow> (\<forall>d \<in> set (sv_conns s). client d \<and> c_addr d \<noteq> p \<longrightarrow> c_state d \<noteq> SEND_HEADER \<and> c_state d \<noteq> SEND_DATA)"

lemma calm_conn:
  assumes "calm p s" and "d \<in> set (sv_conns s)" and "c_addr d \<noteq> p" and "client d" and "conn_ok s d"
  shows "\<exists>r. has_req s d r \<and> c_in d \<notin> vals s \<and> sdata (c_out d) = 0 \<and> rs_can_free (c_out d) \<and> reading s d r"
  using assms by (auto simp: calm_def conn_ok_def sending_def)

lemma calm_upd:
  assumes "calm p s" and "conns_upd p s s'"
  shows "calm p s'"
  using assms by (auto simp: calm_def conns_upd_def)

subsection \<open>Everybody else\<close>

definition others :: "ptr \<Rightarrow> ptr set \<Rightarrow> server \<Rightarrow> owner set" where
  "others p V s = O_conn ` addrs s \<union> O_foot ` (addrs s - {p}) \<union> O_val ` V"

definition rest :: "ptr \<Rightarrow> ptr set \<Rightarrow> ptr set \<Rightarrow> server \<Rightarrow> ptr set" where
  "rest p F V s = (\<Union>i \<in> others p V s. blk p F s i)"

lemma rest_blk: "i \<in> others p V s \<Longrightarrow> blk p F s i \<subseteq> rest p F V s"
  by (auto simp: rest_def)

lemma others_iffs [simp]:
  "O_tab \<notin> others p V s" "O_foot p \<notin> others p V s" "O_val v \<in> others p V s \<longleftrightarrow> v \<in> V"
  "O_conn q \<in> others p V s \<longleftrightarrow> q \<in> addrs s" "O_foot q \<in> others p V s \<longleftrightarrow> q \<in> addrs s \<and> q \<noteq> p"
  by (auto simp: others_def)

lemma others_owners: "V \<subseteq> vals s \<Longrightarrow> others p V s \<subseteq> owners s"
  by (auto simp: others_def owners_def)

lemma rest_apart:
  assumes inv: "inv_x p F s" and V: "V \<subseteq> vals s" and i: "i \<in> owners s" "i \<notin> others p V s"
  shows "blk p F s i \<inter> rest p F V s = {}"
proof -
  have "blk p F s i \<inter> blk p F s j = {}" if "j \<in> others p V s" for j
    using disj_famD(2) [OF inv_xD(5) [OF inv] i(1), of j] others_owners [OF V] that i(2) by blast
  then show ?thesis by (auto simp: rest_def)
qed

lemma rest_live:
  assumes inv: "inv_x p F s" and V: "V \<subseteq> vals s"
  shows "rest p F V s \<subseteq> slab_live (sv_mem s)"
  unfolding rest_def using disj_famD(1) [OF inv_xD(5) [OF inv]] others_owners [OF V, of p] by blast

lemma conn_at_mem: "q \<in> addrs s \<Longrightarrow> conn_at s q \<in> set (sv_conns s) \<and> c_addr (conn_at s q) = q"
proof (cases "find (\<lambda>c. c_addr c = q) (sv_conns s)")
  case None
  moreover assume "q \<in> addrs s"
  ultimately show ?thesis by (auto simp: find_None_iff addrs_def)
next
  case (Some c)
  then show ?thesis by (auto simp: conn_at_def elim: find_SomeE)
qed

subsection \<open>The frame of a cache step\<close>

lemma inv_cache_step:
  assumes inv: "inv_x p F s" and p: "p \<in> addrs s" and calm: "calm p s" and cu: "conns_upd p s s'"
    and V: "V \<subseteq> vals s" and v': "vals s' = V \<union> N" and N: "N \<subseteq> F"
    and tab: "htab_inv slab_inv slab_live (sv_cache s', sv_mem s')" "fvals (items (sv_cache s')) \<subseteq> {0}"
      "inj_on (hview (sv_cache s')) (dom (hview (sv_cache s')))"
    and same: "same_on (rest p F V s) s s'" and live: "rest p F V s \<subseteq> slab_live (sv_mem s')"
    and X: "disj_fam (insert O_tab (insert (O_foot p) (O_val ` N))) (blk p F' s') (slab_live (sv_mem s') - rest p F V s)"
    and cached: "\<And>v. v \<in> N \<Longrightarrow> cached_ok s' v"
  shows "inv_x p F' s'"
proof -
  let ?K = "others p V s" and ?X = "insert O_tab (insert (O_foot p) (O_val ` N))" and ?R = "rest p F V s"
  note i = inv_xD [OF inv]
  have FR: "F \<inter> ?R = {}" using rest_apart [OF inv V, of "O_foot p"] p by simp
  have ad: "addrs s' = addrs s" using conns_upd_addrs [OF cu] by (metis addrs_def image_set)
  have other: "c_in d \<notin> vals s' \<and> req_blks s (c_in d) \<subseteq> ?R \<and> holds s' d = holds s d"
    if d: "d \<in> set (sv_conns s)" "c_addr d \<noteq> p" "client d" for d
  proof -
    obtain r where r: "has_req s d r" "c_in d \<notin> vals s" using calm_conn [OF calm d i(7) [OF d(1,2)]] by blast
    then have nz: "c_in d \<noteq> 0" by (simp add: has_req_def req_ok_def)
    then have h: "holds s d" using d(3) r(2) by (simp add: holds_def)
    have q: "conn_of s (c_addr d) = Inr d" by (rule conn_of_mem [OF i(4) d(1)])
    have "foot s d \<subseteq> ?R"
      using rest_blk [of "O_foot (c_addr d)" p V s F] conn_ofD(3,4) [OF q] d(2) by simp
    then have b: "req_blks s (c_in d) \<subseteq> ?R" using h by (simp add: foot_def)
    then have "c_in d \<notin> F" using FR req_blks_self by blast
    then have "c_in d \<notin> vals s'" using r(2) V N v' by blast
    then show ?thesis using b h d(3) nz by (simp add: holds_def)
  qed
  have blks: "blk p F' s' j = blk p F s j" if j: "j \<in> ?K" for j
  proof (cases j)
    case (O_foot q)
    let ?d = "conn_at s q"
    have q: "q \<noteq> p" "q \<in> addrs s" using j O_foot by auto
    note d = conn_at_mem [OF q(2)]
    have "foot s' ?d = foot s ?d"
    proof (cases "client ?d")
      case True
      have o: "req_blks s (c_in ?d) \<subseteq> ?R" "holds s' ?d = holds s ?d" using other [of ?d] d q(1) True by simp_all
      have "c_in ?d \<in> ?R" using o(1) req_blks_self by blast
      then have "req_blks s' (c_in ?d) = req_blks s (c_in ?d)" by (rule req_blks_same [OF same])
      then show ?thesis using o(2) by (simp add: foot_def)
    qed (simp add: foot_def holds_def)
    then show ?thesis using q(1) conns_upd_other [OF cu q(1)] by (simp add: O_foot)
  next
    case (O_val v)
    then have "v \<in> ?R" using rest_blk [OF j, of F] req_blks_self by auto
    then show ?thesis using req_blks_same [OF same] by (simp add: O_val)
  qed (use j in auto)
  have o: "owners s' = ?K \<union> ?X" using p by (auto simp: owners_def others_def v' ad)
  have "disj_fam (?K \<union> ?X) (blk p F' s') (slab_live (sv_mem s'))"
  proof (rule disj_fam_change [OF i(5) others_owners [OF V] blks])
    show "blk p F s j \<subseteq> slab_live (sv_mem s')" if "j \<in> ?K" for j using rest_blk [OF that] live by blast
    show "disj_fam ?X (blk p F' s') (slab_live (sv_mem s'))" using X unfolding disj_fam_def by blast
    show "blk p F' s' x \<inter> blk p F s j = {}" if "x \<in> ?X" "j \<in> ?K" for x j
      using disj_famD(1) [OF X that(1)] rest_blk [OF that(2), of F] by blast
  qed
  then have sep': "sep p F' s'" by (simp add: sep_def o)
  have cv: "cached_ok s' v" if "v \<in> vals s'" for v
  proof (cases "v \<in> N")
    case False
    then have v: "v \<in> V" using that v' by blast
    then have "req_blks s v \<subseteq> ?R" using rest_blk [of "O_val v" p V s F] by simp
    then show ?thesis using cached_ok_same [OF i(6) same] V v by blast
  qed (rule cached)
  have conns: "conn_ok s' d" if d: "d \<in> set (sv_conns s')" "c_addr d \<noteq> p" for d
  proof -
    have m: "d \<in> set (sv_conns s)" using d cu by (auto simp: conns_upd_def split: if_splits)
    note ok = i(7) [OF m d(2)]
    show ?thesis
    proof (cases "client d")
      case False
      with ok show ?thesis by (simp add: conn_ok_def)
    next
      case True
      obtain r where r: "has_req s d r" "c_in d \<notin> vals s" "sdata (c_out d) = 0" "rs_can_free (c_out d)" "reading s d r"
        using calm_conn [OF calm m d(2) True ok] by blast
      note ot = other [OF m d(2) True]
      have q: "req_ok s (c_in d) r" "rq_can_free r" using r(1,2) by (simp_all add: has_req_def)
      have "req_ok s' (c_in d) r" "reading s' d r"
        using req_ok_same [OF q(1) same] reading_same [OF r(5) q(1) same] ot by blast+
      then have "has_req s' d r \<and> c_in d \<notin> vals s' \<and> sdata (c_out d) = 0 \<and> rs_can_free (c_out d) \<and> reading s' d r"
        using ot r(3,4) q(2) by (simp add: has_req_def)
      then show ?thesis using ok True by (auto simp: conn_ok_def)
    qed
  qed
  show ?thesis
    unfolding inv_x_def using tab sep' cv conns i(4) conns_upd_addrs [OF cu] by simp
qed

subsection \<open>Dropping a value\<close>

lemma ran_del: "inj_on f (dom f) \<Longrightarrow> f k = Some v \<Longrightarrow> ran (f(k := None)) = ran f - {v}"
  by (auto simp: ran_def inj_on_def dom_def) (metis option.inject)

lemma inj_del: "inj_on f (dom f) \<Longrightarrow> inj_on (f(k := None)) (dom (f(k := None)))"
  by (auto simp: inj_on_def dom_def)

lemma inj_put: "inj_on f (dom f) \<Longrightarrow> v \<notin> ran f \<Longrightarrow> inj_on (f(k \<mapsto> v)) (dom (f(k \<mapsto> v)))"
  by (auto simp: inj_on_def dom_def ran_def)

lemma ran_put: "inj_on f (dom f) \<Longrightarrow> ran (f(k \<mapsto> v)) = insert v (ran (f(k := None)))"
  by (auto simp: ran_def)

lemma find_vals: "find (hit k) (items (sv_cache s)) = Some it \<Longrightarrow> hi_val it \<in> vals s"
  using find_view [of k "sv_cache s" it] by (auto simp: vals_def ran_def)

lemma val_live:
  assumes inv: "inv_x p F s" and v: "v \<in> vals s"
  shows "req_blks s v \<subseteq> slab_live (sv_mem s)"
  using disj_famD(1) [OF inv_xD(5) [OF inv], of "O_val v"] v by simp

lemma del_ok:
  assumes inv: "inv_x p F s" and f: "find (hit k) (items (sv_cache s)) = Some it"
  obtains m W where "del_cached_req it s = Inr ((wipe W m s)\<lparr>sv_cache := set_val 0 it (sv_cache s)\<rparr>)"
    and "slab_inv m" and "slab_live m = slab_live (sv_mem s) - req_blks s (hi_val it)"
    and "W - {0} = req_blks s (hi_val it)"
proof -
  have v: "hi_val it \<in> vals s" by (rule find_vals [OF f])
  obtain r where r: "req_ok s (hi_val it) r" using inv_xD(6) [OF inv v] by (auto simp: cached_ok_def)
  then have nz: "hi_val it \<noteq> 0" by (simp add: req_ok_def)
  let ?W = "{rkey r, rdata r, rextra r, hi_val it}"
  note m0 = free_req_blocks_ok [OF inv_xD(8) [OF inv] r val_live [OF inv v]]
  obtain m where m: "free_req_blocks (hi_val it) r s = Inr (wipe ?W m s)" "slab_inv m"
    "slab_live m = slab_live (sv_mem s) - ?W"
    using m0 by blast
  have W: "?W - {0} = req_blks s (hi_val it)" unfolding req_ok_in_blks [OF r] by (rule nonzero_parts [OF nz])
  have "slab_live (sv_mem s) - ?W = slab_live (sv_mem s) - (?W - {0})"
    by (rule without_null(4) [OF live_nonzero [OF inv_xD(8) [OF inv]]])
  then have "slab_live m = slab_live (sv_mem s) - req_blks s (hi_val it)" using m(3) W by simp
  moreover have "del_cached_req it s = Inr ((wipe ?W m s)\<lparr>sv_cache := set_val 0 it (sv_cache s)\<rparr>)"
    using m(1) nz req_ok_of [OF r] by (simp add: del_cached_req_def)
  ultimately show thesis using that m(2) W by blast
qed

subsection \<open>What the cache holds\<close>

text \<open>The data of a value, its timeout and the time it was received.\<close>

type_synonym entry = "byte list \<times> nat \<times> int"

definition val_content :: "server \<Rightarrow> ptr \<Rightarrow> entry option" where
  "val_content s v =
     (case sv_reqs s v of
        None \<Rightarrow> None
      | Some r \<Rightarrow>
          (case (sv_bufs s (rdata r), atoull (sv_bufs s (rextra r))) of
             (Some d, Inr (Some n)) \<Rightarrow> Some (take (data_length (rq_header r)) d, n, received r)
           | _ \<Rightarrow> None))"

definition content :: "server \<Rightarrow> byte list \<Rightarrow> entry option" where
  "content s k = (case hview (sv_cache s) k of None \<Rightarrow> None | Some v \<Rightarrow> val_content s v)"

lemma content_kept:
  assumes "kept s s'"
  shows "content s' = content s"
proof -
  have k: "sv_reqs s' = sv_reqs s" "sv_bufs s' = sv_bufs s" "sv_cache s' = sv_cache s"
    using assms by (simp_all add: kept_def)
  show ?thesis unfolding content_def [abs_def] val_content_def k by (rule refl)
qed

lemma val_content_ok:
  assumes "req_ok s v r" and "rdata r \<noteq> 0" and "sv_bufs s (rextra r) = Some xs" and "atoull (Some xs) = Inr (Some n)"
  shows "val_content s v = Some (buf_data s (rdata r) (data_length (rq_header r)), n, received r)"
  using assms by (auto simp: val_content_def req_ok_def buf_ok_def buf_data_def)

lemma val_content_same:
  assumes ok: "cached_ok s v" and same: "same_on B s s'" and sub: "req_blks s v \<subseteq> B"
  shows "val_content s' v = val_content s v"
proof -
  obtain r where r: "req_ok s v r" "rdata r \<noteq> 0" "rextra r \<noteq> 0" using ok by (auto simp: cached_ok_def)
  then have "{v, rdata r, rextra r} \<subseteq> B" using sub req_ok_in_blks [OF r(1)] by auto
  then show ?thesis using same_onD [OF same] r(1) by (simp add: val_content_def req_ok_def)
qed

lemma content_rest:
  assumes inv: "inv_x p F s" and hv: "hview (sv_cache s') k' = hview (sv_cache s) k'"
    and same: "same_on (rest p F V s) s s'" and V: "\<And>w. hview (sv_cache s) k' = Some w \<Longrightarrow> w \<in> V" "V \<subseteq> vals s"
  shows "content s' k' = content s k'"
proof (cases "hview (sv_cache s) k'")
  case None
  then show ?thesis using hv by (simp add: content_def)
next
  case (Some w)
  have w: "w \<in> V" by (rule V(1) [OF Some])
  have "cached_ok s w" using inv_xD(6) [OF inv] w V(2) by blast
  moreover have "req_blks s w \<subseteq> rest p F V s" using rest_blk [of "O_val w" p V s F] w by simp
  ultimately show ?thesis using val_content_same [OF _ same] Some hv by (simp add: content_def)
qed

lemma content_del:
  assumes inv: "inv_x p F s" and v: "hview (sv_cache s) k = Some v"
    and hv: "hview (sv_cache s') = (hview (sv_cache s))(k := None)" and same: "same_on (rest p F (vals s - {v}) s) s s'"
  shows "content s' = (content s)(k := None)"
proof
  fix k'
  show "content s' k' = ((content s)(k := None)) k'"
  proof (cases "k' = k")
    case True
    then show ?thesis using hv by (simp add: content_def)
  next
    case False
    have "w \<in> vals s - {v}" if "hview (sv_cache s) k' = Some w" for w
      using that v inv_xD(3) [OF inv] False by (auto simp: vals_def ran_def inj_on_def dom_def)
    then show ?thesis using content_rest [OF inv _ same] hv False by simp
  qed
qed

subsection \<open>Taking a value out\<close>

lemma wipe_same: "W - {0} = B \<Longrightarrow> 0 \<notin> A \<Longrightarrow> A \<inter> B = {} \<Longrightarrow> same_on A s (wipe W m s)"
  by (auto simp: same_on_def)

lemma drop_ok:
  assumes inv: "inv_x p F s" and p: "p \<in> addrs s" and calm: "calm p s"
    and f: "find (hit k) (items (sv_cache s)) = Some it"
  obtains s1 s2 where "del_cached_req it s = Inr s1" and "s2 = set_cache (hfree (sv_cache s1) it) s1"
    and "inv_x p F s2" and "sv_conns s2 = sv_conns s" and "vals s2 = vals s - {hi_val it}"
    and "same_on F s s2" and "sv_cache s2 = hfree (set_val 0 it (sv_cache s)) it"
    and "content s2 = (content s)(k := None)"
proof -
  note i = inv_xD [OF inv]
  let ?v = "hi_val it" and ?V = "vals s - {hi_val it}"
  have v: "?v \<in> vals s" by (rule find_vals [OF f])
  obtain m W where d: "del_cached_req it s = Inr ((wipe W m s)\<lparr>sv_cache := set_val 0 it (sv_cache s)\<rparr>)"
    "slab_inv m" "slab_live m = slab_live (sv_mem s) - req_blks s ?v" "W - {0} = req_blks s ?v"
    by (rule del_ok [OF inv f])
  let ?s1 = "(wipe W m s)\<lparr>sv_cache := set_val 0 it (sv_cache s)\<rparr>"
  let ?s2 = "set_cache (hfree (sv_cache ?s1) it) ?s1"
  note t = slab_alloc.delete_ok [OF i(1) f]
  have z: "0 \<notin> slab_live (sv_mem s)" by (rule live_nonzero [OF i(8)])
  have own: "O_val ?v \<in> owners s" "O_val ?v \<notin> others p ?V s" using v by simp_all
  have dis: "A \<inter> req_blks s ?v = {}" if "A = blk p F s j" "j \<in> owners s" "j \<noteq> O_val ?v" for A j
    using disj_famD(2) [OF i(5) that(2) own(1) that(3)] that(1) by simp
  have tb: "set (owned (sv_cache s)) \<inter> req_blks s ?v = {}" by (rule dis [of _ O_tab]) simp_all
  have fv: "F \<inter> req_blks s ?v = {}" by (rule dis [of _ "O_foot p"]) (simp_all add: p)
  have rv: "rest p F ?V s \<inter> req_blks s ?v = {}"
    using rest_apart [OF inv _ own] by (simp add: Int_commute)
  have Fl: "F \<subseteq> slab_live (sv_mem s)" by (rule own_live [OF inv p])
  have rl: "rest p F ?V s \<subseteq> slab_live (sv_mem s)" by (rule rest_live [OF inv]) blast
  have cache2: "sv_cache ?s2 = hfree (set_val 0 it (sv_cache s)) it" by simp
  have hv: "hview (sv_cache s) k = Some ?v" by (rule find_view [OF f])
  have vals2: "vals ?s2 = ?V" unfolding vals_def cache2 t(2) by (rule ran_del [OF i(3) hv])
  have same: "same_on A s ?s2" if "A \<subseteq> slab_live (sv_mem s)" "A \<inter> req_blks s ?v = {}" for A
  proof -
    have "0 \<notin> A" using that(1) z by blast
    then show ?thesis using wipe_same [OF d(4) _ that(2), of s m] by (simp add: same_on_def set_cache_def)
  qed
  have inv2: "inv_x p F ?s2"
  proof (rule inv_cache_step [OF inv p calm _ _ vals2 [THEN trans, OF Un_empty_right [symmetric]]])
    show "conns_upd p s ?s2" by (rule conns_upd_refl) simp
    have ow: "set (owned (sv_cache s)) \<subseteq> slab_live m"
      using disj_famD(1) [OF i(5), of O_tab] tb unfolding d(3) by auto
    show "htab_inv slab_inv slab_live (sv_cache ?s2, sv_mem ?s2)"
      using t(1,3) d(2) ow by (simp add: htab_inv_def holds_blocks_def)
    show "fvals (items (sv_cache ?s2)) \<subseteq> {0}" unfolding cache2 t(4) using i(2) by blast
    show "inj_on (hview (sv_cache ?s2)) (dom (hview (sv_cache ?s2)))" unfolding cache2 t(2) by (rule inj_del [OF i(3)])
    show "same_on (rest p F ?V s) s ?s2" by (rule same [OF rl rv])
    show "rest p F ?V s \<subseteq> slab_live (sv_mem ?s2)" using rl rv d(3) by auto
    have "set (owned (sv_cache s)) \<inter> rest p F ?V s = {}" "F \<inter> rest p F ?V s = {}"
      using rest_apart [OF inv _ owner_tab, of ?V] rest_apart [OF inv, of ?V "O_foot p"] p by auto
    moreover have "set (owned (sv_cache s)) \<inter> F = {}"
      using disj_famD(2) [OF i(5) owner_tab, of "O_foot p"] p by simp
    moreover have "F \<subseteq> slab_live m" using Fl fv d(3) by blast
    ultimately show "disj_fam (insert O_tab (insert (O_foot p) (O_val ` {}))) (blk p F ?s2) (slab_live (sv_mem ?s2) - rest p F ?V s)"
      using ow t(3) by (auto simp: disj_fam_def cache2)
  qed auto
  have same2: "same_on F s ?s2" by (rule same [OF Fl fv])
  have "content ?s2 = (content s)(k := None)"
    by (rule content_del [OF inv hv _ same [OF rl rv]]) (simp only: cache2 t(2))
  with that [OF d(1) refl inv2 _ vals2 same2 cache2] show thesis by (simp add: set_cache_def wipe_def)
qed

subsection \<open>Storing the request in hand\<close>

text \<open>The request of \<open>c\<close> is a cached value and belongs to the cache.\<close>

definition stored :: "ptr \<Rightarrow> conn \<Rightarrow> request \<Rightarrow> (byte list \<Rightarrow> entry option) \<Rightarrow> server \<Rightarrow> bool" where
  "stored p c r f s1 \<longleftrightarrow>
     (let s = upd_req (c_in c) (\<lambda>r. r\<lparr>rq_can_free := False\<rparr>) s1 in
      inv_x p {} s \<and> has_req s c (r\<lparr>rq_can_free := False\<rparr>) \<and> c_in c \<in> vals s \<and> content s = f)"

lemma put_step:
  assumes at: "at_req p F c r s" and calm: "calm p s"
    and cs: "sv_conns s1 = sv_conns s"
    and tab: "htab_inv slab_inv slab_live (sv_cache s1, sv_mem s1)" "fvals (items (sv_cache s1)) \<subseteq> {0}"
    and view: "hview (sv_cache s1) = (hview (sv_cache s))(k \<mapsto> c_in c)"
    and B: "B \<inter> F = {}" "B \<inter> rest p F (ran ((hview (sv_cache s))(k := None))) s = {}"
    and same: "same_on (slab_live (sv_mem s) - B) s s1"
    and live: "slab_live (sv_mem s) - B - set (owned (sv_cache s)) \<subseteq> slab_live (sv_mem s1) - set (owned (sv_cache s1))"
    and data: "rdata r \<noteq> 0" "rextra r \<noteq> 0" "sv_bufs s (rextra r) = Some xs" "atoull (Some xs) = Inr (Some n)"
  shows "stored p c r ((content s)(k \<mapsto> (buf_data s (rdata r) (data_length (rq_header r)), n, received r))) s1"
proof -
  let ?q = "c_in c" and ?r = "r\<lparr>rq_can_free := False\<rparr>" and ?V = "ran ((hview (sv_cache s))(k := None))"
  let ?s2 = "upd_req ?q (\<lambda>r. r\<lparr>rq_can_free := False\<rparr>) s1"
  note a = at_reqD [OF at]
  note inv = run_inv [OF a(1)]
  note i = inv_xD [OF inv]
  have p: "p \<in> addrs s" by (rule conn_ofD(4) [OF run_conn [OF a(1)]])
  have V: "?V \<subseteq> vals s" by (auto simp: vals_def ran_def)
  have v2: "vals ?s2 = ?V \<union> {?q}" using view by (simp add: vals_def ran_put [OF i(3)])
  have Fl: "F \<subseteq> slab_live (sv_mem s)" by (rule run_live [OF a(1)])
  have Fo: "F \<inter> set (owned (sv_cache s)) = {}"
    using disj_famD(2) [OF i(5) owner_tab, of "O_foot p"] p by (simp add: Int_commute)
  have FR: "F \<inter> rest p F ?V s = {}" using rest_apart [OF inv V, of "O_foot p"] p by simp
  have RO: "set (owned (sv_cache s)) \<inter> rest p F ?V s = {}" using rest_apart [OF inv V owner_tab] by simp
  have rl: "rest p F ?V s \<subseteq> slab_live (sv_mem s1) - set (owned (sv_cache s1))"
    using rest_live [OF inv V] B(2) RO live by blast
  have Fl1: "F \<subseteq> slab_live (sv_mem s1) - set (owned (sv_cache s1))" using Fl B(1) Fo live by blast
  have sF: "same_on F s s1" by (rule same_on_mono [OF same]) (use Fl B(1) in blast)
  have q: "sv_reqs s ?q = Some r" using a(9) by (simp add: req_ok_def)
  have blk_sub: "{rkey r, rdata r, rextra r} - {0} \<subseteq> req_blks s ?q" using q by (auto simp: req_blks_def)
  have q1: "req_ok s1 ?q r" by (rule req_ok_same [OF a(9) sF a(8)])
  have rq: "req_ok ?s2 ?q ?r"
    by (rule req_ok_ptrs [OF q1]) (use q1 in \<open>simp_all add: req_ok_def\<close>)
  have "req_blks ?s2 ?q = req_blks s1 ?q" using q1 by (simp add: req_ok_def req_blks_def)
  then have qb: "req_blks ?s2 ?q = req_blks s ?q" using req_blks_same [OF sF a(12)] by simp
  have x1: "sv_bufs s1 (rextra r) = Some xs"
  proof -
    have "rextra r \<in> {rkey r, rdata r, rextra r} - {0}" using data(2) by simp
    then have "rextra r \<in> F" using blk_sub a(8) by blast
    then show ?thesis using same_onD [OF sF] data(3) by simp
  qed
  have "?q \<notin> rest p F ?V s" using FR a(12) by blast
  moreover have "same_on (rest p F ?V s) s s1"
    by (rule same_on_mono [OF same]) (use rest_live [OF inv V] B(2) in blast)
  ultimately have same2: "same_on (rest p F ?V s) s ?s2" by (auto simp: same_on_def upd_req_def)
  have "inv_x p {} ?s2"
  proof (rule inv_cache_step [OF inv p calm _ V v2])
    show "conns_upd p s ?s2" by (rule conns_upd_refl) (simp add: cs)
    show "{?q} \<subseteq> F" using a(12) by simp
    show "htab_inv slab_inv slab_live (sv_cache ?s2, sv_mem ?s2)" "fvals (items (sv_cache ?s2)) \<subseteq> {0}"
      using tab by simp_all
    have "?q \<notin> ran (hview (sv_cache s))" using a(5) by (simp add: vals_def)
    then show "inj_on (hview (sv_cache ?s2)) (dom (hview (sv_cache ?s2)))"
      using inj_put [OF i(3)] view by simp
    show "same_on (rest p F ?V s) s ?s2" by (rule same2)
    show "rest p F ?V s \<subseteq> slab_live (sv_mem ?s2)" using rl by auto
    have "set (owned (sv_cache s1)) \<subseteq> slab_live (sv_mem s1)" using tab(1) by (simp add: htab_inv_def holds_blocks_def)
    moreover have "req_blks s ?q \<inter> set (owned (sv_cache s1)) = {}" "req_blks s ?q \<subseteq> slab_live (sv_mem s1)"
      "req_blks s ?q \<inter> rest p F ?V s = {}" "set (owned (sv_cache s1)) \<inter> rest p F ?V s = {}"
      using a(8) Fl1 FR rl by blast+
    ultimately show "disj_fam (insert O_tab (insert (O_foot p) (O_val ` {?q}))) (blk p {} ?s2) (slab_live (sv_mem ?s2) - rest p F ?V s)"
      unfolding disj_fam_def using qb by (auto simp: Int_commute)
    show "cached_ok ?s2 v" if "v \<in> {?q}" for v
    proof -
      have "v = ?q" using that by simp
      then show ?thesis unfolding cached_ok_def using rq x1 data by (intro exI [of _ ?r]) (auto simp: upd_req_def)
    qed
  qed
  moreover have "has_req ?s2 c ?r" using rq v2 by (simp add: has_req_def)
  moreover have "content ?s2 = (content s)(k \<mapsto> (buf_data s (rdata r) (data_length (rq_header r)), n, received r))"
  proof
    fix k'
    show "content ?s2 k' = ((content s)(k \<mapsto> (buf_data s (rdata r) (data_length (rq_header r)), n, received r))) k'"
    proof (cases "k' = k")
      case True
      have d: "rdata r \<in> {rkey r, rdata r, rextra r} - {0}" using data(1) by simp
      have "sv_bufs s1 (rdata r) = sv_bufs s (rdata r)" using same_onD [OF sF, of "rdata r"] d blk_sub a(8) by blast
      then have "val_content ?s2 ?q = Some (buf_data s (rdata r) (data_length (rq_header r)), n, received r)"
        using val_content_ok [OF rq, of xs n] x1 data by (simp add: buf_data_def)
      then show ?thesis using True view by (simp add: content_def)
    next
      case False
      have "w \<in> ?V" if "hview (sv_cache s) k' = Some w" for w using that False by (auto simp: ran_def)
      then show ?thesis using content_rest [OF inv _ same2 _ V] view False by simp
    qed
  qed
  ultimately show ?thesis unfolding stored_def Let_def using v2 by blast
qed

text \<open>A handler that leaves the cache alone, and writes to its own blocks only, changes no entry.\<close>

lemma content_own:
  assumes inv: "inv_x p F s" and p: "p \<in> addrs s" and c: "sv_cache s' = sv_cache s"
    and same: "same_on (slab_live (sv_mem s) - F) s s'"
  shows "content s' = content s"
proof
  fix k
  show "content s' k = content s k"
  proof (rule content_rest [OF inv, where V = "vals s"])
    have "rest p F (vals s) s \<inter> F = {}" using rest_apart [OF inv subset_refl, of "O_foot p"] p by auto
    then show "same_on (rest p F (vals s) s) s s'"
      by (intro same_on_mono [OF same]) (use rest_live [OF inv, of "vals s"] in blast)
    show "w \<in> vals s" if "hview (sv_cache s) k = Some w" for w using that by (auto simp: vals_def ran_def)
  qed (simp_all add: c)
qed

subsection \<open>The abstract cache\<close>

text \<open>
  What the commands do to a cache that is a map from keys to entries: the code and the data of
  the answer and the map afterwards. An entry expires when more seconds have passed than its
  timeout says.
\<close>

type_synonym cache = "byte list \<Rightarrow> entry option"

fun expired :: "int \<Rightarrow> entry \<Rightarrow> bool" where
  "expired now (d, t, rcv) = (t < elapsed now rcv)"

definition spec_get :: "int \<Rightarrow> byte list \<Rightarrow> cache \<Rightarrow> (code_t \<times> byte list) \<times> cache" where
  "spec_get now k f =
     (case f k of
        None \<Rightarrow> ((KEY_NOTEXISTS, []), f)
      | Some x \<Rightarrow> if expired now x then ((KEY_NOTEXISTS, []), f(k := None)) else ((SUCCESS, fst x), f))"

definition spec_set :: "int \<Rightarrow> byte list \<Rightarrow> byte list option \<Rightarrow> nat option \<Rightarrow> cache \<Rightarrow> (code_t \<times> byte list) \<times> cache" where
  "spec_set now k d t f =
     (case (d, t) of
        (Some d, Some t) \<Rightarrow> ((SUCCESS, []), f(k \<mapsto> (d, t, now)))
      | _ \<Rightarrow> ((INVALID_PARAM, []), f))"

definition spec_delete :: "byte list \<Rightarrow> cache \<Rightarrow> (code_t \<times> byte list) \<times> cache" where
  "spec_delete k f = (if f k = None then ((KEY_NOTEXISTS, []), f) else ((SUCCESS, []), f(k := None)))"

definition spec_flush :: "cache \<Rightarrow> (code_t \<times> byte list) \<times> cache" where
  "spec_flush f = ((SUCCESS, []), Map.empty)"

text \<open>The key, the data and the timeout of a request.\<close>

definition key_of :: "server \<Rightarrow> request \<Rightarrow> byte list" where
  "key_of s r = key_str (sv_bufs s (rkey r)) (key_length (rq_header r))"

definition data_of :: "server \<Rightarrow> request \<Rightarrow> byte list option" where
  "data_of s r = (if rdata r = 0 then None else Some (buf_data s (rdata r) (data_length (rq_header r))))"

definition timeout_of :: "server \<Rightarrow> request \<Rightarrow> nat option" where
  "timeout_of s r = (case atoull (sv_bufs s (rextra r)) of Inl x \<Rightarrow> None | Inr v \<Rightarrow> v)"

text \<open>The state after a command is as the abstract cache says.\<close>

definition meets :: "ptr \<Rightarrow> (code_t \<times> byte list) \<times> cache \<Rightarrow> server \<Rightarrow> bool" where
  "meets p x s \<longleftrightarrow> server_inv s \<and> content s = snd x \<and> reply s p = Some (SEND_HEADER, code_byte (fst (fst x)), snd (fst x))"

lemma answered_meets: "answered p code data s s' \<Longrightarrow> content s = f \<Longrightarrow> meets p ((code, data), f) s'"
  by (auto simp: answered_def meets_def content_kept)

lemma meetsD: "meets p x s \<Longrightarrow> server_inv s"
  by (simp add: meets_def)

end
