(* ===== verification/Server_Exec.thy ===== *)
theory Server_Exec
  imports Server_Cache
begin

text \<open>
  Every command keeps the invariant when its request is complete: the \<open>cmd_\<close> operations and
  \<open>execute_cmd\<close>.
\<close>

subsection \<open>A complete request\<close>

definition complete :: "server \<Rightarrow> request \<Rightarrow> bool" where
  "complete s r \<longleftrightarrow> good_header (rq_header r) \<and> (key_length (rq_header r) \<noteq> 0 \<longrightarrow> key_full s r) \<and>
     (rdata r \<noteq> 0 \<longrightarrow> key_length (rq_header r) \<noteq> 0 \<and> data_length (rq_header r) \<noteq> 0 \<and>
        (extra_length (rq_header r) \<noteq> 0 \<longrightarrow> rextra r \<noteq> 0))"

definition env_ok :: "env \<Rightarrow> bool" where
  "env_ok e \<longleftrightarrow> - (2 ^ 31) \<le> e_pid e \<and> e_pid e < 2 ^ 31"

text \<open>The answer to a \<open>CMD_SET\<close> that the table had no memory for.\<close>

definition set_refused :: "ptr \<Rightarrow> server \<Rightarrow> bool" where
  "set_refused p s \<longleftrightarrow>
     (case conn_of s p of
        Inl x \<Rightarrow> False
      | Inr c \<Rightarrow> c_state c = SEND_HEADER \<and> command_of (rs_header (c_out c) ! 0) = Some CMD_SET \<and>
          rs_header (c_out c) ! 1 = code_byte OUT_OF_MEMORY)"

lemma at_req_addr: "at_req p F c r s \<Longrightarrow> p \<in> addrs s"
  using conn_ofD(4) [OF run_conn [OF at_reqD(1)]] .

lemma at_req_key:
  assumes at: "at_req p F c r s" and k: "key_full s r"
  obtains xs where "buf_of s (rkey r) = Inr (Some xs)" and "key_ok (Some xs) (key_length (rq_header r))"
proof -
  obtain xs where "rkey r \<noteq> 0" "sv_bufs s (rkey r) = Some xs" "key_ok (Some xs) (key_length (rq_header r))"
    using k by (auto simp: key_full_def)
  with that buf_of_Some show thesis by blast
qed

text \<open>A buffer of the request is a string.\<close>

lemma at_req_string:
  assumes at: "at_req p F c r s" and x: "x \<in> {rkey r, rdata r, rextra r}" "x \<noteq> 0"
  obtains xs where "sv_bufs s x = Some xs" and "buf_of s x = Inr (Some xs)" and "0 \<in> set xs"
proof -
  have "\<exists>n. buf_ok s x n" using at_reqD(9) [OF at] x by (auto simp: req_ok_def)
  then obtain n xs where n: "sv_bufs s x = Some xs" "length xs = Suc n" "xs ! n = 0" by (auto simp: buf_ok_def)
  then have "0 \<in> set xs" by (metis lessI nth_mem)
  with that n(1) buf_of_Some [OF x(2) n(1)] show thesis by blast
qed

lemma at_req_kept:
  assumes at: "at_req p F c r s" and k: "kept s s'" and r: "run p F c s'"
  shows "at_req p F c r s'"
  using assms keptD [OF k] by (simp add: at_req_def)

lemma at_req_same:
  assumes at: "at_req p F c r s" and inv: "inv_x p F s'" and cs: "sv_conns s' = sv_conns s"
    and v: "vals s' \<subseteq> vals s" and same: "same_on F s s'"
  shows "at_req p F c r s'"
proof -
  note a = at_reqD [OF at]
  have "run p F c s'" using inv run_conn [OF a(1)] cs by (simp add: run_def conn_of_def)
  moreover have "req_ok s' (c_in c) r" by (rule req_ok_same [OF a(9) same a(8)])
  moreover have "req_blks s' (c_in c) = req_blks s (c_in c)" by (rule req_blks_same [OF same a(12)])
  moreover have "c_in c \<notin> vals s'" using a(5) v by blast
  ultimately show ?thesis unfolding at_req_def using a by (simp add: has_req_def)
qed

lemma at_req_other_buf:
  assumes at: "at_req p F c r s" and x: "x \<in> F" "x \<notin> req_blks s (c_in c)"
  shows "at_req p F c r (s\<lparr>sv_bufs := (sv_bufs s)(x := y)\<rparr>)" (is "at_req p F c r ?s")
proof -
  note a = at_reqD [OF at]
  have same: "same_on (req_blks s (c_in c)) s ?s" using x(2) by (auto simp: same_on_def)
  have "req_ok ?s (c_in c) r" by (rule req_ok_same [OF a(9) same]) simp
  moreover have "req_blks ?s (c_in c) = req_blks s (c_in c)" by (simp add: req_blks_def)
  moreover have "vals ?s = vals s" by (rule vals_cong) simp
  ultimately show ?thesis unfolding at_req_def using a run_bufs [OF a(1) x(1)] by (simp add: has_req_def)
qed

lemma at_req_new_buf:
  assumes at: "at_req p F c r s" and n: "0 < n"
  obtains (none) "new_buf e n s = Inr (0, s)"
  | (some) x s' xs where "new_buf e n s = Inr (x, s')" "x \<noteq> 0" "at_req p (insert x F) c r s'"
    "x \<notin> req_blks s' (c_in c)" "sv_bufs s' x = Some xs" "length xs = n" "sv_cache s' = sv_cache s" "sv_conns s' = sv_conns s"
proof -
  note a = at_reqD [OF at]
  show thesis
    using a(1)
  proof (cases rule: run_malloc [where e = e and n = n])
    case none
    then have "new_buf e n s = Inr (0, s)" by (simp add: new_buf_def)
    then show thesis by (rule that(1))
  next
    case (some x m)
    let ?j = "map (e_junk e x) [0..<n]"
    let ?s1 = "s\<lparr>sv_mem := m\<rparr>"
    let ?s = "?s1\<lparr>sv_bufs := (sv_bufs ?s1)(x := Some ?j)\<rparr>"
    have "x \<notin> F" using run_live [OF a(1)] some(3) by blast
    then have x: "x \<notin> req_blks s (c_in c)" using a(8) by blast
    have "req_ok ?s1 (c_in c) r" by (rule req_ok_same [OF a(9), of UNIV]) (simp_all add: same_on_def)
    moreover have b1: "req_blks ?s1 (c_in c) = req_blks s (c_in c)" by (simp add: req_blks_def)
    moreover have "vals ?s1 = vals s" by (rule vals_cong) simp
    ultimately have at1: "at_req p (insert x F) c r ?s1"
      unfolding at_req_def using a some(4) by (auto simp: has_req_def)
    have "at_req p (insert x F) c r ?s" by (rule at_req_other_buf [OF at1]) (simp_all add: x b1)
    moreover have "x \<notin> req_blks ?s (c_in c)" using x by (simp add: req_blks_def)
    ultimately show thesis
      using some(1,2) by (intro that(2) [of x ?s ?j]) (simp_all add: new_buf_def)
  qed
qed

text \<open>The answer with data from a buffer of its own.\<close>

lemma answer_buf_ok:
  assumes at: "at_req p (insert x F) c r s" and x: "x \<noteq> 0" "x \<notin> req_blks s (c_in c)"
    and b: "sv_bufs s x = Some xs" "n \<le> length xs" "n < 2 ^ 32"
  shows "\<exists>s'. add_response e p x n code s = Inr s' \<and> server_inv s'"
proof -
  have "\<exists>s'. add_response e p x n code s = Inr s' \<and> answered p code (buf_data s x n) s s'"
    by (rule respond_ok [OF at_reqD(1,4,2,3,8) [OF at] b(3)]) (use x b at in simp_all)
  then show ?thesis using answeredD by blast
qed

subsection \<open>Commands that leave the cache alone\<close>

lemma cmd_get_stats_ok:
  assumes at: "at_req p F c r s" and e: "env_ok e"
  shows "\<exists>s'. cmd_get_stats e p s = Inr s' \<and> server_inv s'"
proof -
  have n: "0 < LIGHTCACHE_STATS_SIZE" by (simp add: LIGHTCACHE_STATS_SIZE_def)
  show ?thesis
    using at n
  proof (cases rule: at_req_new_buf [where e = e])
    case none
    then show ?thesis using refuse_ok [OF at] by (simp add: cmd_get_stats_def)
  next
    case (some x s' xs)
    let ?t = "stats_text e s'"
    have t: "htab_inv slab_inv slab_live (sv_cache s', sv_mem s')"
      by (rule inv_xD(1) [OF run_inv [OF at_reqD(1) [OF some(3)]]])
    then have h: "0 \<le> hcount (sv_cache s')" "4 * hcount (sv_cache s') < 3 * int (ht_realsize (sv_cache s'))"
      by (simp_all add: htab_inv_def crowded_def hcount_def)
    have "(2::nat) ^ ht_logsize (sv_cache s') \<le> 2 ^ 17"
      using t by (intro power_increasing) (simp_all add: htab_inv_def tab_ok_def)
    then have "ht_realsize (sv_cache s') \<le> 131072" using t by (simp add: htab_inv_def tab_ok_def)
    then have l: "length ?t + 1 \<le> LIGHTCACHE_STATS_SIZE"
      using h e by (intro stats_text_fits) (simp_all add: env_ok_def)
    let ?ys = "?t @ 0 # drop (length ?t + 1) xs"
    let ?s2 = "s'\<lparr>sv_bufs := (sv_bufs s')(x := Some ?ys)\<rparr>"
    have at2: "at_req p (insert x F) c r ?s2" by (rule at_req_other_buf [OF some(3) _ some(4)]) simp
    have "cmd_get_stats e p s = add_response e p x LIGHTCACHE_STATS_SIZE SUCCESS ?s2"
      using some(1,2,5,6) l by (simp add: cmd_get_stats_def sprintf_buf_def)
    moreover have "\<exists>s''. add_response e p x LIGHTCACHE_STATS_SIZE SUCCESS ?s2 = Inr s'' \<and> server_inv s''"
      by (rule answer_buf_ok [OF at2 some(2), where xs = ?ys])
        (use some(4,6) l in \<open>simp_all add: req_blks_def LIGHTCACHE_STATS_SIZE_def\<close>)
    ultimately show ?thesis by simp
  qed
qed

lemma idle_key_ok: "key_ok (Some idle_key) 17"
  by (simp add: idle_key_def str8_def key_ok_def)

lemma cmd_get_setting_ok:
  assumes at: "at_req p F c r s" and k: "key_full s r"
  shows "\<exists>s'. cmd_get_setting e p s = Inr s' \<and> server_inv s'"
proof -
  note a = at_reqD [OF at]
  obtain xs where xs: "buf_of s (rkey r) = Inr (Some xs)" "key_ok (Some xs) (key_length (rq_header r))"
    by (rule at_req_key [OF at k])
  note eq = strcmp_eq_keys [OF xs(2) idle_key_ok, unfolded strcmp_eq.simps]
  note get = cmd_get_setting_def [of e p s] run_conn [OF a(1)] req_ok_of [OF a(9)] xs(1) eq
  show ?thesis
  proof (cases "key_str (Some xs) (key_length (rq_header r)) = key_str (Some idle_key) 17")
    case False
    then show ?thesis using refuse_ok [OF at] by (simp add: get)
  next
    case True
    have n: "(0::nat) < 8" by simp
    show ?thesis
      using at n
    proof (cases rule: at_req_new_buf [where e = e])
      case none
      then show ?thesis using True refuse_ok [OF at] by (simp add: get)
    next
      case (some x s' ys)
      let ?v = "mem_bytes64 True (htonll True (word_of_nat (idle_conn_timeout (sv_settings s'))))"
      let ?s2 = "s'\<lparr>sv_bufs := (sv_bufs s')(x := Some ?v)\<rparr>"
      have at2: "at_req p (insert x F) c r ?s2" by (rule at_req_other_buf [OF some(3) _ some(4)]) simp
      have "cmd_get_setting e p s = add_response e p x 8 SUCCESS ?s2" using True some(1,2) by (simp add: get)
      moreover have "\<exists>s''. add_response e p x 8 SUCCESS ?s2 = Inr s'' \<and> server_inv s''"
        by (rule answer_buf_ok [OF at2 some(2), where xs = ?v])
          (use some(4) in \<open>simp_all add: req_blks_def mem_bytes64_def\<close>)
      ultimately show ?thesis by simp
    qed
  qed
qed

lemma cmd_chg_setting_ok:
  assumes at: "at_req p F c r s" and k: "rdata r \<noteq> 0 \<Longrightarrow> key_full s r"
  shows "\<exists>s'. cmd_chg_setting e p s = Inr s' \<and> server_inv s'"
proof -
  note a = at_reqD [OF at]
  note chg = cmd_chg_setting_def [of e p s] run_conn [OF a(1)] req_ok_of [OF a(9)]
  show ?thesis
  proof (cases "rdata r = 0")
    case True
    then show ?thesis using refuse_ok [OF at] by (simp add: chg)
  next
    case False
    obtain xs where xs: "buf_of s (rkey r) = Inr (Some xs)" "key_ok (Some xs) (key_length (rq_header r))"
      by (rule at_req_key [OF at k [OF False]])
    note eq = strcmp_eq_keys [OF xs(2) idle_key_ok, unfolded strcmp_eq.simps]
    obtain ys where ys: "buf_of s (rdata r) = Inr (Some ys)" "0 \<in> set ys"
      by (rule at_req_string [OF at _ False]) auto
    obtain v where v: "atoull (Some ys) = Inr v" using atoull_total [OF ys(2)] by blast
    show ?thesis
    proof (cases "key_str (Some xs) (key_length (rq_header r)) = key_str (Some idle_key) 17 \<and> v \<noteq> None")
      case no: False
      then have "cmd_chg_setting e p s = send_response e p INVALID_PARAM s"
        using False by (auto simp: chg xs(1) eq ys(1) v)
      then show ?thesis using refuse_ok [OF at] by simp
    next
      case True
      then obtain n where n: "v = Some n" by blast
      let ?s = "s\<lparr>sv_settings := (sv_settings s)\<lparr>idle_conn_timeout := n\<rparr>\<rparr>"
      have "at_req p F c r ?s" by (rule at_req_kept [OF at _ run_misc(4) [OF a(1)]]) simp
      then show ?thesis using False True n refuse_ok [of p F c r ?s] by (simp add: chg xs(1) eq ys(1) v)
    qed
  qed
qed

subsection \<open>Lookups and deletions\<close>

text \<open>\<open>hget\<close> on the key of the request, and what the cache holds under it.\<close>

lemma at_req_hget:
  assumes at: "at_req p F c r s" and k: "key_full s r"
  obtains xs where "buf_of s (rkey r) = Inr (Some xs)" and "sv_bufs s (rkey r) = Some xs"
    and "hget (sv_cache s) (Some xs) (key_length (rq_header r)) = Inr (find (hit (key_of s r)) (items (sv_cache s)))"
    and "key_ok (Some xs) (key_length (rq_header r))" and "key_str (Some xs) (key_length (rq_header r)) = key_of s r"
proof -
  have t: "tab_ok (sv_cache s)" using inv_xD(1) [OF run_inv [OF at_reqD(1) [OF at]]] by (simp add: htab_inv_def)
  obtain xs where xs: "rkey r \<noteq> 0" "sv_bufs s (rkey r) = Some xs" "key_ok (Some xs) (key_length (rq_header r))"
    using k by (auto simp: key_full_def)
  then have ks: "key_str (Some xs) (key_length (rq_header r)) = key_of s r" by (simp add: key_of_def)
  show thesis by (rule that [OF buf_of_Some [OF xs(1,2)] xs(2) hget_ok [OF t xs(3), unfolded ks] xs(3) ks])
qed

lemma at_req_found:
  assumes at: "at_req p F c r s" and f: "find (hit k) (items (sv_cache s)) = Some it"
  obtains q ys n where "hi_val it \<in> vals s" and "req_ok s (hi_val it) q" and "rdata q \<noteq> 0"
    and "req_of s (hi_val it) = Inr q" and "buf_of s (rextra q) = Inr (Some ys)" and "atoull (Some ys) = Inr (Some n)"
    and "content s k = Some (buf_data s (rdata q) (data_length (rq_header q)), n, received q)"
proof -
  have v: "hi_val it \<in> vals s" by (rule find_vals [OF f])
  obtain q ys n where q: "req_ok s (hi_val it) q" "rdata q \<noteq> 0" "rextra q \<noteq> 0" "sv_bufs s (rextra q) = Some ys"
    "atoull (Some ys) = Inr (Some n)"
    using inv_xD(6) [OF run_inv [OF at_reqD(1) [OF at]] v] by (auto simp: cached_ok_def)
  have "content s k = Some (buf_data s (rdata q) (data_length (rq_header q)), n, received q)"
    using val_content_ok [OF q(1,2,4,5)] find_view [OF f] by (simp add: content_def)
  with that [OF v q(1,2) req_ok_of [OF q(1)] buf_of_Some [OF q(3,4)] q(5)] show thesis .
qed

lemma not_found: "find (hit k) (items (sv_cache s)) = None \<Longrightarrow> content s k = None"
  using find_view_None [of k "sv_cache s"] by (simp add: content_def)

lemma at_req_drop:
  assumes at: "at_req p F c r s" and calm: "calm p s" and f: "find (hit k) (items (sv_cache s)) = Some it"
  obtains s1 where "del_cached_req it s = Inr s1" and "at_req p F c r (set_cache (hfree (sv_cache s1) it) s1)"
    and "content (set_cache (hfree (sv_cache s1) it) s1) = (content s)(k := None)"
proof -
  obtain s1 s2 where 1: "del_cached_req it s = Inr s1" "s2 = set_cache (hfree (sv_cache s1) it) s1"
    "inv_x p F s2" "sv_conns s2 = sv_conns s" "vals s2 = vals s - {hi_val it}" "same_on F s s2"
    "content s2 = (content s)(k := None)"
    by (rule drop_ok [OF run_inv [OF at_reqD(1) [OF at]] at_req_addr [OF at] calm f])
  have "at_req p F c r s2" by (rule at_req_same [OF at 1(3,4) _ 1(6)]) (use 1(5) in blast)
  with that 1(1,2,7) show thesis by blast
qed

lemma cmd_delete_ok:
  assumes at: "at_req p F c r s" and k: "key_full s r" and calm: "calm p s"
  shows "\<exists>s'. cmd_delete e p s = Inr s' \<and> meets p (spec_delete (key_of s r) (content s)) s'"
proof -
  note a = at_reqD [OF at]
  obtain xs where xs: "buf_of s (rkey r) = Inr (Some xs)"
    "hget (sv_cache s) (Some xs) (key_length (rq_header r)) = Inr (find (hit (key_of s r)) (items (sv_cache s)))"
    by (rule at_req_hget [OF at k])
  note del = cmd_delete_def [of e p s] run_conn [OF a(1)] req_ok_of [OF a(9)] xs
  show ?thesis
  proof (cases "find (hit (key_of s r)) (items (sv_cache s))")
    case None
    obtain s' where "send_response e p KEY_NOTEXISTS s = Inr s'" "answered p KEY_NOTEXISTS [] s s'"
      using refuse_full [OF at] by blast
    then show ?thesis using None not_found [OF None] answered_meets by (simp add: del spec_delete_def)
  next
    case (Some it)
    obtain s1 where 1: "del_cached_req it s = Inr s1" "at_req p F c r (set_cache (hfree (sv_cache s1) it) s1)"
      "content (set_cache (hfree (sv_cache s1) it) s1) = (content s)(key_of s r := None)"
      by (rule at_req_drop [OF at calm Some])
    obtain s' where "send_response e p SUCCESS (set_cache (hfree (sv_cache s1) it) s1) = Inr s'"
      "answered p SUCCESS [] (set_cache (hfree (sv_cache s1) it) s1) s'"
      using refuse_full [OF 1(2)] by blast
    moreover obtain x where "content s (key_of s r) = Some x" by (rule at_req_found [OF at Some]) blast
    ultimately show ?thesis using Some 1(1,3) answered_meets by (simp add: del spec_delete_def)
  qed
qed

lemma get_key_notexists_ok:
  assumes "at_req p F c r s"
  shows "\<exists>s'. get_key_notexists e p s = Inr s' \<and> meets p ((KEY_NOTEXISTS, []), content s) s'"
proof -
  let ?s = "upd_stats (\<lambda>t. t\<lparr>get_misses := u64 (get_misses t + 1)\<rparr>) s"
  have "content ?s = content s" by (rule content_kept) simp
  then show ?thesis
    unfolding get_key_notexists_def using refuse_full [OF at_req_stats [OF assms]] answered_meets by blast
qed

text \<open>The answer with the data of a cached request.\<close>

lemma answer_cached_ok:
  assumes at: "at_req p F c r s" and v: "v \<in> vals s" "req_ok s v q" "rdata q \<noteq> 0"
  shows "\<exists>s'. rbind (add_response e p (rdata q) (data_length (rq_header q)) SUCCESS s) (\<lambda>s.
      Inr (upd_conn p (\<lambda>c. c\<lparr>c_out := (c_out c)\<lparr>rs_can_free := False\<rparr>\<rparr>) s)) = Inr s' \<and>
      answered p SUCCESS (buf_data s (rdata q) (data_length (rq_header q))) s s'"
proof -
  note a = at_reqD [OF at]
  let ?n = "data_length (rq_header q)" and ?f = "\<lambda>c. c\<lparr>c_out := (c_out c)\<lparr>rs_can_free := False\<rparr>\<rparr>"
  let ?c = "answer r (rdata q) ?n SUCCESS c"
  obtain s1 where 1: "add_response e p (rdata q) ?n SUCCESS s = Inr s1" "run p F (in_state SEND_HEADER ?c) s1"
    "kept s s1" by (rule add_response_ok [OF a(1,9)])
  let ?s = "upd_conn p ?f s1"
  have r: "run p F (?f (in_state SEND_HEADER ?c)) ?s" by (rule run_upd_conn [OF 1(2)]) simp
  have eq: "?f (in_state SEND_HEADER ?c) = in_state SEND_HEADER (?f ?c)" by (simp add: in_state_def)
  have k: "kept s ?s" using 1(3) by simp
  note kp = keptD [OF k]
  obtain xs where xs: "sv_bufs s (rdata q) = Some xs" "length xs = Suc ?n"
    using v(2,3) by (auto simp: req_ok_def buf_ok_def)
  have q: "sv_reqs s v = Some q" using v(2) by (simp add: req_ok_def)
  have n: "?n < 2 ^ 32" unfolding data_length_def by (rule load32_less)
  then have "resp_len ?c = ?n" by (rule answer_len [OF a(3)])
  then have len: "resp_len (?f ?c) = ?n" by (simp add: resp_len_def)
  have f: "sdata (c_out (?f ?c)) = rdata q" "\<not> rs_can_free (c_out (?f ?c))" "client (?f ?c)"
    "has_req s (?f ?c) r" "length (rs_header (c_out (?f ?c))) = 8" "c_in (?f ?c) = c_in c"
    using a(2,3,4) by (simp_all add: client_def has_req_def answer_def resp_fields_def)
  have "out_ok s (?f ?c)" unfolding out_ok_def f(1) len using xs v(1,3) q f(2) by auto
  then have "sending ?s (in_state SEND_HEADER (?f ?c))" unfolding kp(9) by (rule sending_header)
  moreover have "foot s (?f ?c) \<subseteq> F" using f(2,6) a(8) by (simp add: foot_def out_blks_def)
  moreover have r2: "run p F (in_state SEND_HEADER (?f ?c)) ?s" using r unfolding eq .
  ultimately have "server_inv ?s"
    using sending_close [of p F "in_state SEND_HEADER (?f ?c)" ?s r] f by (simp add: kp)
  moreover have "reply ?s p = Some (SEND_HEADER, code_byte SUCCESS, buf_data s (rdata q) ?n)"
    by (rule answer_reply [OF a(3) n k run_conn [OF r2], where r = r]) simp_all
  ultimately have "answered p SUCCESS (buf_data s (rdata q) ?n) s ?s" using k by (simp add: answered_def)
  with 1(1) show ?thesis by simp
qed

lemma cmd_get_ok:
  assumes at0: "at_req p F c r s0" and k0: "key_full s0 r" and calm0: "calm p s0"
  shows "\<exists>s'. cmd_get e p s0 = Inr s' \<and> meets p (spec_get (received r) (key_of s0 r) (content s0)) s'"
proof -
  define s where "s = upd_stats (\<lambda>t. t\<lparr>st_cmd_get := u64 (st_cmd_get t + 1)\<rparr>) s0"
  have at: "at_req p F c r s" unfolding s_def by (rule at_req_stats [OF at0])
  have k: "key_full s r" and calm: "calm p s" and ko: "key_of s0 r = key_of s r" and ct: "content s0 = content s"
    using k0 calm0 content_kept [of s0 s] by (simp_all add: s_def key_full_def calm_def key_of_def)
  note a = at_reqD [OF at]
  let ?k = "key_of s r"
  obtain xs where xs: "buf_of s (rkey r) = Inr (Some xs)"
    "hget (sv_cache s) (Some xs) (key_length (rq_header r)) = Inr (find (hit ?k) (items (sv_cache s)))"
    by (rule at_req_hget [OF at k])
  note get = cmd_get_def [of e p s0, folded s_def] run_conn [OF a(1)] req_ok_of [OF a(9)] xs
  show ?thesis
    unfolding ko ct
  proof (cases "find (hit ?k) (items (sv_cache s))")
    case None
    then show "\<exists>s'. cmd_get e p s0 = Inr s' \<and> meets p (spec_get (received r) ?k (content s)) s'"
      using get_key_notexists_ok [OF at] not_found [OF None] by (simp add: get spec_get_def)
  next
    case (Some it)
    obtain q ys n where q: "hi_val it \<in> vals s" "req_ok s (hi_val it) q" "rdata q \<noteq> 0" "req_of s (hi_val it) = Inr q"
      "buf_of s (rextra q) = Inr (Some ys)" "atoull (Some ys) = Inr (Some n)"
      "content s ?k = Some (buf_data s (rdata q) (data_length (rq_header q)), n, received q)"
      by (rule at_req_found [OF at Some])
    note get' = get Some q(4-6)
    show "\<exists>s'. cmd_get e p s0 = Inr s' \<and> meets p (spec_get (received r) ?k (content s)) s'"
    proof (cases "n < elapsed (received r) (received q)")
      case True
      obtain s1 where 1: "del_cached_req it s = Inr s1" "at_req p F c r (set_cache (hfree (sv_cache s1) it) s1)"
        "content (set_cache (hfree (sv_cache s1) it) s1) = (content s)(?k := None)"
        by (rule at_req_drop [OF at calm Some])
      from get_key_notexists_ok [OF 1(2), of e] show ?thesis
        using True 1(1,3) q(7) by (simp add: get' spec_get_def)
    next
      case False
      let ?g = "\<lambda>t. t\<lparr>get_hits := u64 (get_hits t + 1)\<rparr>"
      let ?s = "upd_stats ?g s"
      have v: "hi_val it \<in> vals ?s" "req_ok ?s (hi_val it) q" using q(1,2) keptD [of s ?s] by simp_all
      have d: "buf_data ?s = buf_data s" "content ?s = content s"
        using content_kept [of s ?s] by (simp_all add: fun_eq_iff buf_data_def)
      obtain s' where s': "rbind (add_response e p (rdata q) (data_length (rq_header q)) SUCCESS ?s) (\<lambda>s.
          Inr (upd_conn p (\<lambda>c. c\<lparr>c_out := (c_out c)\<lparr>rs_can_free := False\<rparr>\<rparr>) s)) = Inr s'"
        "answered p SUCCESS (buf_data ?s (rdata q) (data_length (rq_header q))) ?s s'"
        using answer_cached_ok [OF at_req_stats [OF at] v q(3)] by blast
      have "meets p ((SUCCESS, buf_data s (rdata q) (data_length (rq_header q))), content s) s'"
        using answered_meets [OF s'(2)] d by simp
      then show ?thesis using False s'(1) q(7) by (simp add: get' spec_get_def)
    qed
  qed
qed

subsection \<open>Storing\<close>

lemma hupd_hupd: "(\<And>x. hi_addr (g x) = hi_addr x) \<Longrightarrow> hupd a f (hupd a g ht) = hupd a (\<lambda>x. f (g x)) ht"
proof -
  assume g: "\<And>x. hi_addr (g x) = hi_addr x"
  have "bucket_upd a f (bucket_upd a g b) = bucket_upd a (\<lambda>x. f (g x)) b" for b
    using g by (cases b) (auto simp: item_upd_def)
  then show ?thesis by (simp add: hupd_def)
qed

lemma add_response_header:
  assumes c: "conn_of s p = Inr c" and r: "req_of s (c_in c) = Inr r" and l: "length (rs_header (c_out c)) = 8"
  shows "\<exists>s' c'. add_response e p dat n code s = Inr s' \<and> conn_of s' p = Inr c' \<and>
    c_state c' = SEND_HEADER \<and> rs_header (c_out c') ! 0 = rq_opcode (rq_header r) \<and> rs_header (c_out c') ! 1 = code_byte code"
proof -
  let ?f = "\<lambda>c. answer r dat n code c" and ?g = "\<lambda>c. c\<lparr>c_out := (c_out c)\<lparr>sbytes := 0\<rparr>\<rparr>"
    and ?h = "\<lambda>c. c\<lparr>c_state := SEND_HEADER\<rparr>"
  let ?s2 = "upd_conn p ?g (upd_conn p ?f s)"
  have 1: "conn_of (upd_conn p ?f s) p = Inr (?f c)" by (rule conn_of_upd [OF _ c]) simp
  have 2: "conn_of ?s2 p = Inr (?g (?f c))" by (rule conn_of_upd [OF _ 1]) simp
  obtain W where W: "snd (event_set e (?g (?f c)) EVENT_WRITE ?s2) = ?s2\<lparr>sv_watch := W\<rparr>"
    using event_set_watch by blast
  let ?s' = "upd_conn p ?h (?s2\<lparr>sv_watch := W\<rparr>)"
  have "conn_of ?s' p = Inr (?h (?g (?f c)))" by (rule conn_of_upd) (simp_all add: 2)
  moreover have "add_response e p dat n code s = Inr ?s'"
    using c r 2 W by (simp add: add_response_def set_state_plain_def Let_def answer_def [abs_def])
  moreover have "c_state (?h (?g (?f c))) = SEND_HEADER" "rs_header (c_out (?h (?g (?f c)))) ! 0 = rq_opcode (rq_header r)"
    "rs_header (c_out (?h (?g (?f c)))) ! 1 = code_byte code"
    using l nth_store32_other [of 0 4] nth_store32_other [of 1 4] by (simp_all add: answer_def resp_fields_def)
  ultimately show ?thesis by blast
qed

lemma stored_ok:
  assumes at: "at_req p F c r s" and cs: "sv_conns s1 = sv_conns s" and put: "stored p c r f s1"
  shows "\<exists>s'. send_response e p code (upd_req (c_in c) (\<lambda>r. r\<lparr>rq_can_free := False\<rparr>) s1) = Inr s' \<and>
    meets p ((code, []), f) s'"
proof -
  note a = at_reqD [OF at]
  let ?s = "upd_req (c_in c) (\<lambda>r. r\<lparr>rq_can_free := False\<rparr>) s1"
  have put': "inv_x p {} ?s" "has_req ?s c (r\<lparr>rq_can_free := False\<rparr>)" "c_in c \<in> vals ?s" "content ?s = f"
    using put by (simp_all add: stored_def Let_def)
  have "run p {} c ?s" using put'(1) run_conn [OF a(1)] cs by (simp add: run_def conn_of_def)
  moreover have "\<not> holds ?s c" using put'(3) by (simp add: holds_def)
  ultimately have "\<exists>s'. send_response e p code ?s = Inr s' \<and> answered p code [] ?s s'"
    using put'(2) a by (intro send_response_ok [of p "{}" c ?s "r\<lparr>rq_can_free := False\<rparr>"]) simp_all
  then show ?thesis using answered_meets [OF _ put'(4)] by blast
qed

abbreviation put_entry :: "server \<Rightarrow> byte list \<Rightarrow> request \<Rightarrow> nat \<Rightarrow> cache" where
  "put_entry s k r n \<equiv> (content s)(k \<mapsto> (buf_data s (rdata r) (data_length (rq_header r)), n, received r))"

lemma insert_stored:
  assumes at: "at_req p F c r s" and calm: "calm p s" and m': "slab_inv m'"
    and none: "hview (sv_cache s) k = None"
    and sd: "set_done (slab_live (sv_mem s)) (sv_cache s) k (c_in c) (slab_live m') ht'"
    and data: "rdata r \<noteq> 0" "rextra r \<noteq> 0" "sv_bufs s (rextra r) = Some ys" "atoull (Some ys) = Inr (Some n)"
  shows "stored p c r (put_entry s k r n) (s\<lparr>sv_cache := ht', sv_mem := m'\<rparr>)" (is "stored p c r _ ?s1")
proof (rule put_step [OF at calm, where B = "{}" and k = k])
  note i = inv_xD [OF run_inv [OF at_reqD(1) [OF at]]]
  have d: "tab_ok ht'" "\<not> crowded ht'" "holds_blocks (slab_live m') ht'" "hview ht' = (hview (sv_cache s))(k \<mapsto> c_in c)"
    "hcount ht' = hcount (sv_cache s) + 1" "keeps_rest (slab_live (sv_mem s)) (sv_cache s) (slab_live m') ht'"
    "fvals (items ht') \<subseteq> fvals (items (sv_cache s))"
    using sd by (simp_all add: set_done_def)
  have "card (dom (hview ht')) = Suc (card (dom (hview (sv_cache s))))" using none d(4) by (simp add: domIff)
  then show "htab_inv slab_inv slab_live (sv_cache ?s1, sv_mem ?s1)"
    using m' d i(1) by (simp add: htab_inv_def)
  show "fvals (items (sv_cache ?s1)) \<subseteq> {0}" using d(7) i(2) by auto
  show "slab_live (sv_mem s) - {} - set (owned (sv_cache s)) \<subseteq> slab_live (sv_mem ?s1) - set (owned (sv_cache ?s1))"
    using d(6) by (simp add: keeps_rest_def)
  show "hview (sv_cache ?s1) = (hview (sv_cache s))(k \<mapsto> c_in c)" using d(4) by simp
qed (use data in \<open>simp_all add: same_on_def\<close>)

lemma replace_stored:
  assumes at: "at_req p F c r s" and calm: "calm p s" and it: "find (hit k) (items (sv_cache s)) = Some it"
    and data: "rdata r \<noteq> 0" "rextra r \<noteq> 0" "sv_bufs s (rextra r) = Some ys" "atoull (Some ys) = Inr (Some n)"
  obtains s1 where "del_cached_req it s = Inr s1" and "sv_conns s1 = sv_conns s"
    and "stored p c r (put_entry s k r n) (set_cache (set_val (c_in c) it (sv_cache s1)) s1)"
proof -
  note i = inv_xD [OF run_inv [OF at_reqD(1) [OF at]]]
  note inv = run_inv [OF at_reqD(1) [OF at]]
  let ?v = "hi_val it" and ?V = "ran ((hview (sv_cache s))(k := None))"
  obtain m W where del: "del_cached_req it s = Inr ((wipe W m s)\<lparr>sv_cache := set_val 0 it (sv_cache s)\<rparr>)"
    "slab_inv m" "slab_live m = slab_live (sv_mem s) - req_blks s ?v" "W - {0} = req_blks s ?v"
    by (rule del_ok [OF inv it])
  let ?s0 = "(wipe W m s)\<lparr>sv_cache := set_val 0 it (sv_cache s)\<rparr>"
  let ?s1 = "set_cache (set_val (c_in c) it (sv_cache ?s0)) ?s0"
  have cache: "sv_cache ?s1 = set_val (c_in c) it (sv_cache s)" by (simp add: hupd_hupd)
  note w = slab_alloc.overwrite_ok [OF i(1) it, of "c_in c"]
  have v: "?v \<in> vals s" by (rule find_vals [OF it])
  have V: "?V = vals s - {?v}" unfolding vals_def by (rule ran_del [OF i(3) find_view [OF it]])
  have p: "p \<in> addrs s" by (rule at_req_addr [OF at])
  have tb: "req_blks s ?v \<inter> set (owned (sv_cache s)) = {}"
    using disj_famD(2) [OF i(5) _ owner_tab, of "O_val ?v"] v by simp
  have fb: "req_blks s ?v \<inter> F = {}"
    using disj_famD(2) [OF i(5), of "O_val ?v" "O_foot p"] v p by simp
  have rb: "req_blks s ?v \<inter> rest p F ?V s = {}"
    unfolding V using rest_apart [OF inv, of "vals s - {?v}" "O_val ?v"] v by auto
  have z: "0 \<notin> slab_live (sv_mem s)" by (rule live_nonzero [OF i(8)])
  have ow: "set (owned (sv_cache s)) \<subseteq> slab_live m"
    using disj_famD(1) [OF i(5) owner_tab] tb unfolding del(3) by auto
  have h: "tab_ok (sv_cache s)" "distinct (owned (sv_cache s))" using i(1) by (simp_all add: htab_inv_def holds_blocks_def)
  have "stored p c r (put_entry s k r n) ?s1"
  proof (rule put_step [OF at calm _ _ _ _ fb rb _ _ data])
    show "htab_inv slab_inv slab_live (sv_cache ?s1, sv_mem ?s1)"
      unfolding cache using w(1,3) del(2) ow by (simp add: htab_inv_def holds_blocks_def)
    show "fvals (items (sv_cache ?s1)) \<subseteq> {0}" unfolding cache using find_set_val(2) [OF h it] i(2) by simp
    show "hview (sv_cache ?s1) = (hview (sv_cache s))(k \<mapsto> c_in c)" unfolding cache by (rule w(2))
    have "same_on (slab_live (sv_mem s) - req_blks s ?v) s (wipe W m s)"
      by (rule wipe_same [OF del(4)]) (use z in auto)
    then show "same_on (slab_live (sv_mem s) - req_blks s ?v) s ?s1" by (simp add: same_on_def set_cache_def)
    show "slab_live (sv_mem s) - req_blks s ?v - set (owned (sv_cache s))
        \<subseteq> slab_live (sv_mem ?s1) - set (owned (sv_cache ?s1))"
      unfolding cache using w(3) del(3) by simp
  qed simp
  then show thesis using that [of ?s0] del(1) by simp
qed

lemma set_refused_ok:
  assumes at: "at_req p F c r s" and op: "command_of (rq_opcode (rq_header r)) = Some CMD_SET"
    and s1: "sv_conns s1 = sv_conns s" "sv_reqs s1 = sv_reqs s"
  shows "\<exists>s'. send_response e p OUT_OF_MEMORY s1 = Inr s' \<and> set_refused p s'"
proof -
  note a = at_reqD [OF at]
  have "conn_of s1 p = Inr c" using run_conn [OF a(1)] s1(1) by (simp add: conn_of_def)
  moreover have "req_of s1 (c_in c) = Inr r" using a(9) s1(2) by (simp add: req_of_iff req_ok_def)
  ultimately obtain s' c' where "add_response e p 0 0 OUT_OF_MEMORY s1 = Inr s'" "conn_of s' p = Inr c'"
    "c_state c' = SEND_HEADER"
    "rs_header (c_out c') ! 0 = rq_opcode (rq_header r)" "rs_header (c_out c') ! 1 = code_byte OUT_OF_MEMORY"
    using add_response_header [of s1 p c r e 0 0 OUT_OF_MEMORY] a(3) by blast
  then show ?thesis using op by (simp add: send_response_def set_refused_def)
qed

lemma cmd_set_ok:
  assumes at0: "at_req p F c r s0" and cp: "complete s0 r" and op: "command_of (rq_opcode (rq_header r)) = Some CMD_SET"
    and calm0: "calm p s0"
  shows "\<exists>s'. cmd_set e p s0 = Inr s' \<and> (set_refused p s' \<or>
    meets p (spec_set (received r) (key_of s0 r) (data_of s0 r) (timeout_of s0 r) (content s0)) s')"
proof -
  define s where "s = upd_stats (\<lambda>t. t\<lparr>st_cmd_set := u64 (st_cmd_set t + 1)\<rparr>) s0"
  have at: "at_req p F c r s" unfolding s_def by (rule at_req_stats [OF at0])
  have cp': "complete s r" and calm: "calm p s" using cp calm0 by (simp_all add: s_def complete_def key_full_def calm_def)
  have eq: "key_of s0 r = key_of s r" "data_of s0 r = data_of s r" "timeout_of s0 r = timeout_of s r" "content s0 = content s"
    using content_kept [of s0 s] by (simp_all add: s_def key_of_def data_of_def timeout_of_def buf_data_def)
  note a = at_reqD [OF at]
  note set = cmd_set_def [of e p s0, folded s_def] run_conn [OF a(1)] req_ok_of [OF a(9)]
  let ?k = "key_of s r"
  let ?goal = "\<exists>s'. cmd_set e p s0 = Inr s' \<and> (set_refused p s' \<or>
    meets p (spec_set (received r) ?k (data_of s r) (timeout_of s r) (content s)) s')"
  have bad: ?goal if "cmd_set e p s0 = send_response e p INVALID_PARAM s" and "data_of s r = None \<or> timeout_of s r = None"
  proof -
    have "spec_set (received r) ?k (data_of s r) (timeout_of s r) (content s) = ((INVALID_PARAM, []), content s)"
      using that(2) by (auto simp: spec_set_def split: option.split)
    then show ?thesis using refuse_full [OF at, of e INVALID_PARAM] answered_meets that(1) by fastforce
  qed
  have ?goal
  proof (cases "rdata r = 0")
    case True
    then show ?thesis by (intro bad) (simp_all add: set data_of_def)
  next
    case d: False
    then have kl: "key_full s r" and x: "rextra r \<noteq> 0" using cp' op by (auto simp: complete_def good_header_def)
    let ?n = "key_length (rq_header r)"
    obtain xs where xs: "buf_of s (rkey r) = Inr (Some xs)" "sv_bufs s (rkey r) = Some xs"
      "hget (sv_cache s) (Some xs) ?n = Inr (find (hit ?k) (items (sv_cache s)))" "key_ok (Some xs) ?n" "key_str (Some xs) ?n = ?k"
      by (rule at_req_hget [OF at kl])
    obtain ys where ys: "sv_bufs s (rextra r) = Some ys" "buf_of s (rextra r) = Inr (Some ys)" "0 \<in> set ys"
      by (rule at_req_string [OF at _ x]) auto
    obtain v where v: "atoull (Some ys) = Inr v" using atoull_total [OF ys(3)] by blast
    have to: "timeout_of s r = v" using v ys(1) by (simp add: timeout_of_def)
    show ?thesis
    proof (cases v)
      case None
      then show ?thesis using d ys(2) v to by (intro bad) (simp_all add: set)
    next
      case (Some n)
      note set' = set d ys(2) v Some xs(1)
      have sp: "spec_set (received r) ?k (data_of s r) (timeout_of s r) (content s) = ((SUCCESS, []), put_entry s ?k r n)"
        using d to Some by (simp add: spec_set_def data_of_def)
      have vn: "atoull (Some ys) = Inr (Some n)" using v Some by simp
      have h: "slab_inv (sv_mem s)" "tab_ok (sv_cache s)" "\<not> crowded (sv_cache s)" "holds_blocks (slab_live (sv_mem s)) (sv_cache s)"
        using inv_xD(1) [OF run_inv [OF a(1)]] by (simp_all add: htab_inv_def)
      obtain rc ht' m' where rc: "hset (li_malloc (e_malloc e)) li_free (sv_cache s) (Some xs) ?n (c_in c) (sv_mem s) = Inr (rc, ht', m')"
        "slab_inv m'" "rc = HEXISTS \<longleftrightarrow> hview (sv_cache s) ?k \<noteq> None" "rc = HEXISTS \<Longrightarrow> ht' = sv_cache s \<and> m' = sv_mem s"
        "rc = HSUCCESS \<Longrightarrow> set_done (slab_live (sv_mem s)) (sv_cache s) ?k (c_in c) (slab_live m') ht'"
        using slab_alloc.set_specD [OF slab_alloc.hset_ok h xs(4), of "e_malloc e" "c_in c", unfolded xs(5)] by (metis le0)
      show ?thesis
      proof (cases rc)
        case HERROR
        then show ?thesis
          using rc(1) set_refused_ok [OF at op, of "s\<lparr>sv_cache := ht', sv_mem := m'\<rparr>" e] by (auto simp: set')
      next
        case HSUCCESS
        then have "hview (sv_cache s) ?k = None" using rc(3) by simp
        note put = insert_stored [OF at calm rc(2) this rc(5) [OF HSUCCESS] d x ys(1) vn]
        from stored_ok [OF at _ put] show ?thesis using rc(1) HSUCCESS unfolding sp by (auto simp: set')
      next
        case HEXISTS
        then have same: "ht' = sv_cache s" "m' = sv_mem s" and "hview (sv_cache s) ?k \<noteq> None" using rc(3,4) by simp_all
        then obtain it where it: "find (hit ?k) (items (sv_cache s)) = Some it" by (auto simp: hview_def lview_def)
        obtain s1 where 1: "del_cached_req it s = Inr s1" "sv_conns s1 = sv_conns s"
          "stored p c r (put_entry s ?k r n) (set_cache (set_val (c_in c) it (sv_cache s1)) s1)"
          by (rule replace_stored [OF at calm it d x ys(1) vn])
        from stored_ok [OF at _ 1(3)] 1(2) show ?thesis
          using rc(1) HEXISTS same 1(1) it xs(3) unfolding sp by (auto simp: set')
      qed
    qed
  qed
  then show ?thesis unfolding eq .
qed

subsection \<open>Emptying the cache\<close>

lemma hupd_id:
  assumes "\<And>x. x \<in> set (items ht) \<Longrightarrow> hi_addr x = a \<Longrightarrow> f x = x"
  shows "hupd a f ht = ht"
proof -
  have "bucket_upd a f b = b" if b: "b \<in> set (ht_table ht)" for b
  proof (cases b)
    case (Chain ps)
    have "item_upd a f x = x" if "x \<in> set ps" for x
      using assms [of x] b Chain that by (force simp: item_upd_def items_def)
    then show ?thesis by (simp add: Chain map_idI)
  qed simp
  then show ?thesis by (simp add: hupd_def map_idI)
qed

lemma find_live:
  "key_order ps \<Longrightarrow> x \<in> set ps \<Longrightarrow> \<not> hi_free x \<Longrightarrow> find (hit (hkey x)) ps = Some x"
  by (induction ps) (auto simp: key_order_Cons hit_def)

lemma distinct_items: "distinct (item_addrs ps) \<Longrightarrow> distinct ps"
proof (induction ps)
  case (Cons p ps)
  then have "p \<notin> set ps" using item_addrs_in [of p ps] by auto
  with Cons show ?case by simp
qed simp

text \<open>What is left of the table after the items \<open>its\<close> were flushed.\<close>

definition flushed :: "hitem list \<Rightarrow> server \<Rightarrow> server \<Rightarrow> bool" where
  "flushed its s s' \<longleftrightarrow> sv_conns s' = sv_conns s \<and>
     (\<forall>k. hview (sv_cache s') k = (if \<exists>x \<in> set its. hit k x then None else hview (sv_cache s) k))"

lemma flush_free:
  assumes at: "at_req p F c r s" and x: "x \<in> set (items (sv_cache s))" "hi_free x"
  shows "flush_item_enum x s = Inr (False, s)"
proof -
  note i = inv_xD [OF run_inv [OF at_reqD(1) [OF at]]]
  have d: "inj_on hi_addr (set (items (sv_cache s)))"
    using i(1) by (intro distinct_addr_inj) (simp add: htab_inv_def holds_blocks_def owned_def)
  have z: "hi_val x = 0" using i(2) x by (auto simp: fvals_def)
  have "set_val 0 x (sv_cache s) = sv_cache s"
  proof (rule hupd_id)
    fix y assume y: "y \<in> set (items (sv_cache s))" "hi_addr y = hi_addr x"
    then have "y = x" using inj_onD [OF d] x(1) by blast
    then show "y\<lparr>hi_val := 0\<rparr> = y" using z by simp
  qed
  then show ?thesis using z x(2) by (simp add: flush_item_enum_def del_cached_req_def hfree_def set_cache_def)
qed

lemma flush_live:
  assumes at: "at_req p F c r s" and calm: "calm p s" and x: "x \<in> set (items (sv_cache s))" "\<not> hi_free x"
  obtains s' where "flush_item_enum x s = Inr (False, s')" and "at_req p F c r s'" and "flushed [x] s s'"
    and "set (items (sv_cache s)) - {x} \<subseteq> set (items (sv_cache s'))"
proof -
  note a = at_reqD [OF at]
  note i = inv_xD [OF run_inv [OF a(1)]]
  have t: "tab_ok (sv_cache s)" "distinct (owned (sv_cache s))" using i(1) by (simp_all add: htab_inv_def holds_blocks_def)
  then have f: "find (hit (hkey x)) (items (sv_cache s)) = Some x" using find_live [OF _ x] by (simp add: tab_ok_def)
  obtain s1 s2 where 1: "del_cached_req x s = Inr s1" "s2 = set_cache (hfree (sv_cache s1) x) s1" "inv_x p F s2"
    "sv_conns s2 = sv_conns s" "vals s2 = vals s - {hi_val x}" "same_on F s s2"
    "sv_cache s2 = hfree (set_val 0 x (sv_cache s)) x"
    by (rule drop_ok [OF run_inv [OF a(1)] at_req_addr [OF at] calm f])
  have at2: "at_req p F c r s2" by (rule at_req_same [OF at 1(3,4) _ 1(6)]) (use 1(5) in blast)
  have "hview (sv_cache s2) = (hview (sv_cache s))(hkey x := None)"
    unfolding 1(7) by (rule slab_alloc.delete_ok(2) [OF i(1) f])
  then have fl: "flushed [x] s s2" using 1(4) x(2) by (auto simp: flushed_def hit_def)
  obtain xs ys where s: "items (sv_cache s) = xs @ x # ys" using split_list [OF x(1)] by blast
  have s2: "items (set_val 0 x (sv_cache s)) = xs @ x\<lparr>hi_val := 0\<rparr> # ys" by (rule items_hupd_split [OF s t(2)])
  have "owned (set_val 0 x (sv_cache s)) = owned (sv_cache s)" using s s2 by (simp add: owned_def)
  then have "items (hupd (hi_addr (x\<lparr>hi_val := 0\<rparr>)) (\<lambda>p. p\<lparr>hi_free := True\<rparr>) (set_val 0 x (sv_cache s))) =
      xs @ (x\<lparr>hi_val := 0\<rparr>)\<lparr>hi_free := True\<rparr> # ys"
    using t(2) by (intro items_hupd_split [OF s2]) simp
  then have "items (sv_cache s2) = xs @ x\<lparr>hi_val := 0, hi_free := True\<rparr> # ys" using x(2) 1(7) by (simp add: hfree_def)
  then have "set (items (sv_cache s)) - {x} \<subseteq> set (items (sv_cache s2))" using s by auto
  with that 1(1,2) at2 fl show thesis by (simp add: flush_item_enum_def)
qed

lemma flush_loop:
  assumes "at_req p F c r s" and "calm p s" and "set its \<subseteq> set (items (sv_cache s))" and "distinct its"
  shows "\<exists>s'. visit flush_item_enum its s = Inr (False, s') \<and> at_req p F c r s' \<and> flushed its s s'"
  using assms
proof (induction its arbitrary: s)
  case Nil
  then show ?case by (simp add: flushed_def)
next
  case (Cons x its)
  have x: "x \<in> set (items (sv_cache s))" "x \<notin> set its" using Cons.prems(3,4) by simp_all
  show ?case
  proof (cases "hi_free x")
    case True
    obtain s' where s': "visit flush_item_enum its s = Inr (False, s')" "at_req p F c r s'" "flushed its s s'"
      using Cons.IH [OF Cons.prems(1,2)] Cons.prems(3,4) by auto
    have "flushed (x # its) s s'" using s'(3) True by (simp add: flushed_def hit_def)
    then show ?thesis using s' flush_free [OF Cons.prems(1) x(1) True] by simp
  next
    case False
    obtain s1 where 1: "flush_item_enum x s = Inr (False, s1)" "at_req p F c r s1" "flushed [x] s s1"
      "set (items (sv_cache s)) - {x} \<subseteq> set (items (sv_cache s1))"
      by (rule flush_live [OF Cons.prems(1,2) x(1) False])
    have "calm p s1" using 1(3) Cons.prems(2) by (simp add: flushed_def calm_def)
    moreover have "set its \<subseteq> set (items (sv_cache s1))" using 1(4) Cons.prems(3) x(2) by auto
    ultimately obtain s' where s': "visit flush_item_enum its s1 = Inr (False, s')" "at_req p F c r s'" "flushed its s1 s'"
      using Cons.IH [OF 1(2)] Cons.prems(4) by auto
    have "flushed (x # its) s s'" using 1(3) s'(3) by (auto simp: flushed_def)
    then show ?thesis using s'(1,2) 1(1) by auto
  qed
qed

lemma flush_henum:
  assumes at: "at_req p F c r s" and calm: "calm p s"
  obtains s' where "henum (sv_cache s) flush_item_enum True s = Inr s'" and "at_req p F c r s'"
    and "hview (sv_cache s') = Map.empty" and "sv_conns s' = sv_conns s"
proof -
  have t: "Dangling \<notin> set (ht_table (sv_cache s))" "distinct (owned (sv_cache s))"
    using inv_xD(1) [OF run_inv [OF at_reqD(1) [OF at]]] by (simp_all add: htab_inv_def holds_blocks_def tab_ok_def)
  have "distinct (items (sv_cache s))" by (rule distinct_items) (use t(2) in \<open>simp add: owned_def\<close>)
  then obtain s' where s': "visit flush_item_enum (items (sv_cache s)) s = Inr (False, s')" "at_req p F c r s'"
    "flushed (items (sv_cache s)) s s'"
    using flush_loop [OF at calm subset_refl] by blast
  have "filter (\<lambda>p. \<not> hi_free p \<or> True) (items (sv_cache s)) = items (sv_cache s)" by simp
  then have "henum (sv_cache s) flush_item_enum True s = Inr s'"
    using henum_table_visit [OF t(1), of flush_item_enum True s] s'(1) by (simp add: henum_def items_def)
  moreover have "hview (sv_cache s') k = None" for k
  proof (cases "\<exists>x \<in> set (items (sv_cache s)). hit k x")
    case True
    then show ?thesis using s'(3) by (simp add: flushed_def)
  next
    case False
    then have "hview (sv_cache s) k = None" by (simp add: hview_def lview_None_iff)
    then show ?thesis using s'(3) by (simp add: flushed_def)
  qed
  moreover have "sv_conns s' = sv_conns s" using s'(3) by (simp add: flushed_def)
  ultimately show thesis using that s'(2) by blast
qed

lemma cmd_flush_all_ok:
  assumes at: "at_req p F c r s" and calm: "calm p s"
  shows "\<exists>s'. cmd_flush_all e p s = Inr s' \<and> meets p (spec_flush (content s)) s'"
proof -
  obtain s1 where s1: "henum (sv_cache s) flush_item_enum True s = Inr s1" "at_req p F c r s1"
    "hview (sv_cache s1) = Map.empty"
    by (rule flush_henum [OF at calm])
  have "content s1 = Map.empty" by (simp add: fun_eq_iff content_def s1(3))
  then show ?thesis
    using refuse_full [OF s1(2), of e SUCCESS] s1(1) answered_meets by (fastforce simp: cmd_flush_all_def spec_flush_def)
qed

subsection \<open>The dispatcher\<close>

lemma execute_ok:
  assumes at0: "at_req p F c r0 s0" and st: "c_state c = CMD_RECEIVED" and cp0: "complete s0 r0" and calm0: "calm p s0"
    and e: "env_ok e"
  shows "\<exists>s'. execute_cmd e p s0 = Inr s' \<and>
    (case command_of (rq_opcode (rq_header r0)) of
       Some CMD_GET \<Rightarrow> meets p (spec_get (e_now e) (key_of s0 r0) (content s0)) s'
     | Some CMD_SET \<Rightarrow> set_refused p s' \<or>
         meets p (spec_set (e_now e) (key_of s0 r0) (data_of s0 r0) (timeout_of s0 r0) (content s0)) s'
     | Some CMD_DELETE \<Rightarrow> meets p (spec_delete (key_of s0 r0) (content s0)) s'
     | Some CMD_FLUSH_ALL \<Rightarrow> meets p (spec_flush (content s0)) s'
     | _ \<Rightarrow> server_inv s')"
proof -
  define f :: "request \<Rightarrow> request" where "f = (\<lambda>r. r\<lparr>received := e_now e\<rparr>)"
  define s where "s = upd_req (c_in c) f s0"
  define r where "r = f r0"
  note a0 = at_reqD [OF at0]
  have at: "at_req p F c r s" unfolding s_def r_def by (rule at_req_upd [OF at0]) (simp_all add: f_def)
  have cp: "complete s r" and calm: "calm p s" using cp0 calm0
    by (simp_all add: complete_def key_full_def calm_def s_def r_def f_def)
  have "same_on (slab_live (sv_mem s0) - F) s0 s" using a0(12) by (auto simp: same_on_def s_def upd_req_def)
  then have ct: "content s = content s0"
    by (intro content_own [OF run_inv [OF a0(1)] at_req_addr [OF at0]]) (simp add: s_def)
  have eq: "key_of s r = key_of s0 r0" "data_of s r = data_of s0 r0" "timeout_of s r = timeout_of s0 r0"
    "received r = e_now e" "rq_header r = rq_header r0"
    by (simp_all add: s_def r_def f_def key_of_def data_of_def timeout_of_def buf_data_def)
  have ex: "execute_cmd e p s0 =
     (case command_of (rq_opcode (rq_header r)) of
       Some CMD_GET \<Rightarrow> cmd_get e p s
     | Some CMD_SET \<Rightarrow> cmd_set e p s
     | Some CMD_DELETE \<Rightarrow> cmd_delete e p s
     | Some CMD_FLUSH_ALL \<Rightarrow> cmd_flush_all e p s
     | Some CMD_CHG_SETTING \<Rightarrow> cmd_chg_setting e p s
     | Some CMD_GET_SETTING \<Rightarrow> cmd_get_setting e p s
     | Some CMD_GET_STATS \<Rightarrow> cmd_get_stats e p s
     | None \<Rightarrow> send_response e p INVALID_COMMAND s)"
    unfolding s_def r_def f_def using run_conn [OF a0(1)] req_ok_of [OF a0(9)] st
    by (simp add: execute_cmd_def Let_def)
  have key: "key_full s r" if "command_of (rq_opcode (rq_header r)) \<in> {Some CMD_GET, Some CMD_DELETE, Some CMD_GET_SETTING}"
    using cp that unfolding complete_def good_header_def by blast
  show ?thesis
  proof (cases "command_of (rq_opcode (rq_header r))")
    case None
    then show ?thesis using refuse_ok [OF at, of e INVALID_COMMAND] ex eq(5) by simp
  next
    case (Some cmd)
    note ex' = ex [unfolded Some option.case] and op = Some [unfolded eq(5)]
    show ?thesis
    proof (cases cmd)
      case CMD_GET
      then show ?thesis using cmd_get_ok [OF at key calm, of e] Some ex' op unfolding eq ct by simp
    next
      case CMD_SET
      then show ?thesis using cmd_set_ok [OF at cp _ calm, of e] Some ex' op unfolding eq ct by simp
    next
      case CMD_CHG_SETTING
      have "rdata r \<noteq> 0 \<Longrightarrow> key_full s r" using cp by (simp add: complete_def)
      then show ?thesis using cmd_chg_setting_ok [OF at, of e] CMD_CHG_SETTING ex' op by simp
    next
      case CMD_GET_SETTING
      then show ?thesis using cmd_get_setting_ok [OF at key, of e] Some ex' op by simp
    next
      case CMD_GET_STATS
      then show ?thesis using cmd_get_stats_ok [OF at e] ex' op by simp
    next
      case CMD_DELETE
      then show ?thesis using cmd_delete_ok [OF at key calm, of e] Some ex' op unfolding eq ct by simp
    next
      case CMD_FLUSH_ALL
      then show ?thesis using cmd_flush_all_ok [OF at calm, of e] ex' op unfolding ct by simp
    qed
  qed
qed

text \<open>Whatever the command is, the invariant holds afterwards or the answer is \<open>OUT_OF_MEMORY\<close>.\<close>

lemma execute_safe:
  assumes "at_req p F c r s" and "c_state c = CMD_RECEIVED" and "complete s r" and "calm p s" and "env_ok e"
  shows "\<exists>s'. execute_cmd e p s = Inr s' \<and> (server_inv s' \<or> set_refused p s')"
proof -
  obtain s' where s': "execute_cmd e p s = Inr s'" "case command_of (rq_opcode (rq_header r)) of
       Some CMD_GET \<Rightarrow> meets p (spec_get (e_now e) (key_of s r) (content s)) s'
     | Some CMD_SET \<Rightarrow> set_refused p s' \<or>
         meets p (spec_set (e_now e) (key_of s r) (data_of s r) (timeout_of s r) (content s)) s'
     | Some CMD_DELETE \<Rightarrow> meets p (spec_delete (key_of s r) (content s)) s'
     | Some CMD_FLUSH_ALL \<Rightarrow> meets p (spec_flush (content s)) s'
     | _ \<Rightarrow> server_inv s'"
    using execute_ok [OF assms] by blast
  have "server_inv s' \<or> set_refused p s'"
  proof (cases "command_of (rq_opcode (rq_header r))")
    case (Some cmd)
    then show ?thesis using s'(2) by (cases cmd) (auto dest: meetsD)
  qed (use s'(2) in simp)
  with s'(1) show ?thesis by blast
qed

end
