(* ===== verification/Server_Input.thy ===== *)
theory Server_Input
  imports Server_Exec
begin

text \<open>
  A read event keeps the invariant: \<open>header_done\<close>, \<open>run_command\<close> and \<open>try_read_request\<close>.
\<close>

subsection \<open>Well-behaved input\<close>

definition in_limits :: "byte list \<Rightarrow> bool" where
  "in_limits h \<longleftrightarrow> data_length h < PROTOCOL_MAX_DATA_SIZE \<and> key_length h < PROTOCOL_MAX_KEY_SIZE \<and>
     extra_length h < PROTOCOL_MAX_EXTRA_SIZE"

definition new_header :: "byte \<Rightarrow> request \<Rightarrow> byte list" where
  "new_header b r = header_to_host ((rq_header r)[rbytes r := b])"

text \<open>A header within the limits is a good one; a key has no 0.\<close>

definition good_byte :: "byte \<Rightarrow> conn \<Rightarrow> request \<Rightarrow> bool" where
  "good_byte b c r \<longleftrightarrow>
     (case c_state c of
        READ_HEADER \<Rightarrow> rbytes r = 11 \<and> in_limits (new_header b r) \<longrightarrow> good_header (new_header b r)
      | READ_KEY \<Rightarrow> b \<noteq> 0
      | _ \<Rightarrow> True)"

text \<open>The byte completes the request.\<close>

definition last_byte :: "byte \<Rightarrow> conn \<Rightarrow> request \<Rightarrow> bool" where
  "last_byte b c r \<longleftrightarrow>
     (case c_state c of
        READ_HEADER \<Rightarrow> rbytes r = 11 \<and> in_limits (new_header b r) \<and> key_length (new_header b r) = 0
      | READ_KEY \<Rightarrow> rbytes r + 1 = key_length (rq_header r) \<and> data_length (rq_header r) = 0
      | READ_DATA \<Rightarrow> rbytes r + 1 = data_length (rq_header r) \<and> extra_length (rq_header r) = 0
      | READ_EXTRA \<Rightarrow> rbytes r + 1 = extra_length (rq_header r)
      | _ \<Rightarrow> False)"

text \<open>
  The input the server is safe for: no error of \<open>read\<close> but \<open>EAGAIN\<close>, good bytes, and nobody
  else is sending when a command runs.
\<close>

definition good_input :: "env \<Rightarrow> ptr \<Rightarrow> conn \<Rightarrow> request \<Rightarrow> server \<Rightarrow> bool" where
  "good_input e p c r s \<longleftrightarrow>
     (case e_rd e of
        Rd_error \<Rightarrow> False
      | Rd_byte b \<Rightarrow> good_byte b c r \<and> (last_byte b c r \<longrightarrow> calm p s)
      | _ \<Rightarrow> True)"

definition fine :: "ptr \<Rightarrow> server \<Rightarrow> bool" where
  "fine p s \<longleftrightarrow> server_inv s \<or> set_refused p s"

lemma fineI: "server_inv s \<Longrightarrow> fine p s"
  by (simp add: fine_def)

subsection \<open>Running the command\<close>

lemma run_command_ok:
  assumes at: "at_req p F c r s" and cp: "complete s r" and calm: "calm p s" and e: "env_ok e"
  shows "\<exists>s'. run_command e p s = Inr s' \<and> fine p s'"
proof -
  let ?f = "\<lambda>c. c\<lparr>c_state := CMD_RECEIVED\<rparr>"
  let ?s = "upd_conn p ?f s"
  note a = at_reqD [OF at]
  have k: "kept s ?s" by simp
  have "run p F (?f c) ?s" by (rule run_upd_conn [OF a(1)]) simp
  then have at1: "at_req p F (?f c) r ?s"
    unfolding at_req_def using a keptD [OF k] by (simp add: has_req_def client_def)
  have calm1: "calm p ?s" by (rule calm_upd [OF calm conns_upd_upd_conn]) simp
  have cp1: "complete ?s r" using cp by (simp add: complete_def key_full_def)
  have "run_command e p s = execute_cmd e p ?s"
    by (simp add: run_command_def set_conn_state_def set_state_plain_def)
  moreover obtain s' where "execute_cmd e p ?s = Inr s'" "server_inv s' \<or> set_refused p s'"
    using execute_safe [OF at1 _ cp1 calm1 e] by auto
  ultimately show ?thesis by (simp add: fine_def)
qed

subsection \<open>The next part of a request\<close>

lemma good_header_lengths:
  assumes "good_header h"
  shows "key_length h + 1 < 2 ^ 32" and "data_length h + 1 < 2 ^ 32" and "extra_length h + 1 < 2 ^ 32"
  using assms by (simp_all add: good_header_def PROTOCOL_MAX_DATA_SIZE_def PROTOCOL_MAX_KEY_SIZE_def
    PROTOCOL_MAX_EXTRA_SIZE_def)

lemma own_ptrs:
  assumes "req_ok s q r" and "a \<notin> req_blks s q"
  shows "a \<noteq> q" and "rkey r \<noteq> 0 \<Longrightarrow> rkey r \<noteq> a" and "rdata r \<noteq> 0 \<Longrightarrow> rdata r \<noteq> a" and "rextra r \<noteq> 0 \<Longrightarrow> rextra r \<noteq> a"
  using assms(2) unfolding req_ok_in_blks [OF assms(1)] by auto

lemma buf_ok_cong: "sv_bufs s' x = sv_bufs s x \<Longrightarrow> buf_ok s' x n = buf_ok s x n"
  by (simp add: buf_ok_def)

lemma key_full_cong: "sv_bufs s' (rkey r) = sv_bufs s (rkey r) \<Longrightarrow> rkey r' = rkey r \<Longrightarrow> rq_header r' = rq_header r \<Longrightarrow>
    key_full s' r' = key_full s r"
  by (simp add: key_full_def)

lemma read_key_ok:
  assumes at: "at_req p F c r s" and z: "rkey r = 0" "rdata r = 0" "rextra r = 0" "rbytes r = 0"
    and g: "good_header (rq_header r)" "key_length (rq_header r) \<noteq> 0"
  shows "\<exists>s'. set_conn_state e p READ_KEY s = Inr s' \<and> server_inv s'"
  unfolding set_conn_state_def conn_states.case
proof (rule take_buffer_ok [where len = key_length, OF at refl good_header_lengths(1) [OF g(1)]])
  show "r\<lparr>rkey := 0\<rparr> = r" using z by (cases r) simp
  fix a s' assume a: "a \<noteq> 0" "a \<notin> req_blks s (c_in c)" "sv_reqs s' (c_in c) = Some (r\<lparr>rkey := a\<rparr>)"
    "buf_ok s' a (key_length (rq_header r))" "\<And>x. x \<noteq> a \<Longrightarrow> sv_bufs s' x = sv_bufs s x"
  note o = own_ptrs [OF at_reqD(9) [OF at] a(2)]
  have "req_ok s' (c_in c) (r\<lparr>rkey := a\<rparr>)" using at_reqD(9) [OF at] a(1,3,4) z o(1) by (simp add: req_ok_def)
  moreover have "key_part s' (r\<lparr>rkey := a\<rparr>)" using a(4) z(4) by (auto simp: key_part_def buf_ok_def)
  then have "reading s' (in_state READ_KEY c) (r\<lparr>rkey := a\<rparr>)" using z g a(1) by (simp add: reading_def Let_def)
  ultimately show "req_ok s' (c_in c) (r\<lparr>rkey := a\<rparr>) \<and> reading s' (in_state READ_KEY c) (r\<lparr>rkey := a\<rparr>)" by blast
qed auto

lemma read_data_ok:
  assumes at: "at_req p F c r s" and z: "rdata r = 0" "rextra r = 0" "rbytes r = 0"
    and g: "good_header (rq_header r)" "data_length (rq_header r) \<noteq> 0" "key_length (rq_header r) \<noteq> 0" and k: "key_full s r"
  shows "\<exists>s'. set_conn_state e p READ_DATA s = Inr s' \<and> server_inv s'"
  unfolding set_conn_state_def conn_states.case
proof (rule take_buffer_ok [where len = data_length, OF at refl good_header_lengths(2) [OF g(1)]])
  show "r\<lparr>rdata := 0\<rparr> = r" using z by (cases r) simp
  fix a s' assume a: "a \<noteq> 0" "a \<notin> req_blks s (c_in c)" "sv_reqs s' (c_in c) = Some (r\<lparr>rdata := a\<rparr>)"
    "buf_ok s' a (data_length (rq_header r))" "\<And>x. x \<noteq> a \<Longrightarrow> sv_bufs s' x = sv_bufs s x"
  note o = own_ptrs [OF at_reqD(9) [OF at] a(2)]
  have rk: "rkey r \<noteq> 0" using k by (simp add: key_full_def)
  have b: "sv_bufs s' (rkey r) = sv_bufs s (rkey r)" by (rule a(5) [OF o(2) [OF rk]])
  have "buf_ok s (rkey r) (key_length (rq_header r))" "rkey r \<noteq> c_in c" "c_in c \<noteq> 0" "length (rq_header r) = 12"
    using at_reqD(9) [OF at] rk by (auto simp: req_ok_def)
  then have "req_ok s' (c_in c) (r\<lparr>rdata := a\<rparr>)"
    using a(1,3,4) z o(1) o(2) [OF rk] buf_ok_cong [OF b] by (simp add: req_ok_def)
  moreover have "key_full s' (r\<lparr>rdata := a\<rparr>)" using k key_full_cong [OF b] by simp
  then have "reading s' (in_state READ_DATA c) (r\<lparr>rdata := a\<rparr>)" using z g a(1) by (simp add: reading_def Let_def)
  ultimately show "req_ok s' (c_in c) (r\<lparr>rdata := a\<rparr>) \<and> reading s' (in_state READ_DATA c) (r\<lparr>rdata := a\<rparr>)" by blast
qed auto

lemma read_extra_ok:
  assumes at: "at_req p F c r s" and z: "rdata r \<noteq> 0" "rextra r = 0" "rbytes r = 0"
    and g: "good_header (rq_header r)" "extra_length (rq_header r) \<noteq> 0" "key_length (rq_header r) \<noteq> 0"
      "data_length (rq_header r) \<noteq> 0" and k: "key_full s r"
  shows "\<exists>s'. set_conn_state e p READ_EXTRA s = Inr s' \<and> server_inv s'"
  unfolding set_conn_state_def conn_states.case
proof (rule take_buffer_ok [where len = extra_length, OF at refl good_header_lengths(3) [OF g(1)]])
  show "r\<lparr>rextra := 0\<rparr> = r" using z by (cases r) simp
  fix a s' assume a: "a \<noteq> 0" "a \<notin> req_blks s (c_in c)" "sv_reqs s' (c_in c) = Some (r\<lparr>rextra := a\<rparr>)"
    "buf_ok s' a (extra_length (rq_header r))" "\<And>x. x \<noteq> a \<Longrightarrow> sv_bufs s' x = sv_bufs s x"
  note o = own_ptrs [OF at_reqD(9) [OF at] a(2)]
  have rk: "rkey r \<noteq> 0" using k by (simp add: key_full_def)
  have b: "sv_bufs s' (rkey r) = sv_bufs s (rkey r)" "sv_bufs s' (rdata r) = sv_bufs s (rdata r)"
    by (rule a(5) [OF o(2) [OF rk]], rule a(5) [OF o(3) [OF z(1)]])
  have "buf_ok s (rkey r) (key_length (rq_header r))" "buf_ok s (rdata r) (data_length (rq_header r))"
    "rkey r \<noteq> c_in c" "rdata r \<noteq> c_in c" "rkey r \<noteq> rdata r" "c_in c \<noteq> 0" "length (rq_header r) = 12"
    using at_reqD(9) [OF at] rk z(1) by (auto simp: req_ok_def)
  then have "req_ok s' (c_in c) (r\<lparr>rextra := a\<rparr>)"
    using a(1,3,4) z o(1) o(2) [OF rk] o(3) [OF z(1)] buf_ok_cong [OF b(1)] buf_ok_cong [OF b(2)]
    by (simp add: req_ok_def)
  moreover have "key_full s' (r\<lparr>rextra := a\<rparr>)" using k key_full_cong [OF b(1)] by simp
  then have "reading s' (in_state READ_EXTRA c) (r\<lparr>rextra := a\<rparr>)" using z g a(1) by (simp add: reading_def Let_def)
  ultimately show "req_ok s' (c_in c) (r\<lparr>rextra := a\<rparr>) \<and> reading s' (in_state READ_EXTRA c) (r\<lparr>rextra := a\<rparr>)" by blast
qed auto

lemma length_to_host [simp]: "length (header_to_host h) = length h"
  by (simp add: header_to_host_def Let_def)

lemma calm_cong: "sv_conns s' = sv_conns s \<Longrightarrow> calm p s' = calm p s"
  by (simp add: calm_def)

lemma header_done_ok:
  assumes at: "at_req p F c r s" and z: "rkey r = 0" "rdata r = 0" "rextra r = 0" "rbytes r = 0"
    and good: "in_limits (header_to_host (rq_header r)) \<Longrightarrow> good_header (header_to_host (rq_header r))"
    and calm: "in_limits (header_to_host (rq_header r)) \<Longrightarrow> key_length (header_to_host (rq_header r)) = 0 \<Longrightarrow> calm p s"
    and e: "env_ok e"
  shows "\<exists>ret s'. header_done e p s = Inr (ret, s') \<and> ret \<noteq> READ_ERR \<and> fine p s'"
proof -
  let ?h = "header_to_host (rq_header r)" and ?f = "\<lambda>r. r\<lparr>rq_header := header_to_host (rq_header r)\<rparr>"
  let ?s = "upd_req (c_in c) ?f s"
  have "length (rq_header r) = 12" using at_reqD(9) [OF at] by (simp add: req_ok_def)
  then have at1: "at_req p F c (?f r) ?s" using z by (intro at_req_upd [OF at]) simp_all
  note a = at_reqD [OF at1]
  have start: "header_done e p s = (if \<not> in_limits ?h then
       rbind (send_response e p INVALID_PARAM_SIZE ?s) (\<lambda>s. Inr (FAILED, s))
     else rbind (if key_length ?h = 0 then run_command e p ?s else set_conn_state e p READ_KEY ?s) (\<lambda>s.
       Inr (READ_COMPLETED, s)))"
    using run_conn [OF at_reqD(1) [OF at]] req_ok_of [OF a(9)]
    by (simp add: header_done_def in_limits_def Let_def not_less)
  show ?thesis
  proof (cases "in_limits ?h")
    case False
    obtain s' where "send_response e p INVALID_PARAM_SIZE ?s = Inr s'" "server_inv s'" using refuse_ok [OF at1] by blast
    then show ?thesis using start False by (simp add: fineI)
  next
    case True
    note g = good [OF True]
    show ?thesis
    proof (cases "key_length ?h = 0")
      case kz: True
      have "complete ?s (?f r)" using g kz z by (simp add: complete_def)
      moreover have "calm p ?s" using calm [OF True kz] by (simp add: calm_def)
      ultimately obtain s' where "run_command e p ?s = Inr s'" "fine p s'" using run_command_ok [OF at1 _ _ e] by blast
      then show ?thesis using start True kz by simp
    next
      case kz: False
      obtain s' where "set_conn_state e p READ_KEY ?s = Inr s'" "server_inv s'"
        using read_key_ok [OF at1, of e] z g kz by auto
      then show ?thesis using start True kz by (simp add: fineI)
    qed
  qed
qed

text \<open>No byte came.\<close>

lemma read_nothing:
  assumes at: "at_req p F c r s" and e: "e_rd e = Rd_eof \<or> e_rd e = Rd_again"
  shows "read_nbytes e p tgt tot s = Inr (if e_rd e = Rd_eof then READ_ERR else NEED_MORE, s)"
  using run_conn [OF at_reqD(1) [OF at]] req_ok_of [OF at_reqD(9) [OF at]] e by (auto simp: read_nbytes_def)

definition read_fine :: "ptr \<Rightarrow> server \<Rightarrow> (socket_state \<times> server) res \<Rightarrow> bool" where
  "read_fine p s x \<longleftrightarrow> (\<exists>ret s'. x = Inr (ret, s') \<and> (if ret = READ_ERR then s' = s else fine p s'))"

lemma read_fineI: "x = Inr (ret, s') \<Longrightarrow> ret \<noteq> READ_ERR \<Longrightarrow> fine p s' \<Longrightarrow> read_fine p s x"
  by (auto simp: read_fine_def)

lemma good_input_cases:
  assumes "good_input e p c r s"
  obtains (none) "e_rd e = Rd_eof \<or> e_rd e = Rd_again"
  | (byte) b where "e_rd e = Rd_byte b" "good_byte b c r" "last_byte b c r \<Longrightarrow> calm p s"
  using assms by (cases "e_rd e") (auto simp: good_input_def)

lemma try_read_header:
  assumes inv: "server_inv s" and at: "at_req p F c r s" and st: "c_state c = READ_HEADER" and rd: "reading s c r"
    and good: "good_input e p c r s" and e: "env_ok e"
  shows "read_fine p s (try_read_request e p s)"
proof -
  note a = at_reqD [OF at]
  have tr: "try_read_request e p s = rbind (read_nbytes e p To_header sizeof_req_header s) (\<lambda>(ret, s).
      if ret = READ_COMPLETED then header_done e p s else Inr (ret, s))"
    using run_conn [OF a(1)] st by (simp add: try_read_request_def)
  have z: "rkey r = 0" "rdata r = 0" "rextra r = 0" "rbytes r < 12" using rd st by (simp_all add: reading_def Let_def)
  from good show ?thesis
  proof (cases rule: good_input_cases)
    case none
    then show ?thesis using read_nothing [OF at none] inv by (auto simp: tr read_fine_def fineI)
  next
    case (byte b)
    let ?r = "read_on 12 (r\<lparr>rq_header := (rq_header r)[rbytes r := b]\<rparr>)"
    obtain s' where s': "read_nbytes e p To_header sizeof_req_header s = Inr (read_code 12 r, s')"
      "at_req p F c ?r s'" "sv_conns s' = sv_conns s"
      using read_header_byte [OF at z byte(1)] by blast
    show ?thesis
    proof (cases "rbytes r = 11")
      case False
      then have "rbytes r + 1 < 12" using z(4) by linarith
      then have "reading s' c ?r" using z st False by (simp add: reading_def read_on_def Let_def)
      then have "server_inv s'" by (rule reading_close [OF s'(2)])
      then show ?thesis using s'(1) False by (intro read_fineI [of _ NEED_MORE s']) (simp_all add: tr fineI)
    next
      case True
      have h: "header_to_host (rq_header ?r) = new_header b r" by (simp add: new_header_def)
      have "\<exists>ret s''. header_done e p s' = Inr (ret, s'') \<and> ret \<noteq> READ_ERR \<and> fine p s''"
      proof (rule header_done_ok [OF s'(2) _ _ _ _ _ _ e, unfolded h])
        show "good_header (new_header b r)" if "in_limits (new_header b r)"
          using that byte(2) True st by (simp add: good_byte_def)
        show "calm p s'" if "in_limits (new_header b r)" "key_length (new_header b r) = 0"
          using that byte(3) True st calm_cong [OF s'(3)] by (simp add: last_byte_def)
      qed (use z True in \<open>simp_all add: read_on_def\<close>)
      then obtain ret s'' where "header_done e p s' = Inr (ret, s'')" "ret \<noteq> READ_ERR" "fine p s''" by blast
      then show ?thesis using s'(1) True by (intro read_fineI [of _ ret s'']) (simp_all add: tr)
    qed
  qed
qed

text \<open>The parts that go to a buffer; \<open>nx\<close> is what follows the last byte.\<close>

lemma try_read_part:
  assumes inv: "server_inv s" and at: "at_req p F c r s" and good: "good_input e p c r s"
    and x: "x \<in> {rkey r, rdata r, rextra r}" "x \<noteq> 0" "buf_ok s x tot" and n: "rbytes r < tot" "tot < 2 ^ 32"
    and more: "\<And>b s' xs. e_rd e = Rd_byte b \<Longrightarrow> good_byte b c r \<Longrightarrow> at_req p F c (read_on tot r) s' \<Longrightarrow>
      sv_bufs s x = Some xs \<Longrightarrow> sv_bufs s' = (sv_bufs s)(x := Some (xs[rbytes r := b])) \<Longrightarrow> rbytes r + 1 < tot \<Longrightarrow>
      reading s' c (read_on tot r)"
    and fin: "\<And>b s' xs. e_rd e = Rd_byte b \<Longrightarrow> good_byte b c r \<Longrightarrow> (last_byte b c r \<Longrightarrow> calm p s') \<Longrightarrow>
      at_req p F c (read_on tot r) s' \<Longrightarrow> sv_bufs s x = Some xs \<Longrightarrow>
      sv_bufs s' = (sv_bufs s)(x := Some (xs[rbytes r := b])) \<Longrightarrow> rbytes r + 1 = tot \<Longrightarrow>
      \<exists>s''. nx s' = Inr s'' \<and> fine p s''"
  shows "read_fine p s (rbind (read_nbytes e p (To_buf x) tot s) (\<lambda>(ret, s).
    if ret = READ_COMPLETED then rbind (nx s) (\<lambda>s. Inr (ret, s)) else Inr (ret, s)))"
  using good
proof (cases rule: good_input_cases)
  case none
  then show ?thesis using read_nothing [OF at none] inv by (auto simp: read_fine_def fineI)
next
  case (byte b)
  obtain s' xs where s': "sv_bufs s x = Some xs" "read_nbytes e p (To_buf x) tot s = Inr (read_code tot r, s')"
    "at_req p F c (read_on tot r) s'" "sv_bufs s' = (sv_bufs s)(x := Some (xs[rbytes r := b]))" "sv_conns s' = sv_conns s"
    using read_buf_byte [OF at x n byte(1)] by blast
  show ?thesis
  proof (cases "rbytes r + 1 = tot")
    case False
    then have "rbytes r + 1 < tot" using n(1) by linarith
    then have "server_inv s'"
      using reading_close [OF s'(3)] more [OF byte(1,2) s'(3,1,4)] by blast
    then show ?thesis using s'(2) False by (intro read_fineI [of _ NEED_MORE s']) (simp_all add: fineI)
  next
    case True
    have "last_byte b c r \<Longrightarrow> calm p s'" using byte(3) calm_cong [OF s'(5)] by simp
    then obtain s'' where "nx s' = Inr s''" "fine p s''" using fin [OF byte(1,2) _ s'(3,1,4) True] by blast
    then show ?thesis using s'(2) True by (intro read_fineI [of _ READ_COMPLETED s'']) simp_all
  qed
qed

lemma take_update: "i < length xs \<Longrightarrow> take (Suc i) (xs[i := b]) = take i xs @ [b]"
  by (simp add: take_Suc_conv_app_nth)

lemma try_read_key:
  assumes inv: "server_inv s" and at: "at_req p F c r s" and st: "c_state c = READ_KEY" and rd: "reading s c r"
    and good: "good_input e p c r s" and e: "env_ok e"
  shows "read_fine p s (try_read_request e p s)"
proof -
  note a = at_reqD [OF at]
  let ?h = "rq_header r" and ?n = "key_length (rq_header r)"
  have z: "good_header ?h" "rkey r \<noteq> 0" "rdata r = 0" "rextra r = 0" "rbytes r < ?n" "key_part s r"
    using rd st by (simp_all add: reading_def Let_def)
  let ?nx = "\<lambda>s. if data_length ?h = 0 then run_command e p s else set_conn_state e p READ_DATA s"
  have tr: "try_read_request e p s = rbind (read_nbytes e p (To_buf (rkey r)) ?n s) (\<lambda>(ret, s).
      if ret = READ_COMPLETED then rbind (?nx s) (\<lambda>s. Inr (ret, s)) else Inr (ret, s))"
    using run_conn [OF a(1)] req_ok_of [OF a(9)] st a(11) z by (simp add: try_read_request_def)
  have b: "buf_ok s (rkey r) ?n" using a(9) z(2) by (simp add: req_ok_def)
  have n: "?n < 2 ^ 32" using good_header_lengths(1) [OF z(1)] by simp
  have key: "length xs = Suc ?n" "xs ! ?n = 0" "0 \<notin> set (take (rbytes r) xs)" if "sv_bufs s (rkey r) = Some xs" for xs
    using b z(6) that by (simp_all add: buf_ok_def key_part_def)
  show ?thesis
    unfolding tr
  proof (rule try_read_part [OF inv at good _ z(2) b z(5) n])
    fix c' s' xs
    assume c': "e_rd e = Rd_byte c'" "good_byte c' c r" and at': "at_req p F c (read_on ?n r) s'"
      and xs: "sv_bufs s (rkey r) = Some xs" and bs: "sv_bufs s' = (sv_bufs s)(rkey r := Some (xs[rbytes r := c']))"
    have "rbytes r < length xs" using key(1) [OF xs] z(5) by simp
    then have "take (Suc (rbytes r)) (xs[rbytes r := c']) = take (rbytes r) xs @ [c']" by (rule take_update)
    then have nz: "0 \<notin> set (take (Suc (rbytes r)) (xs[rbytes r := c']))"
      using key(3) [OF xs] c'(2) st by (simp add: good_byte_def)
    show "reading s' c (read_on ?n r)" if "rbytes r + 1 < ?n"
      using that z st bs nz by (simp add: reading_def read_on_def key_part_def Let_def)
    assume last: "rbytes r + 1 = ?n" and calm: "last_byte c' c r \<Longrightarrow> calm p s'"
    have "key_ok (Some (xs[rbytes r := c'])) ?n" using nz key(1,2) [OF xs] last z(5) by (simp add: key_ok_def)
    then have kf: "key_full s' (read_on ?n r)" using bs z(2) by (simp add: key_full_def)
    show "\<exists>s''. ?nx s' = Inr s'' \<and> fine p s''"
    proof (cases "data_length ?h = 0")
      case True
      have "calm p s'" by (rule calm) (use st last True in \<open>simp add: last_byte_def\<close>)
      moreover have "complete s' (read_on ?n r)" using z(1,3) kf by (simp add: complete_def)
      ultimately show ?thesis using run_command_ok [OF at' _ _ e] True by simp
    next
      case False
      have "\<exists>s''. set_conn_state e p READ_DATA s' = Inr s'' \<and> server_inv s''"
        by (rule read_data_ok [OF at']) (use z kf False last in \<open>simp_all add: read_on_def\<close>)
      then show ?thesis using False fineI by auto
    qed
  qed simp
qed

lemma try_read_data:
  assumes inv: "server_inv s" and at: "at_req p F c r s" and st: "c_state c = READ_DATA" and rd: "reading s c r"
    and good: "good_input e p c r s" and e: "env_ok e"
  shows "read_fine p s (try_read_request e p s)"
proof -
  note a = at_reqD [OF at]
  let ?h = "rq_header r" and ?n = "data_length (rq_header r)"
  have z: "good_header ?h" "key_full s r" "rdata r \<noteq> 0" "rextra r = 0" "rbytes r < ?n" "key_length ?h \<noteq> 0"
    using rd st by (simp_all add: reading_def Let_def)
  let ?nx = "\<lambda>s. if extra_length ?h \<noteq> 0 then set_conn_state e p READ_EXTRA s else run_command e p s"
  have tr: "try_read_request e p s = rbind (read_nbytes e p (To_buf (rdata r)) ?n s) (\<lambda>(ret, s).
      if ret = READ_COMPLETED then rbind (?nx s) (\<lambda>s. Inr (ret, s)) else Inr (ret, s))"
    using run_conn [OF a(1)] req_ok_of [OF a(9)] st a(11) z by (simp add: try_read_request_def)
  have b: "buf_ok s (rdata r) ?n" and kd: "rkey r \<noteq> rdata r"
    using a(9) z(2,3) by (auto simp: req_ok_def key_full_def)
  have n: "?n < 2 ^ 32" using good_header_lengths(2) [OF z(1)] by simp
  show ?thesis
    unfolding tr
  proof (rule try_read_part [OF inv at good _ z(3) b z(5) n])
    fix c' s' xs
    assume at': "at_req p F c (read_on ?n r) s'" and bs: "sv_bufs s' = (sv_bufs s)(rdata r := Some (xs[rbytes r := c']))"
    have kf: "key_full s' (read_on ?n r)" using z(2) key_full_cong [of s' r s "read_on ?n r"] bs kd by simp
    show "reading s' c (read_on ?n r)" if "rbytes r + 1 < ?n"
      using that z st kf by (simp add: reading_def Let_def) (simp add: read_on_def)
    assume last: "rbytes r + 1 = ?n" and calm: "last_byte c' c r \<Longrightarrow> calm p s'"
    show "\<exists>s''. ?nx s' = Inr s'' \<and> fine p s''"
    proof (cases "extra_length ?h = 0")
      case True
      have "calm p s'" by (rule calm) (use st last True in \<open>simp add: last_byte_def\<close>)
      moreover have "complete s' (read_on ?n r)" using z kf True by (simp add: complete_def)
      ultimately show ?thesis using run_command_ok [OF at' _ _ e] True by simp
    next
      case False
      have "\<exists>s''. set_conn_state e p READ_EXTRA s' = Inr s'' \<and> server_inv s''"
        by (rule read_extra_ok [OF at']) (use z kf False last in \<open>simp_all add: read_on_def\<close>)
      then show ?thesis using False fineI by auto
    qed
  qed simp
qed

lemma try_read_extra:
  assumes inv: "server_inv s" and at: "at_req p F c r s" and st: "c_state c = READ_EXTRA" and rd: "reading s c r"
    and good: "good_input e p c r s" and e: "env_ok e"
  shows "read_fine p s (try_read_request e p s)"
proof -
  note a = at_reqD [OF at]
  let ?h = "rq_header r" and ?n = "extra_length (rq_header r)"
  have z: "good_header ?h" "key_full s r" "rdata r \<noteq> 0" "rextra r \<noteq> 0" "rbytes r < ?n" "key_length ?h \<noteq> 0"
    "data_length ?h \<noteq> 0"
    using rd st by (simp_all add: reading_def Let_def)
  have tr: "try_read_request e p s = rbind (read_nbytes e p (To_buf (rextra r)) ?n s) (\<lambda>(ret, s).
      if ret = READ_COMPLETED then rbind (run_command e p s) (\<lambda>s. Inr (ret, s)) else Inr (ret, s))"
    using run_conn [OF a(1)] req_ok_of [OF a(9)] st by (simp add: try_read_request_def)
  have b: "buf_ok s (rextra r) ?n" and ke: "rkey r \<noteq> rextra r"
    using a(9) z(2,4) by (auto simp: req_ok_def key_full_def)
  have n: "?n < 2 ^ 32" using good_header_lengths(3) [OF z(1)] by simp
  show ?thesis
    unfolding tr
  proof (rule try_read_part [OF inv at good _ z(4) b z(5) n])
    fix c' s' xs
    assume at': "at_req p F c (read_on ?n r) s'" and bs: "sv_bufs s' = (sv_bufs s)(rextra r := Some (xs[rbytes r := c']))"
    have kf: "key_full s' (read_on ?n r)" using z(2) key_full_cong [of s' r s "read_on ?n r"] bs ke by simp
    show "reading s' c (read_on ?n r)" if "rbytes r + 1 < ?n"
      using that z st kf by (simp add: reading_def Let_def) (simp add: read_on_def)
    assume last: "rbytes r + 1 = ?n" and calm: "last_byte c' c r \<Longrightarrow> calm p s'"
    have "calm p s'" by (rule calm) (use st last in \<open>simp add: last_byte_def\<close>)
    moreover have "complete s' (read_on ?n r)" using z kf by (simp add: complete_def)
    ultimately show "\<exists>s''. run_command e p s' = Inr s'' \<and> fine p s''" using run_command_ok [OF at' _ _ e] by simp
  qed simp
qed

text \<open>Every read event of a client.\<close>

lemma conn_ok_client:
  assumes inv: "server_inv s" and c: "conn_of s p = Inr c" and cl: "client c"
  obtains r where "run p (foot s c) c s" and "has_req s c r" and "length (rs_header (c_out c)) = 8"
    and "at_req p (foot s c) c r s \<and> reading s c r \<or> sending s c"
proof -
  note o = run_open [OF inv c]
  obtain r where r: "has_req s c r" "length (rs_header (c_out c)) = 8"
    "c_in c \<notin> vals s \<and> sdata (c_out c) = 0 \<and> rs_can_free (c_out c) \<and> reading s c r \<or> sending s c"
    using o cl by (auto simp: conn_ok_def)
  have "at_req p (foot s c) c r s" if "c_in c \<notin> vals s" "sdata (c_out c) = 0" "rs_can_free (c_out c)"
  proof -
    have "holds s c" using cl r(1) that(1) by (simp add: holds_def has_req_def req_ok_def)
    then show ?thesis unfolding at_req_def using o cl r(1,2) that by (simp add: foot_def)
  qed
  then have "at_req p (foot s c) c r s \<and> reading s c r \<or> sending s c" using r(3) by (elim disjE) simp_all
  then show thesis by (rule that [OF conjunct1 [OF o] r(1,2)])
qed

lemma try_read_ok:
  assumes inv: "server_inv s" and c: "conn_of s p = Inr c" and cl: "client c" and r: "req_of s (c_in c) = Inr r"
    and good: "good_input e p c r s" and e: "env_ok e"
  shows "read_fine p s (try_read_request e p s)"
proof -
  obtain r' where r': "run p (foot s c) c s" "has_req s c r'" "length (rs_header (c_out c)) = 8"
    "at_req p (foot s c) c r' s \<and> reading s c r' \<or> sending s c"
    by (rule conn_ok_client [OF inv c cl])
  have "r' = r" using r r'(2) req_ok_of by (auto simp: has_req_def)
  show ?thesis
    using r'(4)
  proof
    assume "at_req p (foot s c) c r' s \<and> reading s c r'"
    then have at: "at_req p (foot s c) c r s" and rd: "reading s c r" using \<open>r' = r\<close> by simp_all
    then show ?thesis
      using try_read_header [OF inv at _ rd good e] try_read_key [OF inv at _ rd good e]
        try_read_data [OF inv at _ rd good e] try_read_extra [OF inv at _ rd good e]
      by (auto simp: reading_def Let_def split: conn_states.splits)
  next
    assume snd: "sending s c"
    then have st: "c_state c = SEND_HEADER \<or> c_state c = SEND_DATA" by (auto simp: sending_def)
    obtain s' where "send_response e p INVALID_STATE s = Inr s'" "server_inv s'"
      using send_response_ok [OF r'(1,2) cl r'(3), of e INVALID_STATE] by (auto simp: foot_def dest: answeredD)
    then show ?thesis
      using c st by (intro read_fineI [of _ FAILED s']) (auto simp: try_read_request_def fineI)
  qed
qed

end
