(* ===== verification/Server_Output.thy ===== *)
theory Server_Output
  imports Server_Input
begin

text \<open>
  A write event, a new connection and an idle one: \<open>send_nbytes\<close>, \<open>try_send_response\<close>,
  \<open>make_conn\<close>, \<open>accept_conn\<close> and \<open>disconnect_idle_conns\<close> keep the invariant.
\<close>

subsection \<open>Sending\<close>

definition sent :: "nat \<Rightarrow> conn \<Rightarrow> conn" where
  "sent k c = c\<lparr>c_out := (c_out c)\<lparr>sbytes := k\<rparr>\<rparr>"

lemma sent_simps [simp]:
  "c_state (sent k c) = c_state c" "c_in (sent k c) = c_in c" "c_addr (sent k c) = c_addr c"
  "client (sent k c) = client c" "holds s (sent k c) = holds s c" "rs_header (c_out (sent k c)) = rs_header (c_out c)"
  "sdata (c_out (sent k c)) = sdata (c_out c)" "rs_can_free (c_out (sent k c)) = rs_can_free (c_out c)"
  "sbytes (c_out (sent k c)) = k" "foot s (sent k c) = foot s c" "has_req s (sent k c) r = has_req s c r"
  "resp_len (sent k c) = resp_len c"
  by (simp_all add: sent_def client_def holds_def foot_def out_blks_def has_req_def resp_len_def)

lemma out_ok_sent [simp]: "out_ok s (sent k c) = out_ok s c"
  unfolding out_ok_def sent_simps by (rule refl)

lemma send_nbytes_ok:
  assumes r: "run p F c s" and k: "sbytes (c_out c) < tot" "tot \<le> length bytes" "tot < 2 ^ 32"
  obtains (error) "send_nbytes e p bytes tot s = Inr (SEND_ERR, s)"
  | (more) k s' where "send_nbytes e p bytes tot s = Inr (NEED_MORE, s')" "k < tot" "run p F (sent k c) s'" "kept s s'"
  | (completed) s' where "send_nbytes e p bytes tot s = Inr (SEND_COMPLETED, s')" "run p F (sent 0 c) s'" "kept s s'"
proof (cases "e_wr e")
  case Wr_again
  have "sent (sbytes (c_out c)) c = c" by (simp add: sent_def)
  then show thesis using that(2) [OF _ k(1)] r Wr_again run_conn [OF r] k by (auto simp: send_nbytes_def)
next
  case Wr_error
  then show thesis using that(1) run_conn [OF r] k by (simp add: send_nbytes_def)
next
  case (Wr_bytes n)
  define j where "j = min n (Suc 0)"
  define y where "y = sv_sent s @ map (Pair (c_fd c)) (take j (drop (sbytes (c_out c)) bytes))"
  define g where "g = (\<lambda>t :: stats. t\<lparr>bytes_written := u64 (bytes_written t + j)\<rparr>)"
  let ?s = "upd_stats g (s\<lparr>sv_sent := y\<rparr>)" and ?k = "sbytes (c_out c) + j"
  have j1: "j \<le> 1" by (simp add: j_def)
  then have u: "u32 ?k = ?k" using k by simp
  have sd: "upd_conn p (sent i) ?s = upd_conn p (\<lambda>c. c\<lparr>c_out := (c_out c)\<lparr>sbytes := i\<rparr>\<rparr>) ?s" for i
    by (simp add: sent_def [abs_def])
  have eq: "send_nbytes e p bytes tot s =
    (if ?k = tot then Inr (SEND_COMPLETED, upd_conn p (sent 0) ?s) else Inr (NEED_MORE, upd_conn p (sent ?k) ?s))"
    unfolding sd using run_conn [OF r] k Wr_bytes u by (simp add: send_nbytes_def y_def g_def Let_def j_def [symmetric])
  have rs: "run p F (sent i c) (upd_conn p (sent i) ?s)" for i
    by (rule run_upd_conn [OF run_misc(5) [OF run_misc(2) [OF r]]]) simp
  show thesis
  proof (cases "?k = tot")
    case True
    then show thesis using that(3) [OF _ rs] eq by simp
  next
    case False
    then have "?k < tot" using k(1) j1 by linarith
    then show thesis using that(2) [OF _ _ rs] eq False by simp
  qed
qed

definition write_fine :: "ptr \<Rightarrow> server \<Rightarrow> (socket_state \<times> server) res \<Rightarrow> bool" where
  "write_fine p s x \<longleftrightarrow> (\<exists>ret s'. x = Inr (ret, s') \<and> (if ret = SEND_ERR then s' = s else server_inv s'))"

lemma write_fineI: "x = Inr (ret, s') \<Longrightarrow> ret \<noteq> SEND_ERR \<Longrightarrow> server_inv s' \<Longrightarrow> write_fine p s x"
  by (auto simp: write_fine_def)

text \<open>A connection with a response in hand, whatever its state.\<close>

definition at_resp :: "ptr \<Rightarrow> ptr set \<Rightarrow> conn \<Rightarrow> request \<Rightarrow> server \<Rightarrow> bool" where
  "at_resp p F c r s \<longleftrightarrow> run p F c s \<and> client c \<and> length (rs_header (c_out c)) = 8 \<and> has_req s c r \<and> out_ok s c \<and>
     foot s c \<subseteq> F"

lemma at_respD:
  assumes "at_resp p F c r s"
  shows "run p F c s" and "client c" and "length (rs_header (c_out c)) = 8" and "has_req s c r" and "out_ok s c"
    and "foot s c \<subseteq> F"
  using assms by (simp_all add: at_resp_def)

lemma at_resp_sent:
  assumes "at_resp p F c r s" and "run p F (sent k c) s'" and "kept s s'"
  shows "at_resp p F (sent k c) r s'"
  using assms keptD [OF assms(3)] by (simp add: at_resp_def)

lemma at_resp_releasable: "at_resp p F c r s \<Longrightarrow> releasable s c"
  using at_respD [of p F c r s] by (auto simp: releasable_def out_ok_def out_blks_def)

lemma next_request_ok:
  assumes at: "at_resp p F c r s"
  shows "\<exists>s'. next_request e p s = Inr s' \<and> server_inv s'"
proof -
  note a = at_respD [OF at]
  obtain s1 where s1: "set_state_plain e p CMD_SENT s = Inr s1" "run p F (in_state CMD_SENT c) s1" "kept s s1"
    by (rule set_state_plain_ok [OF a(1)])
  have "releasable s (in_state CMD_SENT c)"
    using at_resp_releasable [OF at] by (simp add: releasable_def)
  then have "releasable s1 (in_state CMD_SENT c)"
    using keptD [OF s1(3)] by (simp add: releasable_def)
  moreover have "foot s1 (in_state CMD_SENT c) \<subseteq> F" using a(6) keptD(4) [OF s1(3)] by simp
  ultimately have "\<exists>s'. set_conn_state e p READ_HEADER s1 = Inr s' \<and> server_inv s'"
    using a(2,3) by (intro ready_ok [OF s1(2)]) simp_all
  then show ?thesis using s1(1) by (simp add: next_request_def set_conn_state_def [of e p CMD_SENT])
qed

lemma out_ok_buf:
  assumes "out_ok s c" and "sdata (c_out c) \<noteq> 0"
  obtains xs where "sv_bufs s (sdata (c_out c)) = Some xs" and "resp_len c \<le> length xs"
  using assms by (auto simp: out_ok_def)

lemma resp_len_eq: "ntohl (resp_data_length (rs_header (c_out c))) = resp_len c"
  by (simp add: resp_data_length_def resp_len_def ntohl_load32)

lemma resp_len_less: "resp_len c < 2 ^ 32"
  unfolding resp_len_eq [symmetric] by (rule ntohl_less)

lemma try_send_header:
  assumes at: "at_resp p F c r s" and st: "c_state c = SEND_HEADER" and k: "sbytes (c_out c) < 8"
  shows "write_fine p s (try_send_response e p s)"
proof -
  note a = at_respD [OF at]
  have tr: "try_send_response e p s = rbind (send_nbytes e p (rs_header (c_out c)) sizeof_resp_header s) (\<lambda>(ret, s).
      if ret = SEND_COMPLETED then
        rbind (if resp_len c \<noteq> 0 then set_conn_state e p SEND_DATA s else next_request e p s) (\<lambda>s. Inr (ret, s))
      else Inr (ret, s))"
    unfolding resp_len_eq [symmetric] using run_conn [OF a(1)] st by (simp add: try_send_response_def)
  have h: "sbytes (c_out c) < sizeof_resp_header" "sizeof_resp_header \<le> length (rs_header (c_out c))"
    "sizeof_resp_header < 2 ^ 32" using k a(3) by (simp_all add: sizeof_resp_header_def)
  show ?thesis
    using a(1) h
  proof (cases rule: send_nbytes_ok [where e = e])
    case error
    then show ?thesis by (simp add: tr write_fine_def)
  next
    case (more k' s')
    have "server_inv s'"
    proof (rule sending_close [OF more(3), where rq = r])
      show "sending s' (sent k' c)"
        unfolding sending_def using more(2) st a(5) keptD(8) [OF more(4)] by (simp add: sizeof_resp_header_def)
    qed (use a keptD [OF more(4)] in simp_all)
    then show ?thesis using more(1) by (intro write_fineI [of _ NEED_MORE s']) (simp_all add: tr)
  next
    case (completed s')
    have at': "at_resp p F (sent 0 c) r s'" by (rule at_resp_sent [OF at completed(2,3)])
    note a' = at_respD [OF at']
    show ?thesis
    proof (cases "resp_len c = 0")
      case True
      obtain s'' where "next_request e p s' = Inr s''" "server_inv s''" using next_request_ok [OF at'] by blast
      then show ?thesis using completed(1) True by (intro write_fineI [of _ SEND_COMPLETED s'']) (simp_all add: tr)
    next
      case False
      obtain s'' where s'': "set_state_plain e p SEND_DATA s' = Inr s''" "run p F (in_state SEND_DATA (sent 0 c)) s''"
        "kept s' s''" by (rule set_state_plain_ok [OF a'(1)])
      note kp = keptD [OF s''(3)]
      have "server_inv s''"
      proof (rule sending_close [OF s''(2), where rq = r])
        have "sdata (c_out c) \<noteq> 0" using False a(5) by (cases "sdata (c_out c) = 0") (simp_all add: out_ok_def)
        moreover have "sbytes (c_out (in_state SEND_DATA (sent 0 c))) = 0" by (simp add: in_state_def)
        moreover have "out_ok s'' (in_state SEND_DATA (sent 0 c))" using a'(5) kp(8) by simp
        moreover have "resp_len (in_state SEND_DATA (sent 0 c)) = resp_len c" by simp
        ultimately show "sending s'' (in_state SEND_DATA (sent 0 c))" unfolding sending_def using False by simp
      qed (use a' kp in simp_all)
      then show ?thesis
        using completed(1) False s''(1)
        by (intro write_fineI [of _ SEND_COMPLETED s'']) (simp_all add: tr set_conn_state_def)
    qed
  qed
qed

lemma try_send_data:
  assumes at: "at_resp p F c r s" and st: "c_state c = SEND_DATA" and k: "sbytes (c_out c) < resp_len c"
    and d: "sdata (c_out c) \<noteq> 0"
  shows "write_fine p s (try_send_response e p s)"
proof -
  note a = at_respD [OF at]
  obtain xs where xs: "sv_bufs s (sdata (c_out c)) = Some xs" "resp_len c \<le> length xs" by (rule out_ok_buf [OF a(5) d])
  have tr: "try_send_response e p s = rbind (send_nbytes e p xs (resp_len c) s) (\<lambda>(ret, s).
      if ret = SEND_COMPLETED then rbind (next_request e p s) (\<lambda>s. Inr (ret, s)) else Inr (ret, s))"
    using run_conn [OF a(1)] st buf_of_Some [OF d xs(1)] resp_len_eq [of c] by (simp add: try_send_response_def)
  show ?thesis
    using a(1) k xs(2) resp_len_less
  proof (cases rule: send_nbytes_ok [where e = e])
    case error
    then show ?thesis by (simp add: tr write_fine_def)
  next
    case (more k' s')
    have "server_inv s'"
    proof (rule sending_close [OF more(3), where rq = r])
      show "sending s' (sent k' c)"
        unfolding sending_def using more(2) st a(5) d keptD(8) [OF more(4)] by simp
    qed (use a keptD [OF more(4)] in simp_all)
    then show ?thesis using more(1) by (intro write_fineI [of _ NEED_MORE s']) (simp_all add: tr)
  next
    case (completed s')
    have at': "at_resp p F (sent 0 c) r s'" by (rule at_resp_sent [OF at completed(2,3)])
    obtain s'' where "next_request e p s' = Inr s''" "server_inv s''" using next_request_ok [OF at'] by blast
    then show ?thesis using completed(1) by (intro write_fineI [of _ SEND_COMPLETED s'']) (simp_all add: tr)
  qed
qed

text \<open>Every write event of a client.\<close>

lemma try_send_ok:
  assumes inv: "server_inv s" and c: "conn_of s p = Inr c" and cl: "client c"
  shows "write_fine p s (try_send_response e p s)"
proof -
  obtain r where r: "run p (foot s c) c s" "has_req s c r" "length (rs_header (c_out c)) = 8"
    "at_req p (foot s c) c r s \<and> reading s c r \<or> sending s c"
    by (rule conn_ok_client [OF inv c cl])
  show ?thesis
    using r(4)
  proof
    assume rd: "at_req p (foot s c) c r s \<and> reading s c r"
    then have st: "c_state c \<noteq> SEND_HEADER" "c_state c \<noteq> SEND_DATA" by (auto simp: reading_def Let_def)
    obtain s' where "send_response e p INVALID_STATE s = Inr s'" "server_inv s'" using rd refuse_ok by blast
    then show ?thesis
      using c st by (intro write_fineI [of _ FAILED s']) (auto simp: try_send_response_def split: conn_states.split)
  next
    assume snd: "sending s c"
    then have at: "at_resp p (foot s c) c r s" using r cl by (simp add: at_resp_def sending_def)
    show ?thesis using snd try_send_header [OF at] try_send_data [OF at] by (auto simp: sending_def)
  qed
qed

subsection \<open>New connections\<close>

text \<open>
  The first thing that happens to a new connection is \<open>free_response\<close>, so what was in its memory
  must not pass for a response: \<open>make_conn\<close> does not set \<open>out.sdata\<close> and \<open>out.can_free\<close>.
\<close>

definition clean_mem :: "env \<Rightarrow> bool" where
  "clean_mem e \<longleftrightarrow> (\<forall>a. rs_can_free (c_out (e_conn e a)) \<longrightarrow> sdata (c_out (e_conn e a)) = 0)"

lemma inv_new_conn:
  assumes inv: "server_inv s" and m: "slab_inv m" "slab_live (sv_mem s) \<subseteq> slab_live m"
    and a: "a \<in> slab_live m" "a \<notin> slab_live (sv_mem s)" and d: "c_addr d = a"
  shows "run a {} d (s\<lparr>sv_mem := m, sv_conns := d # sv_conns s\<rparr>)"
proof -
  let ?s = "s\<lparr>sv_mem := m, sv_conns := d # sv_conns s\<rparr>"
  have z: "inv_x 0 {} s" using inv by (simp add: server_inv_def)
  note i = inv_xD [OF z]
  have an: "a \<notin> addrs s" using disj_famD(1) [OF i(5), of "O_conn a"] a(2) by auto
  have v: "vals ?s = vals s" by (rule vals_cong) simp
  have rb: "req_blks ?s = req_blks s" by (simp add: fun_eq_iff req_blks_def)
  have ft: "foot ?s = foot s" by (simp add: fun_eq_iff foot_def holds_def v rb)
  have at: "conn_at ?s q = conn_at s q" if "q \<noteq> a" for q using that d by (simp add: conn_at_def)
  have blk: "blk a {} ?s j = blk 0 {} s j" if j: "j \<in> owners s" for j
  proof (cases j)
    case (O_foot q)
    then have "q \<in> addrs s" using j by simp
    then have "q \<noteq> a" "q \<noteq> 0" using an addr_nonzero [OF z] by metis+
    then show ?thesis by (simp add: O_foot ft at)
  qed (simp_all add: rb)
  have dj: "disj_fam (owners s \<union> {O_conn a, O_foot a}) (blk a {} ?s) (slab_live m)"
  proof (rule disj_fam_change [OF i(5) subset_refl blk])
    show "blk 0 {} s j \<subseteq> slab_live m" if "j \<in> owners s" for j using disj_famD(1) [OF i(5) that] m(2) by blast
    show "disj_fam {O_conn a, O_foot a} (blk a {} ?s) (slab_live m)" using a(1) by (simp add: disj_fam_def)
    show "blk a {} ?s x \<inter> blk 0 {} s j = {}" if "x \<in> {O_conn a, O_foot a}" "j \<in> owners s" for x j
      using disj_famD(1) [OF i(5) that(2)] a(2) that(1) by auto
  qed
  have "owners ?s = owners s \<union> {O_conn a, O_foot a}" by (auto simp: owners_def addrs_def d v)
  then have sp: "sep a {} ?s" using dj by (simp add: sep_def)
  have tab: "htab_inv slab_inv slab_live (sv_cache ?s, sv_mem ?s)"
    using i(1) m by (auto simp: htab_inv_def holds_blocks_def)
  have same: "same_on UNIV s ?s" by (simp add: same_on_def)
  have cv: "cached_ok ?s x" if "x \<in> vals ?s" for x using cached_ok_same [OF i(6) same] that by (simp add: v)
  have cs: "conn_ok ?s c" if c: "c \<in> set (sv_conns ?s)" "c_addr c \<noteq> a" for c
  proof -
    have m: "c \<in> set (sv_conns s)" using c d by auto
    then have "c_addr c \<noteq> 0" using addr_nonzero [OF z] by (auto simp: addrs_def)
    from conn_ok_same [OF i(7) [OF m this] same v] show ?thesis by simp
  qed
  have "distinct (map c_addr (sv_conns ?s))" using i(4) an by (simp add: d addrs_def)
  then have "inv_x a {} ?s" unfolding inv_x_def using tab sp cv cs i(2,3) by simp
  then show ?thesis using d by (simp add: run_def conn_of_def)
qed

lemma server_inv_misc:
  assumes "server_inv s" and "sv_mem s' = sv_mem s" and "sv_reqs s' = sv_reqs s" and "sv_bufs s' = sv_bufs s"
    and "sv_cache s' = sv_cache s" and "sv_conns s' = sv_conns s"
  shows "server_inv s'"
proof -
  have k: "kept s s'" using assms by (simp add: kept_def)
  note kp = keptD [OF k]
  have ca: "cached_ok s' = cached_ok s" using assms(4) kp(5) by (simp add: fun_eq_iff cached_ok_def)
  have at: "conn_at s' = conn_at s" and ow: "owners s' = owners s"
    using assms(6) kp(1) by (simp_all add: fun_eq_iff conn_at_def owners_def addrs_def)
  have "blk 0 {} s' i = blk 0 {} s i" for i by (cases i) (simp_all add: assms(5) kp at)
  then have "blk 0 {} s' = blk 0 {} s" by (rule ext)
  then have "sep 0 {} s' = sep 0 {} s" by (simp add: sep_def ow assms(2))
  then show ?thesis
    using assms(1) by (simp add: server_inv_def inv_x_def assms kp ca)
qed

lemma init_conn_simps [simp]:
  "c_addr (init_conn e fd c) = c_addr c" "client (init_conn e fd c)" "c_in (init_conn e fd c) = 0"
  "rs_header (c_out (init_conn e fd c)) = rs_header (c_out c)" "out_blks (init_conn e fd c) = out_blks c"
  "\<not> holds s (init_conn e fd c)"
  by (simp_all add: init_conn_def client_def out_blks_def holds_def)

lemma start_conn_ok:
  assumes r: "run a F c s" and h: "length (rs_header (c_out c)) = 8" and o: "out_blks c = {}"
  shows "\<exists>s'. set_conn_state e a READ_HEADER (upd_stats g (upd_conn a (init_conn e fd) s)) = Inr s' \<and> server_inv s'"
proof (rule ready_ok)
  show "run a F (init_conn e fd c) (upd_stats g (upd_conn a (init_conn e fd) s))"
    by (rule run_misc(5) [OF run_upd_conn [OF r]]) simp
qed (use h o in \<open>simp_all add: releasable_def foot_def\<close>)

lemma accept_ok:
  assumes inv: "server_inv s" and cm: "clean_mem e"
  shows "\<exists>s'. accept_conn e s = Inr s' \<and> server_inv s'"
proof (cases "e_accept e")
  case None
  then show ?thesis using inv by (simp add: accept_conn_def)
next
  case fd: (Some fd)
  let ?g = "\<lambda>t. t\<lparr>curr_connections := u64 (curr_connections t + 1)\<rparr>"
  have z: "inv_x 0 {} s" using inv by (simp add: server_inv_def)
  note i = inv_xD [OF z]
  show ?thesis
  proof (cases "find c_free (sv_conns s)")
    case (Some c)
    then have c: "c \<in> set (sv_conns s)" "c_free c" by (auto simp: find_Some_iff)
    then have ad: "c_addr c \<noteq> 0" using addr_nonzero [OF z] by (auto simp: addrs_def)
    have co: "conn_of s (c_addr c) = Inr c" by (rule conn_of_mem [OF i(4) c(1)])
    note o = run_open [OF inv co]
    have "length (rs_header (c_out c)) = 8" "out_blks c = {}" using o c(2) by (simp_all add: conn_ok_def out_blks_def)
    from start_conn_ok [OF conjunct1 [OF o] this, of e ?g fd] show ?thesis
      using fd Some ad by (simp add: accept_conn_def make_conn_def)
  next
    case None
    show ?thesis
      using i(8)
    proof (cases rule: slab_alloc.malloc_cases [where n = sizeof_conn and mf = "e_malloc e"])
      case none
      have "accept_conn e s = Inr (close_fd fd s)"
        using fd None none by (simp add: accept_conn_def make_conn_def s_malloc_def)
      moreover have "server_inv (close_fd fd s)" by (rule server_inv_misc [OF inv]) (simp_all add: close_fd_def)
      ultimately show ?thesis by simp
    next
      case (some a m)
      let ?d = "raw_conn e a" and ?s = "s\<lparr>sv_mem := m, sv_conns := raw_conn e a # sv_conns s\<rparr>"
      have r: "run a {} ?d ?s"
        by (rule inv_new_conn [OF inv some(2)]) (use some(4,5) in \<open>auto simp: raw_conn_def\<close>)
      have "length (rs_header (c_out ?d)) = 8" "out_blks ?d = {}"
        using cm by (simp_all add: raw_conn_def out_blks_def clean_mem_def)
      from start_conn_ok [OF r this, of e ?g fd] show ?thesis
        using fd None some(1,3) by (simp add: accept_conn_def make_conn_def s_malloc_def)
    qed
  qed
qed

end
