(* ===== verification/Server_Safe.thy ===== *)
theory Server_Safe
  imports Server_Output
begin

text \<open>
  The handler of every event, the clean-up of idle connections and the server loop.
\<close>

subsection \<open>Disconnecting\<close>

lemma conns_upd_trans:
  assumes "conns_upd p s s'" and "conns_upd p s' s''"
  shows "conns_upd p s s''"
proof -
  obtain g where g: "\<And>d. c_addr d = p \<Longrightarrow> c_addr (g d) = p"
    "sv_conns s' = map (\<lambda>d. if c_addr d = p then g d else d) (sv_conns s)" using assms(1) by (auto simp: conns_upd_def)
  obtain h where h: "\<And>d. c_addr d = p \<Longrightarrow> c_addr (h d) = p"
    "sv_conns s'' = map (\<lambda>d. if c_addr d = p then h d else d) (sv_conns s')" using assms(2) by (auto simp: conns_upd_def)
  have "sv_conns s'' = map (\<lambda>d. if c_addr d = p then h (g d) else d) (sv_conns s)" using g h by auto
  then show ?thesis unfolding conns_upd_def using g h by (intro exI [of _ "\<lambda>d. h (g d)"]) simp
qed

text \<open>What a function that only releases blocks and changes connection \<open>p\<close> keeps.\<close>

definition only_conn :: "ptr \<Rightarrow> server \<Rightarrow> server \<Rightarrow> bool" where
  "only_conn p s s' \<longleftrightarrow> conns_upd p s s' \<and> sv_settings s' = sv_settings s \<and> sv_cache s' = sv_cache s \<and> sv_sent s' = sv_sent s"

lemma only_conn_trans: "only_conn p s s' \<Longrightarrow> only_conn p s' s'' \<Longrightarrow> only_conn p s s''"
  using conns_upd_trans by (auto simp: only_conn_def)

lemma only_connI: "sv_conns s' = sv_conns s \<Longrightarrow> sv_settings s' = sv_settings s \<Longrightarrow> sv_cache s' = sv_cache s \<Longrightarrow>
    sv_sent s' = sv_sent s \<Longrightarrow> only_conn p s s'"
  by (simp add: only_conn_def conns_upd_refl)

lemma only_conn_upd: "(\<And>d. c_addr (f d) = c_addr d) \<Longrightarrow> only_conn p s (upd_conn p f s)"
  by (simp add: only_conn_def conns_upd_upd_conn)

lemma s_free_only: "s_free a s = Inr s' \<Longrightarrow> only_conn p s s'"
  by (auto simp: s_free_def rbind_eq_Inr_iff intro!: only_connI)

lemma free_req_blocks_only: "free_req_blocks q r s = Inr s' \<Longrightarrow> only_conn p s s'"
  by (auto simp: free_req_blocks_def rbind_eq_Inr_iff) (meson only_conn_trans s_free_only)

lemma free_request_only:
  assumes "free_request p s = Inr s'"
  shows "only_conn p s s'"
proof -
  obtain c where c: "conn_of s p = Inr c" using assms by (auto simp: free_request_def rbind_eq_Inr_iff)
  show ?thesis
  proof (cases "s' = s")
    case True
    then show ?thesis by (simp add: only_connI)
  next
    case False
    then obtain r s1 where "free_req_blocks (c_in c) r s = Inr s1" "s' = upd_conn p (\<lambda>c. c\<lparr>c_in := 0\<rparr>) s1"
      using assms c by (auto simp: free_request_def rbind_eq_Inr_iff split: if_splits)
    then show ?thesis using only_conn_trans [OF free_req_blocks_only only_conn_upd] by simp
  qed
qed

lemma free_response_only:
  assumes "free_response p s = Inr s'"
  shows "only_conn p s s'"
proof -
  obtain c :: conn and s1 where s1: "(if rs_can_free (c_out c) then s_free (sdata (c_out c)) s else Inr s) = Inr s1"
    "upd_conn p (\<lambda>c. c\<lparr>c_out := (c_out c)\<lparr>sdata := 0\<rparr>\<rparr>) s1 = s'"
    using assms unfolding free_response_def rbind_eq_Inr_iff sum.inject by blast
  have "only_conn p s s1"
  proof (cases "rs_can_free (c_out c)")
    case True
    then show ?thesis using s1(1) s_free_only by simp
  qed (use s1(1) in \<open>simp add: only_connI\<close>)
  then show ?thesis unfolding s1(2) [symmetric] by (rule only_conn_trans) (simp add: only_conn_upd)
qed

lemma disconnect_only:
  assumes "disconnect_conn e p s = Inr s'"
  shows "only_conn p s s'" and "conn_of s' p = Inr c \<Longrightarrow> c_free c \<and> c_state c = CONN_CLOSED"
proof -
  let ?f = "\<lambda>c. c\<lparr>c_free := True\<rparr>" and ?h = "\<lambda>c. c\<lparr>c_state := CONN_CLOSED\<rparr>"
    and ?g = "\<lambda>t. t\<lparr>curr_connections := sub64 (curr_connections t) 1\<rparr>"
  obtain s1 s2 d where 1: "free_request p s = Inr s1" "free_response p s1 = Inr s2" "conn_of (upd_conn p ?f s2) p = Inr d"
    "set_state_plain e p CONN_CLOSED (upd_stats ?g (close_fd (c_fd d) (snd (event_del e d (upd_conn p ?f s2))))) = Inr s'"
    using assms unfolding disconnect_conn_def rbind_eq_Inr_iff Let_def by blast
  obtain W where W: "snd (event_del e d (upd_conn p ?f s2)) = (upd_conn p ?f s2)\<lparr>sv_watch := W\<rparr>"
    using event_del_watch by blast
  let ?s3 = "upd_stats ?g (close_fd (c_fd d) ((upd_conn p ?f s2)\<lparr>sv_watch := W\<rparr>))"
  have s': "s' = upd_conn p ?h ?s3" using 1(4) W by (simp add: set_state_plain_def)
  have f: "sv_conns ?s3 = sv_conns (upd_conn p ?f s2)" "sv_settings ?s3 = sv_settings s2" "sv_cache ?s3 = sv_cache s2"
    "sv_sent ?s3 = sv_sent s2" by (simp_all add: close_fd_def upd_stats_def)
  then have o3: "only_conn p (upd_conn p ?f s2) ?s3" by (intro only_connI) simp_all
  have "only_conn p s2 (upd_conn p ?f s2)" "only_conn p ?s3 s'" unfolding s' by (simp_all add: only_conn_upd)
  then have "only_conn p s2 s'" using only_conn_trans o3 by blast
  then show "only_conn p s s'"
    using only_conn_trans [OF free_request_only [OF 1(1)]] only_conn_trans [OF free_response_only [OF 1(2)]] by blast
  assume "conn_of s' p = Inr c"
  note m = conn_ofD(1,2) [OF this]
  have "sv_conns s' = map (\<lambda>d. if c_addr d = p then ?h (?f d) else d) (sv_conns s2)"
    unfolding s' upd_conn_def using f(1) by (simp add: upd_conn_def comp_def)
  then have "c \<in> (\<lambda>d. if c_addr d = p then ?h (?f d) else d) ` set (sv_conns s2)" using m(1) by simp
  then obtain d' where "c = (if c_addr d' = p then ?h (?f d') else d')" by blast
  then show "c_free c \<and> c_state c = CONN_CLOSED" using m(2) by (simp split: if_splits)
qed

subsection \<open>Every event\<close>

lemma heard_ok:
  assumes inv: "server_inv s" and c: "conn_of s p = Inr c"
  shows "server_inv (upd_conn p (\<lambda>c. c\<lparr>last_heard := t\<rparr>) s)"
    and "conn_of (upd_conn p (\<lambda>c. c\<lparr>last_heard := t\<rparr>) s) p = Inr (c\<lparr>last_heard := t\<rparr>)"
proof -
  let ?f = "\<lambda>c. c\<lparr>last_heard := t\<rparr>"
  let ?s = "upd_conn p ?f s"
  note o = run_open [OF inv c]
  have r: "run p (foot s c) (?f c) ?s" by (rule run_upd_conn [OF conjunct1 [OF o]]) simp
  then show "conn_of ?s p = Inr (?f c)" by (rule run_conn)
  have k: "kept s ?s" by simp
  have "conn_ok s (?f c) = conn_ok s c" "foot s (?f c) = foot s c"
    by (simp_all add: conn_ok_def has_req_def reading_def sending_def out_ok_def resp_len_def client_def holds_def
        foot_def out_blks_def)
  then have "conn_ok ?s (?f c)" "foot ?s (?f c) \<subseteq> foot s c" using o keptD [OF k] by simp_all
  then show "server_inv ?s" by (rule run_close [OF r])
qed

text \<open>
  The events the server is safe for: those of its listening sockets when fresh memory holds no
  response, the good input of clients, and any readiness to write.
\<close>

definition good_event :: "env \<Rightarrow> ptr \<Rightarrow> event \<Rightarrow> server \<Rightarrow> bool" where
  "good_event e p ev s \<longleftrightarrow> env_ok e \<and>
     (case conn_of s p of
        Inl x \<Rightarrow> False
      | Inr c \<Rightarrow>
          c_state c = CONN_CLOSED \<or>
          (if c_listening c then ev = EVENT_READ \<and> clean_mem e
           else ev = EVENT_WRITE \<or> (case req_of s (c_in c) of Inl x \<Rightarrow> False | Inr r \<Rightarrow> good_input e p c r s)))"

lemma good_input_heard:
  "good_input e p (c\<lparr>last_heard := t\<rparr>) r (upd_conn p (\<lambda>c. c\<lparr>last_heard := t\<rparr>) s) = good_input e p c r s"
proof -
  let ?f = "\<lambda>c. c\<lparr>last_heard := t\<rparr>"
  have "calm p (upd_conn p ?f s) = calm p s" by (auto simp: calm_def upd_conn_def client_def)
  then show ?thesis by (simp add: good_input_def good_byte_def last_byte_def split: rd_result.split)
qed

lemma disconnect_client:
  assumes inv: "server_inv s" and c: "conn_of s p = Inr c" and cl: "client c"
  shows "\<exists>s'. disconnect_conn e p s = Inr s' \<and> server_inv s'"
proof -
  note o = run_open [OF inv c]
  then have "releasable s c" "length (rs_header (c_out c)) = 8"
    using conn_ok_releasable [OF _ cl] by (simp_all add: conn_ok_def)
  with o show ?thesis using disconnect_ok [OF _ _ subset_refl] by blast
qed

lemma client_read:
  assumes inv: "server_inv s" and c: "conn_of s p = Inr c" and cl: "client c" and r: "req_of s (c_in c) = Inr r"
    and good: "good_input e p c r s" and e: "env_ok e"
  shows "\<exists>s'. rbind (try_read_request e p s) (\<lambda>(ret, s). if ret = READ_ERR then disconnect_conn e p s else Inr s) = Inr s' \<and>
    fine p s'"
proof -
  obtain ret s' where s': "try_read_request e p s = Inr (ret, s')" "if ret = READ_ERR then s' = s else fine p s'"
    using try_read_ok [OF assms] by (auto simp: read_fine_def)
  show ?thesis
  proof (cases "ret = READ_ERR")
    case True
    then show ?thesis using s' disconnect_client [OF inv c cl, of e] by (auto simp: fineI)
  qed (use s' in simp)
qed

lemma client_write:
  assumes inv: "server_inv s" and c: "conn_of s p = Inr c" and cl: "client c"
  shows "\<exists>s'. rbind (try_send_response e p s) (\<lambda>(ret, s). if ret = SEND_ERR then disconnect_conn e p s else Inr s) = Inr s' \<and>
    fine p s'"
proof -
  obtain ret s' where s': "try_send_response e p s = Inr (ret, s')" "if ret = SEND_ERR then s' = s else server_inv s'"
    using try_send_ok [OF assms, of e] unfolding write_fine_def by blast
  show ?thesis
  proof (cases "ret = SEND_ERR")
    case True
    then show ?thesis using s' disconnect_client [OF inv c cl, of e] by (auto simp: fineI)
  qed (use s' in \<open>simp add: fineI\<close>)
qed

lemma event_ok:
  assumes inv: "server_inv s" and good: "good_event e p ev s"
  shows "\<exists>s'. event_handler e p ev s = Inr s' \<and> fine p s'"
proof -
  obtain c where c: "conn_of s p = Inr c" and e: "env_ok e"
    using good by (auto simp: good_event_def split: sum.splits)
  show ?thesis
  proof (cases "c_state c = CONN_CLOSED")
    case True
    then show ?thesis using c inv by (simp add: event_handler_def fineI)
  next
    case open': False
    let ?f = "\<lambda>c. c\<lparr>last_heard := e_now e\<rparr>"
    let ?s = "upd_conn p ?f s"
    have inv': "server_inv ?s" and c': "conn_of ?s p = Inr (?f c)" by (rule heard_ok [OF inv c])+
    note ev = event_handler_def c open'
    show ?thesis
    proof (cases "c_listening c")
      case True
      then have r: "ev = EVENT_READ" and cm: "clean_mem e" using good c open' by (simp_all add: good_event_def)
      obtain s' where "accept_conn e ?s = Inr s'" "server_inv s'" using accept_ok [OF inv' cm] by blast
      then show ?thesis using True r by (simp add: ev fineI)
    next
      case False
      have "conn_ok s c" using run_open [OF inv c] by simp
      then have "\<not> c_free c" using open' by (auto simp: conn_ok_def)
      then have cl: "client (?f c)" using False by (simp add: client_def)
      show ?thesis
      proof (cases ev)
        case EVENT_READ
        then obtain r where r: "req_of s (c_in c) = Inr r" "good_input e p c r s"
          using good c open' False by (auto simp: good_event_def split: sum.splits)
        have "req_of ?s (c_in (?f c)) = Inr r" using r(1) by (simp add: req_of_iff)
        moreover have "good_input e p (?f c) r ?s" using r(2) good_input_heard [of e p "e_now e" c r s] by simp
        ultimately have g: "req_of ?s (c_in (?f c)) = Inr r" "good_input e p (?f c) r ?s" by blast+
        from client_read [OF inv' c' cl g e] show ?thesis using EVENT_READ False by (simp add: ev)
      next
        case EVENT_WRITE
        then show ?thesis using client_write [OF inv' c' cl] False by (simp add: ev)
      qed
    qed
  qed
qed

subsection \<open>Idle connections\<close>

lemma conn_of_other: "conns_upd p s s' \<Longrightarrow> q \<noteq> p \<Longrightarrow> conn_of s' q = conn_of s q"
  using find_map_other [of p _ q "sv_conns s"] by (auto simp: conns_upd_def conn_of_def)

lemma conn_of_upd_ex: "conns_upd p s s' \<Longrightarrow> conn_of s p = Inr c \<Longrightarrow> \<exists>c'. conn_of s' p = Inr c'"
  using find_map_addr [of p _ "sv_conns s"] by (auto simp: conns_upd_def conn_of_def split: option.splits)

definition idle_now :: "env \<Rightarrow> server \<Rightarrow> conn \<Rightarrow> bool" where
  "idle_now e s c \<longleftrightarrow> idle_conn_timeout (sv_settings s) < elapsed (e_now e) (last_heard c)"

text \<open>The connections that are closed: the idle ones before the first free or listening one.\<close>

definition closed_by :: "env \<Rightarrow> server \<Rightarrow> conn list \<Rightarrow> ptr set" where
  "closed_by e s cs = c_addr ` {c \<in> set (takeWhile (\<lambda>c. \<not> c_free c \<and> \<not> c_listening c) cs). idle_now e s c}"

definition closed_only :: "ptr set \<Rightarrow> server \<Rightarrow> server \<Rightarrow> bool" where
  "closed_only P s s' \<longleftrightarrow> (\<forall>p c. conn_of s p = Inr c \<longrightarrow>
     (\<exists>c'. conn_of s' p = Inr c' \<and> (if p \<in> P then c_free c' \<and> c_state c' = CONN_CLOSED else c' = c)))"

lemma closed_onlyD: "closed_only P s s' \<Longrightarrow> conn_of s p = Inr c \<Longrightarrow>
    \<exists>c'. conn_of s' p = Inr c' \<and> (if p \<in> P then c_free c' \<and> c_state c' = CONN_CLOSED else c' = c)"
  by (simp add: closed_only_def)

lemma closed_by_Cons:
  "closed_by e s (c # cs) = (if c_free c \<or> c_listening c then {}
     else (if idle_now e s c then {c_addr c} else {}) \<union> closed_by e s cs)"
  by (auto simp: closed_by_def)

lemma idle_ok:
  assumes "server_inv s" and "\<And>c. c \<in> set cs \<Longrightarrow> conn_of s (c_addr c) = Inr c" and "distinct (map c_addr cs)"
  shows "\<exists>s'. idle_loop e (map c_addr cs) s = Inr s' \<and> server_inv s' \<and> closed_only (closed_by e s cs) s s'"
  using assms
proof (induction cs arbitrary: s)
  case Nil
  then show ?case by (simp add: closed_only_def closed_by_def)
next
  case (Cons c cs)
  let ?p = "c_addr c"
  have c: "conn_of s ?p = Inr c" using Cons.prems(2) by simp
  have notin: "?p \<notin> closed_by e t cs" for t
    using Cons.prems(3) by (auto simp: closed_by_def dest: set_takeWhileD)
  show ?case
  proof (cases "c_free c \<or> c_listening c")
    case True
    then show ?thesis using c Cons.prems(1) by (simp add: closed_by_Cons closed_only_def)
  next
    case act: False
    show ?thesis
    proof (cases "idle_now e s c")
      case True
      have cl: "client c" using act by (simp add: client_def)
      obtain s1 where s1: "disconnect_conn e ?p s = Inr s1" "server_inv s1"
        using disconnect_client [OF Cons.prems(1) c cl] by blast
      note o = disconnect_only(1) [OF s1(1), unfolded only_conn_def]
      have u: "conns_upd ?p s s1" using o by simp
      have oth: "conn_of s1 q = conn_of s q" if "q \<noteq> ?p" for q by (rule conn_of_other [OF u that])
      have "conn_of s1 (c_addr d) = Inr d" if "d \<in> set cs" for d
      proof -
        have "c_addr d \<noteq> ?p" using Cons.prems(3) imageI [OF that, of c_addr] by auto
        then show ?thesis using oth Cons.prems(2) that by simp
      qed
      then obtain s' where s': "idle_loop e (map c_addr cs) s1 = Inr s'" "server_inv s'"
        "closed_only (closed_by e s1 cs) s1 s'" using Cons.IH [OF s1(2)] Cons.prems(3) by auto
      have cb: "closed_by e s1 cs = closed_by e s cs" using o by (simp add: closed_by_def idle_now_def)
      obtain c1 where c1: "conn_of s1 ?p = Inr c1" using conn_of_upd_ex [OF u c] by blast
      have "closed_only (closed_by e s (c # cs)) s s'"
        unfolding closed_only_def
      proof (intro allI impI)
        fix q d assume d: "conn_of s q = Inr d"
        show "\<exists>c'. conn_of s' q = Inr c' \<and> (if q \<in> closed_by e s (c # cs) then c_free c' \<and> c_state c' = CONN_CLOSED else c' = d)"
        proof (cases "q = ?p")
          case q: True
          then have "conn_of s' q = Inr c1" using closed_onlyD [OF s'(3) c1] notin [of s1] by simp
          then show ?thesis using disconnect_only(2) [OF s1(1) c1] act True q by (simp add: closed_by_Cons)
        next
          case False
          then have "conn_of s1 q = Inr d" using oth d by simp
          from closed_onlyD [OF s'(3) this] show ?thesis using False act True unfolding cb by (simp add: closed_by_Cons)
        qed
      qed
      then show ?thesis using s'(1,2) s1(1) c act True by (simp add: idle_now_def)
    next
      case False
      obtain s' where s': "idle_loop e (map c_addr cs) s = Inr s'" "server_inv s'" "closed_only (closed_by e s cs) s s'"
        using Cons.IH [OF Cons.prems(1)] Cons.prems(2,3) by auto
      moreover have "closed_by e s (c # cs) = closed_by e s cs" using act False by (simp add: closed_by_Cons)
      ultimately show ?thesis using c act False by (simp add: idle_now_def)
    qed
  qed
qed

lemma idle_conns_ok:
  assumes "server_inv s"
  shows "\<exists>s'. disconnect_idle_conns e s = Inr s' \<and> server_inv s' \<and> closed_only (closed_by e s (sv_conns s)) s s'"
  unfolding disconnect_idle_conns_def
  using assms conn_of_mem [of s] by (intro idle_ok) (auto simp: server_inv_def dest: inv_xD(4))

subsection \<open>Startup\<close>

lemma inv_start:
  assumes tab: "htab_inv slab_inv slab_live (sv_cache s, sv_mem s)" and e: "hview (sv_cache s) = Map.empty"
    and fv: "fvals (items (sv_cache s)) \<subseteq> {0}"
    and ds: "\<And>d. d \<in> set (sv_conns s) \<Longrightarrow> c_listening d \<and> \<not> c_free d \<and> length (rs_header (c_out d)) = 8 \<and> out_blks d = {}"
    and ad: "distinct (map c_addr (sv_conns s))" "addrs s \<subseteq> slab_live (sv_mem s) - set (owned (sv_cache s))"
  shows "server_inv s"
proof -
  have v: "vals s = {}" by (simp add: vals_def e)
  have f: "foot s (conn_at s q) = {}" if "q \<in> addrs s" for q
    using ds conn_at_mem [OF that] by (simp add: foot_def holds_def client_def)
  have "set (owned (sv_cache s)) \<subseteq> slab_live (sv_mem s)" using tab by (simp add: htab_inv_def holds_blocks_def)
  moreover have "(if q = 0 then {} else foot s (conn_at s q)) = {}" if "q \<in> addrs s" for q using f [OF that] by simp
  ultimately have "sep 0 {} s"
    using ad(2) by (auto simp: sep_def disj_fam_def owners_def v)
  moreover have "conn_ok s d" if "d \<in> set (sv_conns s)" for d using ds [OF that] by (simp add: conn_ok_def client_def)
  ultimately show ?thesis using tab e fv ad(1) v by (simp add: server_inv_def inv_x_def)
qed

lemma init_done_inv:
  assumes d: "init_done limit n h sl" and n: "0 < n" "n < 4096"
  shows "slab_ok sl \<and> std_classes sl \<and> live_addrs (the (cm sl)) = {}"
proof -
  obtain c where c: "cm sl = Some c" "fresh_cm c n" "sl_mem_used (slab_stats sl) = 0"
    "sl_mem_mallocd (slab_stats sl) = n * (SLAB_SIZE + 6592) + 1968"
    using d by (auto simp: init_done_def)
  note f = fresh_cm_ok [OF c(2) n]
  have l: "length (slab_ctls c) = n" "caches c = init_caches SLAB_SIZE_FACTOR"
    using c(2) by (simp_all add: fresh_cm_def)
  have "slab_ok sl"
    unfolding slab_ok_def
    by (rule exI [of _ c], rule exI, rule exI, intro conjI, rule c(1), rule f(1))
      (use c f(3) l(1) n in \<open>simp_all add: SLAB_SIZE_def\<close>)
  moreover have "std_classes sl" using c(1) l(2) by (simp add: std_classes_def)
  moreover have "live_addrs (the (cm sl)) = {}" using f(2) c(1) by (simp add: live_addrs_def)
  ultimately show ?thesis by blast
qed

lemma choose_allocator_ok:
  assumes mf: "malloc_ok mf" and lim: "0 < avail div 1024 div 1024" "avail div 1024 div 1024 \<le> 4096"
  shows "\<exists>m. choose_allocator mf avail slab_start_state = Inr m \<and>
    (\<not> use_sys_malloc m \<longrightarrow> slab_inv m \<and> slab_live m = {})"
proof -
  let ?n = "slabctl_count_for (avail div 1024 div 1024 * 1024 * 1024) 1952"
  consider (good) sl where "init_cache_manager mf (avail div 1024 div 1024) SLAB_SIZE_FACTOR slab_start_state = Inr (True, sl)"
      "1 < ?n" "init_done (avail div 1024 div 1024) ?n [] sl"
    | (failed) sl where "init_cache_manager mf (avail div 1024 div 1024) SLAB_SIZE_FACTOR slab_start_state = Inr (False, sl)"
    using init_cases [OF mf lim, of "[]"] unfolding slab_start_state_def by blast
  then show ?thesis
  proof cases
    case good
    have "?n < 4096" using slabctl_count_bound [OF lim, unfolded sizeof_slab_ctl_eq] good(2) by simp
    then have "slab_ok sl \<and> std_classes sl \<and> live_addrs (the (cm sl)) = {}" using init_done_inv [OF good(3)] good(2) by simp
    then show ?thesis using good(1) by (simp add: choose_allocator_def slab_inv_def slab_live_def)
  next
    case failed
    then show ?thesis by (simp add: choose_allocator_def)
  qed
qed

text \<open>The listening socket, before there is a cache.\<close>

lemma listen_ok:
  assumes inv: "slab_inv (sv_mem s)" and none: "sv_conns s = []" and cm: "clean_mem e"
  shows "\<exists>ok s'. init_server_socket e k s = Inr (ok, s') \<and> (ok \<longrightarrow> slab_inv (sv_mem s') \<and>
    (\<exists>d. sv_conns s' = [d] \<and> c_listening d \<and> \<not> c_free d \<and> length (rs_header (c_out d)) = 8 \<and> out_blks d = {} \<and>
      c_addr d \<in> slab_live (sv_mem s')))"
proof (cases "k_socket k")
  case None
  then show ?thesis by (intro exI [of _ False]) (simp add: init_server_socket_def)
next
  case (Some fd)
  note sock = init_server_socket_def [of e k s] Some
  show ?thesis
  proof (cases "k_bind k \<and> k_listen k")
    case False
    then show ?thesis by (intro exI [of _ False]) (auto simp: sock)
  next
    case up: True
    show ?thesis
      using inv
    proof (cases rule: slab_alloc.malloc_cases [where n = sizeof_conn and mf = "e_malloc e"])
      case none
      then have "make_conn e fd s = Inr (0, s)" using \<open>sv_conns s = []\<close> by (simp add: make_conn_def s_malloc_def)
      then show ?thesis using up by (intro exI [of _ False]) (simp add: sock)
    next
      case (some a m)
      let ?g = "\<lambda>t. t\<lparr>curr_connections := u64 (curr_connections t + 1)\<rparr>"
      let ?d = "(init_conn e fd (raw_conn e a))\<lparr>c_listening := True\<rparr>"
      let ?s1 = "upd_stats ?g (upd_conn a (init_conn e fd) (s\<lparr>sv_mem := m, sv_conns := [raw_conn e a]\<rparr>))"
      let ?s2 = "upd_conn a (\<lambda>c. c\<lparr>c_listening := True\<rparr>) ?s1"
      have mk: "make_conn e fd s = Inr (a, ?s1)"
        using none some(1,3) by (simp add: make_conn_def s_malloc_def)
      have cs: "sv_conns ?s2 = [?d]" by (simp add: upd_conn_def raw_conn_def init_conn_def)
      have co: "conn_of ?s2 a = Inr ?d" using cs by (simp add: conn_of_def raw_conn_def init_conn_def)
      obtain W where W: "snd (event_set e ?d EVENT_READ ?s2) = ?s2\<lparr>sv_watch := W\<rparr>" using event_set_watch by blast
      have "init_server_socket e k s = Inr (True, ?s2\<lparr>sv_watch := W\<rparr>)"
        using up mk some(3) co W by (simp add: sock Let_def)
      moreover have "c_listening ?d \<and> \<not> c_free ?d \<and> length (rs_header (c_out ?d)) = 8 \<and> c_addr ?d \<in> slab_live m"
        using some(5) by (simp add: raw_conn_def init_conn_def)
      moreover have "out_blks ?d = {}" using cm by (simp add: raw_conn_def init_conn_def out_blks_def clean_mem_def)
      ultimately show ?thesis using some(2) cs by auto
    qed
  qed
qed

lemma main_init_ok:
  assumes mf: "malloc_ok (e_malloc e)" and cm: "clean_mem e"
    and os: "parse_opts os (fst (init_settings debug)) (fst (snd (init_settings debug))) = Inr (Some (st, avail))"
    and lim: "0 < avail div 1024 div 1024" "avail div 1024 div 1024 \<le> 4096"
    and slab: "\<And>m. choose_allocator (e_malloc e) avail slab_start_state = Inr m \<Longrightarrow> \<not> use_sys_malloc m"
  shows "\<exists>r. main_init e k debug os = Inr r \<and>
    (case r of None \<Rightarrow> True | Some s \<Rightarrow> server_inv s \<and> hview (sv_cache s) = Map.empty)"
proof -
  obtain m where m: "choose_allocator (e_malloc e) avail slab_start_state = Inr m" "slab_inv m"
    using choose_allocator_ok [OF mf lim] slab by blast
  let ?s = "\<lparr>sv_mem = m, sv_reqs = Map.empty, sv_bufs = Map.empty, sv_conns = [], sv_cache = null_cache,
    sv_settings = st, sv_stats = init_stats e, sv_watch = Map.empty, sv_sent = [], sv_closed = []\<rparr>"
  have "\<exists>ok s'. init_server_socket e k ?s = Inr (ok, s') \<and> (ok \<longrightarrow> slab_inv (sv_mem s') \<and>
    (\<exists>d. sv_conns s' = [d] \<and> c_listening d \<and> \<not> c_free d \<and> length (rs_header (c_out d)) = 8 \<and> out_blks d = {} \<and>
      c_addr d \<in> slab_live (sv_mem s')))"
    by (rule listen_ok [OF _ _ cm]) (simp_all add: m(2))
  then obtain ok s' where s': "init_server_socket e k ?s = Inr (ok, s')"
    "ok \<longrightarrow> slab_inv (sv_mem s') \<and> (\<exists>d. sv_conns s' = [d] \<and> c_listening d \<and> \<not> c_free d \<and>
      length (rs_header (c_out d)) = 8 \<and> out_blks d = {} \<and> c_addr d \<in> slab_live (sv_mem s'))"
    by blast
  have main: "main_init e k debug os = (if \<not> k_epoll k \<or> \<not> ok then Inr None
      else rbind (htcreate (li_malloc (e_malloc e)) li_free 4 (sv_mem s')) (\<lambda>(t, m).
        case t of None \<Rightarrow> Inr None | Some ht \<Rightarrow> Inr (Some (s'\<lparr>sv_cache := ht, sv_mem := m\<rparr>))))"
    using os m(1) s'(1) by (simp add: main_init_def init_settings_def)
  show ?thesis
  proof (cases "k_epoll k \<and> ok")
    case False
    then show ?thesis by (intro exI [of _ None]) (auto simp: main)
  next
    case True
    with s'(2) obtain d where d: "slab_inv (sv_mem s')" "sv_conns s' = [d]" "c_listening d" "\<not> c_free d"
      "length (rs_header (c_out d)) = 8" "out_blks d = {}" "c_addr d \<in> slab_live (sv_mem s')" by blast
    have "(4::nat) \<le> 18" by simp
    note hc = slab_alloc.htcreate_ok [OF d(1) this, of "e_malloc e"]
    obtain t m' where t: "htcreate (li_malloc (e_malloc e)) li_free 4 (sv_mem s') = Inr (t, m')" using hc by blast
    show ?thesis
    proof (cases t)
      case None
      then show ?thesis using True t by (simp add: main)
    next
      case (Some ht)
      let ?f = "s'\<lparr>sv_cache := ht, sv_mem := m'\<rparr>"
      have h: "htab_inv slab_inv slab_live (ht, m') \<and> hview ht = Map.empty \<and> fvals (items ht) = {} \<and>
          slab_live (sv_mem s') \<subseteq> slab_live m' - set (owned ht)"
        by (rule slab_alloc.htcreate_inv [OF d(1)]) (use t Some in auto)
      have "server_inv ?f"
      proof (rule inv_start)
        show "addrs ?f \<subseteq> slab_live (sv_mem ?f) - set (owned (sv_cache ?f))" using h d(2,7) by (auto simp: addrs_def)
      qed (use h d(2-6) in auto)
      then show ?thesis using True t Some h by (simp add: main)
    qed
  qed
qed

end
