(* ===== verification/Server_Sample.thy ===== *)
theory Server_Sample
  imports Server_Safe
begin

text \<open>
  A server to evaluate at: the slab allocator has room for a few more blocks, one client is
  connected and waits for a request.
\<close>

subsection \<open>Room for more blocks\<close>

definition spare :: "nat \<Rightarrow> memst \<Rightarrow> bool" where
  "spare k m \<longleftrightarrow> slab_inv m \<and>
     (\<exists>c. cm (slabst m) = Some c \<and> finite (chunks c) \<and> card (chunks c) + k \<le> length (slab_ctls c))"

lemma room_card:
  assumes ok: "cm_ok c own loc" and f: "finite (chunks c)" and n: "card (chunks c) < length (slab_ctls c)"
  shows "has_room c k"
proof -
  have "card (fst ` chunks c) \<le> card (chunks c)" using f by (rule card_image_le)
  then have "\<not> {..<length (slab_ctls c)} \<subseteq> fst ` chunks c"
    using n f card_mono [of "fst ` chunks c" "{..<length (slab_ctls c)}"] by auto
  then obtain i where i: "i < length (slab_ctls c)" "i \<notin> fst ` chunks c" by blast
  then have "(i, b) \<notin> chunks c" for b by force
  with i(1) show ?thesis by (intro empty_slab_room [OF ok])
qed

lemma spare_malloc:
  assumes sp: "spare (Suc k) m" and n: "0 < n" "n \<le> largest_chunk"
  shows "\<exists>a m'. li_malloc mf n m = Inr (Some a, m') \<and> spare k m'"
proof -
  obtain c where c: "cm (slabst m) = Some c" "finite (chunks c)" "card (chunks c) + Suc k \<le> length (slab_ctls c)"
    and inv: "slab_inv m" using sp by (auto simp: spare_def)
  have st: "slab_ok (slabst m)" and std: "std_classes (slabst m)" and sys: "\<not> use_sys_malloc m"
    using inv by (simp_all add: slab_inv_def)
  obtain own loc where ok: "cm_ok c own loc" using st c(1) by (rule slab_okE)
  have room: "has_room c k" for k using room_card [OF ok c(2)] c(3) by simp
  have n': "n \<le> chunk_size (last (caches c))" using std_last [OF std c(1)] n(2) by simp
  have "\<exists>y c' s'. scmalloc n (slabst m) = Inr (Some (chunk_addr c' y), s') \<and> cm s' = Some c' \<and> slab_ok s' \<and>
      alloc_step c y c'"
    using st c(1) by (cases rule: scmalloc_cases [where n = n]) (use n' room in auto)
  then obtain y c' s' where s': "scmalloc n (slabst m) = Inr (Some (chunk_addr c' y), s')" "cm s' = Some c'" "slab_ok s'"
    "alloc_step c y c'" by blast
  have lay: "same_layout c c'" "chunks c' = insert y (chunks c)" using s'(4) by (simp_all add: alloc_step_def)
  have "length (slab_ctls c') = length (slab_ctls c)" using lay(1) by (simp add: same_layout_def)
  moreover have "card (chunks c') \<le> Suc (card (chunks c))" using lay(2) c(2) by (simp add: card_insert_if)
  moreover have "std_classes s'" by (rule std_classes_step [OF std c(1) lay(1) s'(2)])
  ultimately have "spare k (m\<lparr>slabst := s'\<rparr>)"
    using s' lay(2) c(2,3) sys by (simp add: spare_def slab_inv_def)
  moreover have "li_malloc mf n m = Inr (Some (chunk_addr c' y), m\<lparr>slabst := s'\<rparr>)"
    using li_malloc_slab [OF sys _ s'(1)] n(1) by simp
  ultimately show ?thesis by blast
qed

lemma spare_sample: "spare 63 sample_mem"
proof -
  have "chunks sample_cm = {}" using fresh_cm_ok(2) [OF sample_fresh] by simp
  moreover have "length (slab_ctls sample_cm) = 63" by (simp add: sample_cm_def)
  ultimately show ?thesis using sample_mem_inv by (simp add: spare_def sample_mem_def)
qed

lemma spare_table:
  obtains ht m where "htab_inv slab_inv slab_live (ht, m)" and "hview ht = Map.empty" and "fvals (items ht) = {}"
    and "spare 61 m"
proof -
  have "spare (Suc 62) sample_mem" using spare_sample by simp
  then obtain a m1 where 1: "li_malloc bump_malloc sizeof_htab sample_mem = Inr (Some a, m1)" "spare 62 m1"
    using spare_malloc [of 62 sample_mem sizeof_htab bump_malloc] by (auto simp: sizeof_htab_def largest_chunk_def)
  then have "spare (Suc 61) m1" by simp
  then obtain b m2 where 2: "li_malloc bump_malloc (HSIZE 4 * 8) m1 = Inr (Some b, m2)" "spare 61 m2"
    using spare_malloc [of 61 m1 "HSIZE 4 * 8" bump_malloc] by (auto simp: HSIZE_def largest_chunk_def)
  obtain ht where h: "htcreate (li_malloc bump_malloc) li_free 4 sample_mem = Inr (Some ht, m2)"
    using 1(1) 2(1) by (simp add: htcreate_def)
  with slab_alloc.htcreate_inv [OF sample_mem_inv _ h] that 2(2) show thesis by auto
qed

subsection \<open>A server with one client\<close>

lemma client_at:
  assumes inv: "server_inv s0" and none: "hview (sv_cache s0) = Map.empty" and sp: "spare (Suc (Suc k)) (sv_mem s0)"
  obtains s p F c r where "at_req p F c r s" and "reading s c r" and "c_state c = READ_HEADER" and "rbytes r = 0"
    and "rkey r = 0" and "rdata r = 0" and "rextra r = 0" and "spare k (sv_mem s)"
    and "sv_cache s = sv_cache s0" and "sv_conns s = c # sv_conns s0" and "c_fd c = 5" and "sv_settings s = sv_settings s0"
proof -
  let ?e = sample_env
  obtain a m1 where a: "li_malloc bump_malloc sizeof_conn (sv_mem s0) = Inr (Some a, m1)" "spare (Suc k) m1"
    using spare_malloc [OF sp, of sizeof_conn bump_malloc] by (auto simp: sizeof_conn_def largest_chunk_def)
  have i0: "slab_inv (sv_mem s0)" using inv_xD(8) inv by (simp add: server_inv_def)
  have "slab_inv m1 \<and> a \<notin> slab_live (sv_mem s0) \<and> slab_live m1 = insert a (slab_live (sv_mem s0))"
    using i0 by (cases rule: slab_alloc.malloc_cases [where n = sizeof_conn and mf = bump_malloc])
      (use a(1) in simp_all)
  then have a': "slab_inv m1" "a \<notin> slab_live (sv_mem s0)" "slab_live m1 = insert a (slab_live (sv_mem s0))" by blast+
  let ?d = "init_conn ?e 5 (zero_conn\<lparr>c_addr := a\<rparr>)"
  let ?s1 = "s0\<lparr>sv_mem := m1, sv_conns := ?d # sv_conns s0\<rparr>"
  have r1: "run a {} ?d ?s1"
    by (rule inv_new_conn [OF inv a'(1)]) (use a' in \<open>auto simp: zero_conn_def\<close>)
  obtain b m2 where b: "li_malloc bump_malloc sizeof_request m1 = Inr (Some b, m2)" "spare k m2"
    using spare_malloc [OF a(2), of sizeof_request bump_malloc] by (auto simp: sizeof_request_def largest_chunk_def)
  have em: "e_malloc ?e = bump_malloc" by (simp add: sample_env_def)
  have sm: "s_malloc ?e sizeof_request ?s1 = Inr (b, ?s1\<lparr>sv_mem := m2\<rparr>)" using b(1) by (simp add: s_malloc_def em)
  have nz: "b \<noteq> 0"
  proof -
    have "slab_inv m1" by (rule a'(1))
    then show ?thesis by (cases rule: slab_alloc.malloc_cases [where n = sizeof_request and mf = bump_malloc])
      (use b(1) in simp_all)
  qed
  have "b \<noteq> 0 \<and> run a {b} ?d (?s1\<lparr>sv_mem := m2\<rparr>)"
    using r1
  proof (cases rule: run_malloc [where e = ?e and n = sizeof_request])
    case none
    then show ?thesis using sm nz by simp
  next
    case (some x m)
    then have "x = b" "m = m2" using sm by (auto dest!: arg_cong [where f = sv_mem])
    then show ?thesis using some nz by simp
  qed
  then have b': "b \<noteq> 0" "run a {b} ?d (?s1\<lparr>sv_mem := m2\<rparr>)" by blast+
  let ?q = "fresh_request ?e b"
  let ?s2 = "?s1\<lparr>sv_mem := m2, sv_reqs := (sv_reqs s0)(b := Some ?q)\<rparr>"
  let ?f = "\<lambda>c. c\<lparr>c_in := b, c_out := (c_out c)\<lparr>rs_can_free := True\<rparr>\<rparr>"
  have r2: "run a {b} ?d ?s2" using run_reqs(1) [OF b'(2), of b "Some ?q"] by simp
  have r3: "run a {b} (?f ?d) (upd_conn a ?f ?s2)" by (rule run_upd_conn [OF r2]) simp
  have v: "vals (upd_conn a ?f ?s2) = {}" using none by (simp add: vals_def)
  have "a \<notin> addrs s0"
    using disj_famD(1) [OF inv_xD(5) [of 0 "{}" s0], of "O_conn a"] inv a'(2) by (auto simp: server_inv_def)
  then have cs: "sv_conns (upd_conn a ?f ?s2) = ?f ?d # sv_conns s0"
    by (auto simp: upd_conn_def addrs_def zero_conn_def init_conn_def intro!: map_idI)
  show thesis
  proof (rule that [of a "{b}" "?f ?d" ?q "upd_conn a ?f ?s2"])
    show "at_req a {b} (?f ?d) ?q (upd_conn a ?f ?s2)"
      unfolding at_req_def using r3 v b'(1)
      by (simp add: has_req_def req_ok_def fresh_request_def client_def init_conn_def zero_conn_def req_blks_def
          sizeof_req_header_def)
    show "reading (upd_conn a ?f ?s2) (?f ?d) ?q"
      by (simp add: reading_def fresh_request_def init_conn_def zero_conn_def)
  qed (use b(2) cs in \<open>simp_all add: init_conn_def zero_conn_def fresh_request_def\<close>)
qed

lemma sample_server:
  obtains s p F c r where "server_inv s" and "at_req p F c r s" and "reading s c r" and "c_state c = READ_HEADER"
    and "rbytes r = 0" and "rkey r = 0" and "rdata r = 0" and "rextra r = 0" and "hview (sv_cache s) = Map.empty"
    and "sv_conns s = [c]" and "spare 59 (sv_mem s)" and "conn_of s p = Inr c" and "req_of s (c_in c) = Inr r"
    and "sv_settings s = sv_settings (start_server (sv_cache s) (sv_mem s))"
proof -
  obtain ht m where h: "htab_inv slab_inv slab_live (ht, m)" "hview ht = Map.empty" "fvals (items ht) = {}" "spare 61 m"
    by (rule spare_table)
  let ?s = "start_server ht m"
  have inv: "server_inv ?s" by (rule inv_start) (use h in \<open>simp_all add: start_server_def addrs_def\<close>)
  have c: "sv_cache ?s = ht" "sv_conns ?s = []" "sv_mem ?s = m" by (simp_all add: start_server_def)
  obtain s p F c r where s: "at_req p F c r s" "reading s c r" "c_state c = READ_HEADER" "rbytes r = 0"
    "rkey r = 0" "rdata r = 0" "rextra r = 0" "spare 59 (sv_mem s)" "sv_cache s = ht" "sv_conns s = [c]"
    "sv_settings s = sv_settings ?s"
    by (rule client_at [OF inv, of 59]) (use h c in simp_all)
  have "sv_settings s = sv_settings (start_server (sv_cache s) (sv_mem s))" using s(11) by (simp add: start_server_def)
  with that [OF reading_close [OF s(1,2)] s(1-7) _ s(10,8) run_conn [OF at_reqD(1) [OF s(1)]] req_ok_of [OF at_reqD(9) [OF s(1)]]]
  show thesis using h(2) s(9) by simp
qed

end
