(* ===== verification/Server_Props.thy ===== *)
theory Server_Props
  imports Server_Sample
begin

text \<open>
  The properties of the server: no event of a well-behaved client makes it fault, the commands
  are those of an abstract cache, idle connections are closed, and the faults outside the
  well-behaved input.
\<close>

subsection \<open>Events\<close>

lemma sample_env_simps [simp]:
  "env_ok (sample_env\<lparr>e_rd := x\<rparr>)" "clean_mem (sample_env\<lparr>e_rd := x\<rparr>)" "env_ok sample_env" "clean_mem sample_env"
  "env_ok (sample_env\<lparr>e_wr := y\<rparr>)"
  by (simp_all add: env_ok_def clean_mem_def sample_env_def zero_conn_def)

text \<open>
  C1: from a consistent state every well-behaved event is handled without a fault: no access
  to a freed block, past the end of a buffer or through NULL, no failed assert. Afterwards the
  state is consistent again, unless the event was the last byte of a \<open>CMD_SET\<close> that is answered
  with \<open>OUT_OF_MEMORY\<close>. Consistent: every block has one owner among the hash table, the
  connections, the cached requests and what the connections have in hand, and the state of each
  connection fits its buffers and counters.
\<close>

theorem event_safe:
  assumes "server_inv s" and "good_event e p ev s"
  shows "\<exists>s'. event_handler e p ev s = Inr s' \<and> (server_inv s' \<or> set_refused p s')"
  using event_ok [OF assms] by (simp add: fine_def)

theorem event_safe_witness:
  "\<exists>s p s'. server_inv s \<and> good_event (sample_env\<lparr>e_rd := Rd_byte 7\<rparr>) p EVENT_READ s \<and>
     event_handler (sample_env\<lparr>e_rd := Rd_byte 7\<rparr>) p EVENT_READ s = Inr s'"
proof -
  obtain s p F c r where s: "server_inv s" "at_req p F c r s" "c_state c = READ_HEADER" "rbytes r = 0"
    "conn_of s p = Inr c" "req_of s (c_in c) = Inr r"
    by (rule sample_server)
  have "\<not> c_listening c" using at_reqD(2) [OF s(2)] by (simp add: client_def)
  then have g: "good_event (sample_env\<lparr>e_rd := Rd_byte 7\<rparr>) p EVENT_READ s"
    using s by (simp add: good_event_def good_input_def good_byte_def last_byte_def)
  show ?thesis using event_safe [OF s(1) g] s(1) g by blast
qed

text \<open>What the server can reach by well-behaved events and clean-ups of idle connections.\<close>

inductive serves :: "server \<Rightarrow> server \<Rightarrow> bool" for s0 where
  start: "serves s0 s0"
| event: "serves s0 s \<Longrightarrow> good_event e p ev s \<Longrightarrow> event_handler e p ev s = Inr s' \<Longrightarrow> \<not> set_refused p s' \<Longrightarrow> serves s0 s'"
| idle: "serves s0 s \<Longrightarrow> disconnect_idle_conns e s = Inr s' \<Longrightarrow> serves s0 s'"

lemma serves_inv:
  assumes "serves s0 s" and "server_inv s0"
  shows "server_inv s"
  using assms
proof (induction rule: serves.induct)
  case (event s e p ev s')
  then show ?case using event_ok [of s e p ev] by (auto simp: fine_def)
next
  case (idle s e s')
  then show ?case using idle_conns_ok [of s e] by auto
qed

text \<open>
  C5: the same along every run. What the server can reach from a consistent state by
  well-behaved events and clean-ups of idle connections is consistent, and there every such
  event and the next clean-up succeed.
\<close>

theorem runs_stay_safe:
  assumes "server_inv s0" and "serves s0 s"
  shows "server_inv s \<and> (\<forall>e p ev. good_event e p ev s \<longrightarrow> (\<exists>s'. event_handler e p ev s = Inr s')) \<and>
    (\<forall>e. \<exists>s'. disconnect_idle_conns e s = Inr s')"
proof -
  have inv: "server_inv s" by (rule serves_inv [OF assms(2,1)])
  then show ?thesis using event_ok [OF inv] idle_conns_ok [OF inv] by blast
qed

theorem runs_stay_safe_witness:
  "\<exists>s0 s s'. serves s0 s \<and> server_inv s0 \<and> disconnect_idle_conns sample_env s = Inr s'"
proof -
  obtain s p F c r where s: "server_inv s" by (rule sample_server)
  obtain s1 where "disconnect_idle_conns sample_env s = Inr s1" using idle_conns_ok [OF s] by blast
  then have r: "serves s s1" by (rule serves.idle [OF serves.start])
  with runs_stay_safe [OF s r] s show ?thesis by blast
qed


lemma bump_choose:
  assumes "choose_allocator bump_malloc 67108864 slab_start_state = Inr m"
  shows "\<not> use_sys_malloc m"
proof -
  have "slabctl_count_for 67108864 1952 = 63"
    by (simp add: slabctl_count_for_def sub64_id SLAB_SIZE_def sizeof_slab_ctl_eq)
  then show ?thesis using assms
    by (auto simp: choose_allocator_def slab_start_state_def init_cache_manager_def slab_start_def malloci_def
        bump_malloc_def Let_def sizeof_cache_manager_def sizeof_cache_def cache_count_125 sizeof_slab_ctl_eq SLAB_SIZE_def)
qed


subsection \<open>Idle connections\<close>

text \<open>
  C8: \<open>disconnect_idle_conns\<close> never faults and keeps the state consistent. It closes exactly
  the connections that were silent for longer than the timeout and stand in the list before
  the first free or listening connection, and leaves every other one as it is: behind that
  connection nothing is ever closed.
\<close>

theorem idle_closes_prefix:
  assumes "server_inv s"
  shows "\<exists>s'. disconnect_idle_conns e s = Inr s' \<and> server_inv s' \<and>
    (\<forall>p c. conn_of s p = Inr c \<longrightarrow>
      (\<exists>c'. conn_of s' p = Inr c' \<and>
        (if p \<in> c_addr ` {c \<in> set (takeWhile (\<lambda>c. \<not> c_free c \<and> \<not> c_listening c) (sv_conns s)).
               idle_conn_timeout (sv_settings s) < elapsed (e_now e) (last_heard c)}
         then c_free c' \<and> c_state c' = CONN_CLOSED else c' = c)))"
  using idle_conns_ok [OF assms, of e] by (simp add: closed_only_def closed_by_def idle_now_def)

theorem idle_closes_prefix_witness:
  "\<exists>s p s' c'. server_inv s \<and> disconnect_idle_conns (sample_env\<lparr>e_now := 5000\<rparr>) s = Inr s' \<and>
     conn_of s' p = Inr c' \<and> c_state c' = CONN_CLOSED"
proof -
  let ?e = "sample_env\<lparr>e_now := 5000\<rparr>"
  obtain s0 p F c r where s0: "server_inv s0" "at_req p F c r s0" "sv_conns s0 = [c]" "conn_of s0 p = Inr c"
    "sv_settings s0 = sv_settings (start_server (sv_cache s0) (sv_mem s0))"
    by (rule sample_server)
  let ?s = "upd_conn p (\<lambda>c. c\<lparr>last_heard := 1000\<rparr>) s0"
  have s: "server_inv ?s" "conn_of ?s p = Inr (c\<lparr>last_heard := 1000\<rparr>)" by (rule heard_ok [OF s0(1,4)])+
  have cs: "sv_conns ?s = [c\<lparr>last_heard := 1000\<rparr>]" "c_addr c = p"
    using s0(3) conn_ofD(2) [OF s0(4)] by (simp_all add: upd_conn_def)
  have cl: "\<not> c_free c" "\<not> c_listening c" using at_reqD(2) [OF s0(2)] by (simp_all add: client_def)
  have t: "idle_conn_timeout (sv_settings ?s) < elapsed (e_now ?e) 1000"
    using s0(5) by (simp add: start_server_def elapsed_def)
  obtain s' where "disconnect_idle_conns ?e ?s = Inr s'" and
    "\<forall>p c. conn_of ?s p = Inr c \<longrightarrow>
      (\<exists>c'. conn_of s' p = Inr c' \<and>
        (if p \<in> c_addr ` {c \<in> set (takeWhile (\<lambda>c. \<not> c_free c \<and> \<not> c_listening c) (sv_conns ?s)).
               idle_conn_timeout (sv_settings ?s) < elapsed (e_now ?e) (last_heard c)}
         then c_free c' \<and> c_state c' = CONN_CLOSED else c' = c))"
    using idle_closes_prefix [OF s(1), of ?e] by blast
  moreover from this(2) s(2) have "\<exists>c'. conn_of s' p = Inr c' \<and>
      (if p \<in> c_addr ` {c \<in> set (takeWhile (\<lambda>c. \<not> c_free c \<and> \<not> c_listening c) (sv_conns ?s)).
               idle_conn_timeout (sv_settings ?s) < elapsed (e_now ?e) (last_heard c)}
       then c_free c' \<and> c_state c' = CONN_CLOSED else c' = c\<lparr>last_heard := 1000\<rparr>)" by blast
  then obtain c' where "conn_of s' p = Inr c'" "c_state c' = CONN_CLOSED" using cs cl t by (auto split: if_splits)
  ultimately show ?thesis using s(1) by blast
qed

subsection \<open>Commands\<close>

text \<open>
  C2: \<open>execute_cmd\<close> on a complete request of a connection, while no other one is sending,
  never faults and refines the cache that is a map from keys to data, timeout and time. A
  \<open>CMD_GET\<close> answers \<open>SUCCESS\<close> with the data stored last unless more seconds have passed than
  the timeout says; then, or without an entry, \<open>KEY_NOTEXISTS\<close>, and the entry is gone. A
  \<open>CMD_SET\<close> replaces the entry or, without data or with a timeout that is not a positive number,
  answers \<open>INVALID_PARAM\<close> and changes nothing; or it is answered \<open>OUT_OF_MEMORY\<close>. \<open>CMD_DELETE\<close>
  and \<open>CMD_FLUSH_ALL\<close> remove one or all entries. All other entries stay as they are.
\<close>

theorem commands_refine_cache:
  assumes "at_req p F c r s" and "c_state c = CMD_RECEIVED" and "complete s r" and "calm p s" and "env_ok e"
  shows "\<exists>s'. execute_cmd e p s = Inr s' \<and>
    (case command_of (rq_opcode (rq_header r)) of
       Some CMD_GET \<Rightarrow> meets p (spec_get (e_now e) (key_of s r) (content s)) s'
     | Some CMD_SET \<Rightarrow> set_refused p s' \<or>
         meets p (spec_set (e_now e) (key_of s r) (data_of s r) (timeout_of s r) (content s)) s'
     | Some CMD_DELETE \<Rightarrow> meets p (spec_delete (key_of s r) (content s)) s'
     | Some CMD_FLUSH_ALL \<Rightarrow> meets p (spec_flush (content s)) s'
     | _ \<Rightarrow> server_inv s')"
  by (rule execute_ok [OF assms])

lemma sample_header:
  "rq_opcode [x, 0, 0, 0, 0, 0, 0, 0, 0, 0, 0, 0] = x" "key_length [x, 0, 0, 0, 0, 0, 0, 0, 0, 0, 0, 0] = 0"
  "data_length [x, 0, 0, 0, 0, 0, 0, 0, 0, 0, 0, 0] < PROTOCOL_MAX_DATA_SIZE"
  "extra_length [x, 0, 0, 0, 0, 0, 0, 0, 0, 0, 0, 0] < PROTOCOL_MAX_EXTRA_SIZE" "command_of 6 = Some CMD_FLUSH_ALL"
  by (simp_all add: rq_opcode_def key_length_def data_length_def extra_length_def load32_def command_of_def
      PROTOCOL_MAX_DATA_SIZE_def PROTOCOL_MAX_EXTRA_SIZE_def)

text \<open>A connection whose request has the header \<open>h\<close> and is about to be executed.\<close>

lemma sample_command:
  assumes h: "length h = 12"
  obtains s p F c r where "at_req p F c r s" and "c_state c = CMD_RECEIVED" and "rq_header r = h"
    and "rkey r = 0" and "rdata r = 0" and "rextra r = 0" and "calm p s" and "content s = Map.empty"
    and "spare 59 (sv_mem s)"
proof -
  obtain s p F c r where s: "server_inv s" "at_req p F c r s" "rkey r = 0" "rdata r = 0" "rextra r = 0"
    "hview (sv_cache s) = Map.empty" "sv_conns s = [c]" "spare 59 (sv_mem s)" "reading s c r" "c_state c = READ_HEADER"
    by (rule sample_server)
  let ?f = "\<lambda>r. r\<lparr>rq_header := h\<rparr>" and ?g = "\<lambda>c. c\<lparr>c_state := CMD_RECEIVED\<rparr>"
  let ?s1 = "upd_req (c_in c) ?f s"
  let ?s = "upd_conn p ?g ?s1"
  have a1: "at_req p F c (?f r) ?s1" by (rule at_req_upd [OF s(2)]) (use s h in simp_all)
  note a = at_reqD [OF a1]
  have r: "run p F (?g c) ?s" by (rule run_upd_conn [OF a(1)]) simp
  have k: "kept ?s1 ?s" by simp
  have at: "at_req p F (?g c) (?f r) ?s"
    unfolding at_req_def using a r keptD [OF k] by (simp add: has_req_def client_def)
  have "c_addr c = p" by (rule conn_ofD(2) [OF run_conn [OF a(1)]])
  then have cs: "sv_conns ?s = [?g c]" using s(7) by (simp add: upd_conn_def)
  then have calm: "calm p ?s" using \<open>c_addr c = p\<close> by (simp add: calm_def)
  have ct: "content ?s = Map.empty" using s(6) by (simp add: fun_eq_iff content_def)
  show thesis by (rule that [OF at _ _ _ _ _ calm ct]) (use s in simp_all)
qed

theorem commands_refine_cache_witness:
  "\<exists>s p c r s'. c_state c = CMD_RECEIVED \<and> conn_of s p = Inr c \<and> req_of s (c_in c) = Inr r \<and>
     command_of (rq_opcode (rq_header r)) = Some CMD_FLUSH_ALL \<and>
     execute_cmd sample_env p s = Inr s' \<and> meets p (spec_flush (content s)) s'"
proof -
  let ?h = "[6, 0, 0, 0, 0, 0, 0, 0, 0, 0, 0, 0] :: byte list"
  obtain s p F c r where s: "at_req p F c r s" "c_state c = CMD_RECEIVED" "rq_header r = ?h" "rkey r = 0"
    "rdata r = 0" "rextra r = 0" "calm p s"
    by (rule sample_command [of ?h]) auto
  have op: "command_of (rq_opcode (rq_header r)) = Some CMD_FLUSH_ALL"
    using s(3) by (simp add: sample_header)
  have c: "complete s r" using s by (simp add: complete_def good_header_def sample_header PROTOCOL_MAX_KEY_SIZE_def)
  obtain s' where "execute_cmd sample_env p s = Inr s'" "meets p (spec_flush (content s)) s'"
    using commands_refine_cache [OF s(1,2) c s(7) sample_env_simps(3)] op by auto
  moreover have "conn_of s p = Inr c" "req_of s (c_in c) = Inr r"
    using run_conn [OF at_reqD(1) [OF s(1)]] req_ok_of [OF at_reqD(9) [OF s(1)]] by blast+
  ultimately show ?thesis using s(2) op by blast
qed

end
