(* ===== verification/Server_Progress.thy ===== *)
theory Server_Progress
  imports Server_Props
begin

text \<open>
  Progress: the write events of a connection send its response, byte by byte and in order, and
  bring the connection back to \<open>READ_HEADER\<close>.
\<close>

subsection \<open>The next request\<close>

lemma event_set_only: "only_conn p s (snd (event_set e c ev s))"
  using event_set_watch [of e c ev s] by (auto intro!: only_connI)

lemma set_state_plain_only:
  assumes "set_state_plain e p st s = Inr s'"
  shows "only_conn p s s' \<and> (\<forall>c. conn_of s p = Inr c \<longrightarrow> (\<exists>c'. conn_of s' p = Inr c' \<and> c_state c' = st))"
proof -
  let ?f = "\<lambda>c. c\<lparr>c_out := (c_out c)\<lparr>sbytes := 0\<rparr>\<rparr>" and ?g = "\<lambda>c. c\<lparr>c_state := st\<rparr>"
  have "\<exists>s1. s' = upd_conn p ?g s1 \<and> only_conn p s s1"
  proof (cases "st = SEND_HEADER")
    case False
    then show ?thesis using assms only_connI by (intro exI [of _ s]) (simp add: set_state_plain_def)
  next
    case True
    then obtain c where "s' = upd_conn p ?g (snd (event_set e c EVENT_WRITE (upd_conn p ?f s)))"
      using assms by (auto simp: set_state_plain_def rbind_eq_Inr_iff Let_def)
    then show ?thesis using only_conn_trans [OF only_conn_upd event_set_only, of ?f] by auto
  qed
  then obtain s1 where s1: "s' = upd_conn p ?g s1" "only_conn p s s1" by blast
  then have "only_conn p s s'" using only_conn_trans [OF _ only_conn_upd, of p s s1 ?g] by simp
  moreover have "\<exists>c'. conn_of s' p = Inr c' \<and> c_state c' = st" if c: "conn_of s p = Inr c" for c
  proof -
    obtain c1 where "conn_of s1 p = Inr c1" using conn_of_upd_ex [OF _ c] s1(2) by (auto simp: only_conn_def)
    then have "conn_of s' p = Inr (?g c1)" unfolding s1(1) by (intro conn_of_upd) simp_all
    then show ?thesis by simp
  qed
  ultimately show ?thesis by blast
qed

lemma init_resources_only:
  assumes "init_resources e p s = Inr (ok, s')"
  shows "only_conn p s s'"
proof -
  obtain s1 s2 a s3 where 1: "free_request p s = Inr s1" "free_response p s1 = Inr s2"
    "s_malloc e sizeof_request s2 = Inr (a, s3)"
    and s': "s' = upd_conn p (\<lambda>c. c\<lparr>c_in := 0\<rparr>) s3 \<or>
      s' = upd_conn p (\<lambda>c. c\<lparr>c_in := a, c_out := (c_out c)\<lparr>sdata := 0, sbytes := 0, rs_can_free := True\<rparr>\<rparr>)
           (s3\<lparr>sv_reqs := (sv_reqs s3)(a := Some (fresh_request e a))\<rparr>)"
    using assms by (auto simp: init_resources_def rbind_eq_Inr_iff split: if_splits)
  have "only_conn p s2 s3" using 1(3) by (auto simp: s_malloc_def rbind_eq_Inr_iff intro!: only_connI)
  then have "only_conn p s s3"
    using only_conn_trans free_request_only [OF 1(1)] free_response_only [OF 1(2)] by blast
  moreover have "only_conn p s3 s'"
    using s'
  proof
    assume "s' = upd_conn p (\<lambda>c. c\<lparr>c_in := 0\<rparr>) s3"
    then show ?thesis by (simp add: only_conn_upd)
  next
    let ?s = "s3\<lparr>sv_reqs := (sv_reqs s3)(a := Some (fresh_request e a))\<rparr>"
    assume s: "s' = upd_conn p (\<lambda>c. c\<lparr>c_in := a, c_out := (c_out c)\<lparr>sdata := 0, sbytes := 0, rs_can_free := True\<rparr>\<rparr>) ?s"
    have "only_conn p s3 ?s" by (rule only_connI) simp_all
    then show ?thesis unfolding s by (rule only_conn_trans) (simp add: only_conn_upd)
  qed
  ultimately show ?thesis by (rule only_conn_trans)
qed

lemma conn_kept: "only_conn p s s' \<Longrightarrow> conn_of s p = Inr c \<Longrightarrow> \<exists>c'. conn_of s' p = Inr c'"
  using conn_of_upd_ex by (auto simp: only_conn_def)

text \<open>A connection that waits for the next request or, without memory for it, is closed.\<close>

definition waits :: "ptr \<Rightarrow> server \<Rightarrow> bool" where
  "waits p s \<longleftrightarrow> (\<exists>c. conn_of s p = Inr c \<and> c_state c \<in> {READ_HEADER, CONN_CLOSED})"

lemma next_request_only:
  assumes n: "next_request e p s = Inr s'" and c: "conn_of s p = Inr c"
  shows "only_conn p s s' \<and> waits p s'"
proof -
  obtain s1 where s1: "set_state_plain e p CMD_SENT s = Inr s1" "set_conn_state e p READ_HEADER s1 = Inr s'"
    using n by (auto simp: next_request_def set_conn_state_def rbind_eq_Inr_iff)
  obtain ok s2 where s2: "init_resources e p s1 = Inr (ok, s2)"
    "(if \<not> ok then disconnect_conn e p s2
      else rbind (conn_of s2 p) (\<lambda>c. set_state_plain e p READ_HEADER (snd (event_set e c EVENT_READ s2)))) = Inr s'"
    using s1(2) unfolding set_conn_state_def conn_states.case rbind_eq_Inr_iff by fastforce
  have o2: "only_conn p s s2"
    using only_conn_trans [OF _ init_resources_only [OF s2(1)]] set_state_plain_only [OF s1(1)] by blast
  obtain c2 where c2: "conn_of s2 p = Inr c2" using conn_kept [OF o2 c] by blast
  show ?thesis
  proof (cases ok)
    case True
    then obtain d where d: "set_state_plain e p READ_HEADER (snd (event_set e d EVENT_READ s2)) = Inr s'" using s2(2) c2 by auto
    obtain c3 where "conn_of (snd (event_set e d EVENT_READ s2)) p = Inr c3"
      using conn_kept [OF event_set_only c2] by blast
    then show ?thesis
      using set_state_plain_only [OF d] only_conn_trans [OF only_conn_trans [OF o2 event_set_only]] by (auto simp: waits_def)
  next
    case False
    then have d: "disconnect_conn e p s2 = Inr s'" using s2(2) by simp
    obtain c3 where "conn_of s' p = Inr c3" using conn_kept [OF disconnect_only(1) [OF d] c2] by blast
    then show ?thesis
      using disconnect_only [OF d] only_conn_trans [OF o2] by (auto simp: waits_def)
  qed
qed

subsection \<open>One byte\<close>

lemma send_byte:
  assumes c: "conn_of s p = Inr c" and k: "sbytes (c_out c) < tot" "tot \<le> length bytes" "tot < 2 ^ 32" and e: "e_wr e = Wr_bytes 1"
  obtains s' where "send_nbytes e p bytes tot s =
      Inr (if Suc (sbytes (c_out c)) = tot then SEND_COMPLETED else NEED_MORE, s')"
    and "sv_sent s' = sv_sent s @ [(c_fd c, bytes ! sbytes (c_out c))]" and "sv_bufs s' = sv_bufs s"
    and "conn_of s' p = Inr (sent (if Suc (sbytes (c_out c)) = tot then 0 else Suc (sbytes (c_out c))) c)"
proof -
  let ?k = "sbytes (c_out c)"
  define s1 where "s1 = upd_stats (\<lambda>t. t\<lparr>bytes_written := u64 (bytes_written t + 1)\<rparr>)
    (s\<lparr>sv_sent := sv_sent s @ [(c_fd c, bytes ! ?k)]\<rparr>)"
  have c1: "conn_of s1 p = Inr c" using c by (simp add: s1_def)
  have f: "sv_sent s1 = sv_sent s @ [(c_fd c, bytes ! ?k)]" "sv_bufs s1 = sv_bufs s" by (simp_all add: s1_def upd_stats_def)
  have u: "u32 (Suc ?k) = Suc ?k" using k by simp
  have l: "\<not> length bytes \<le> ?k" "take 1 (drop ?k bytes) = [bytes ! ?k]"
    using k by (simp_all add: take_Suc hd_drop_conv_nth)
  have x: "send_nbytes e p bytes tot s =
    (if Suc ?k = tot then Inr (SEND_COMPLETED, upd_conn p (sent 0) s1) else Inr (NEED_MORE, upd_conn p (sent (Suc ?k)) s1))"
    using c e l u by (simp add: send_nbytes_def sent_def [abs_def] s1_def Let_def)
  show thesis
    by (rule that [of "upd_conn p (sent (if Suc ?k = tot then 0 else Suc ?k)) s1"])
      (use x f conn_of_upd [OF _ c1] in simp_all)
qed

text \<open>What a connection still has to send.\<close>

definition out_data :: "server \<Rightarrow> conn \<Rightarrow> byte list" where
  "out_data s c = buf_data s (sdata (c_out c)) (resp_len c)"

definition pending :: "server \<Rightarrow> conn \<Rightarrow> byte list" where
  "pending s c =
     (case c_state c of
        SEND_HEADER \<Rightarrow> drop (sbytes (c_out c)) (rs_header (c_out c)) @ out_data s c
      | SEND_DATA \<Rightarrow> drop (sbytes (c_out c)) (out_data s c)
      | _ \<Rightarrow> [])"

lemma out_data_length: "out_ok s c \<Longrightarrow> length (out_data s c) = resp_len c"
  by (auto simp: out_data_def buf_data_def out_ok_def split: if_splits option.splits)

lemma out_data_cong: "sv_bufs s' = sv_bufs s \<Longrightarrow> out_data s' (sent k c) = out_data s c"
  by (simp add: out_data_def buf_data_def)

lemma out_data_state: "out_data s (in_state st c) = out_data s c" "out_data s (sent k c) = out_data s c"
  by (simp_all add: out_data_def in_state_def resp_len_def)

definition to_send :: "conn \<Rightarrow> bool" where
  "to_send c \<longleftrightarrow> client c \<and> c_state c \<in> {SEND_HEADER, SEND_DATA}"

text \<open>Either the rest of the response is still to be sent or the connection waits.\<close>

definition goes_on :: "ptr \<Rightarrow> int \<Rightarrow> byte list \<Rightarrow> server \<Rightarrow> bool" where
  "goes_on p fd bs s \<longleftrightarrow> (if bs = [] then waits p s else (\<exists>c. conn_of s p = Inr c \<and> to_send c \<and> c_fd c = fd \<and> pending s c = bs))"

lemma send_header_step:
  assumes c: "conn_of s p = Inr c" and cl: "client c" and st: "c_state c = SEND_HEADER" and k: "sbytes (c_out c) < 8"
    and h: "length (rs_header (c_out c)) = 8" and o: "out_ok s c" and e: "e_wr e = Wr_bytes 1"
    and t: "try_send_response e p s = Inr (ret, s')"
  shows "\<exists>b bs. pending s c = b # bs \<and> sv_sent s' = sv_sent s @ [(c_fd c, b)] \<and> goes_on p (c_fd c) bs s'"
proof -
  let ?k = "sbytes (c_out c)" and ?h = "rs_header (c_out c)"
  have t': "rbind (send_nbytes e p ?h sizeof_resp_header s) (\<lambda>(ret, s).
      if ret = SEND_COMPLETED then
        rbind (if resp_len c \<noteq> 0 then set_conn_state e p SEND_DATA s else next_request e p s) (\<lambda>s. Inr (ret, s))
      else Inr (ret, s)) = Inr (ret, s')"
    using t unfolding resp_len_eq [symmetric] by (simp add: try_send_response_def c st)
  have k': "?k < sizeof_resp_header" "sizeof_resp_header \<le> length ?h" "sizeof_resp_header < 2 ^ 32"
    using k h by (simp_all add: sizeof_resp_header_def)
  obtain s1 where s1: "send_nbytes e p ?h sizeof_resp_header s =
      Inr (if Suc ?k = sizeof_resp_header then SEND_COMPLETED else NEED_MORE, s1)"
    "sv_sent s1 = sv_sent s @ [(c_fd c, ?h ! ?k)]" "sv_bufs s1 = sv_bufs s"
    "conn_of s1 p = Inr (sent (if Suc ?k = sizeof_resp_header then 0 else Suc ?k) c)"
    by (rule send_byte [OF c k' e])
  have p: "pending s c = ?h ! ?k # drop (Suc ?k) ?h @ out_data s c"
    using st k h by (simp add: pending_def Cons_nth_drop_Suc [symmetric])
  have "sv_sent s' = sv_sent s1 \<and> goes_on p (c_fd c) (drop (Suc ?k) ?h @ out_data s c) s'"
  proof (cases "Suc ?k = 8")
    case False
    then have "s' = s1" using t' s1(1) by (simp add: sizeof_resp_header_def)
    moreover have "c_fd (sent (Suc ?k) c) = c_fd c" by (simp add: sent_def)
    ultimately show ?thesis
      using False s1(4) st cl k h out_data_cong [OF s1(3)]
      by (simp add: goes_on_def pending_def to_send_def sizeof_resp_header_def)
  next
    case True
    note t2 = t' [unfolded s1(1)]
    note c1 = s1(4) [unfolded sizeof_resp_header_def, simplified True, simplified]
    show ?thesis
    proof (cases "resp_len c = 0")
      case rz: True
      then have "next_request e p s1 = Inr s'" using t2 True by (simp add: sizeof_resp_header_def rbind_eq_Inr_iff)
      then have "only_conn p s1 s' \<and> waits p s'" using next_request_only c1 by blast
      moreover have "out_data s c = []" using out_data_length [OF o] rz by simp
      ultimately show ?thesis using True h by (simp add: goes_on_def only_conn_def)
    next
      case rz: False
      let ?g = "\<lambda>c. c\<lparr>c_state := SEND_DATA\<rparr>"
      have "s' = upd_conn p ?g s1"
        using t2 True rz by (simp add: sizeof_resp_header_def set_conn_state_def set_state_plain_def)
      moreover from this have "conn_of s' p = Inr (?g (sent 0 c))" using conn_of_upd [OF _ c1, of ?g] by simp
      moreover have "out_data s' (?g (sent 0 c)) = out_data s c" "out_data s c \<noteq> []"
        using out_data_cong [OF s1(3)] out_data_length [OF o] rz calculation(1)
        by (auto simp: out_data_def buf_data_def resp_len_def sent_def)
      ultimately show ?thesis
        using True h cl by (simp add: goes_on_def pending_def to_send_def client_def) (simp add: sent_def)
    qed
  qed
  then show ?thesis using p s1(2) by simp
qed

lemma send_data_step:
  assumes c: "conn_of s p = Inr c" and cl: "client c" and st: "c_state c = SEND_DATA" and k: "sbytes (c_out c) < resp_len c"
    and d: "sdata (c_out c) \<noteq> 0" and o: "out_ok s c" and e: "e_wr e = Wr_bytes 1"
    and t: "try_send_response e p s = Inr (ret, s')"
  shows "\<exists>b bs. pending s c = b # bs \<and> sv_sent s' = sv_sent s @ [(c_fd c, b)] \<and> goes_on p (c_fd c) bs s'"
proof -
  let ?k = "sbytes (c_out c)"
  obtain xs where xs: "sv_bufs s (sdata (c_out c)) = Some xs" "resp_len c \<le> length xs" by (rule out_ok_buf [OF o d])
  have t': "rbind (send_nbytes e p xs (resp_len c) s) (\<lambda>(ret, s).
      if ret = SEND_COMPLETED then rbind (next_request e p s) (\<lambda>s. Inr (ret, s)) else Inr (ret, s)) = Inr (ret, s')"
    using t c st buf_of_Some [OF d xs(1)] resp_len_eq [of c] by (simp add: try_send_response_def)
  obtain s1 where s1: "send_nbytes e p xs (resp_len c) s =
      Inr (if Suc ?k = resp_len c then SEND_COMPLETED else NEED_MORE, s1)"
    "sv_sent s1 = sv_sent s @ [(c_fd c, xs ! ?k)]" "sv_bufs s1 = sv_bufs s"
    "conn_of s1 p = Inr (sent (if Suc ?k = resp_len c then 0 else Suc ?k) c)"
    by (rule send_byte [OF c k xs(2) resp_len_less e])
  have od: "out_data s c = take (resp_len c) xs" using xs(1) by (simp add: out_data_def buf_data_def)
  have p: "pending s c = xs ! ?k # drop (Suc ?k) (out_data s c)"
    using st k xs(2) by (simp add: pending_def od Cons_nth_drop_Suc [symmetric])
  have l: "length (out_data s c) = resp_len c" using od xs(2) by simp
  have "sv_sent s' = sv_sent s1 \<and> goes_on p (c_fd c) (drop (Suc ?k) (out_data s c)) s'"
  proof (cases "Suc ?k = resp_len c")
    case False
    then have "s' = s1" using t' s1(1) by simp
    moreover have "c_fd (sent (Suc ?k) c) = c_fd c" by (simp add: sent_def)
    ultimately show ?thesis
      using False s1(4) st cl k l out_data_cong [OF s1(3)] by (simp add: goes_on_def pending_def to_send_def)
  next
    case True
    then have "next_request e p s1 = Inr s'" using t' s1(1) by (simp add: rbind_eq_Inr_iff)
    then have "only_conn p s1 s' \<and> waits p s'" using next_request_only s1(4) by blast
    then show ?thesis using True l by (simp add: goes_on_def only_conn_def)
  qed
  then show ?thesis using p s1(2) by simp
qed

subsection \<open>The whole response\<close>

lemma write_step:
  assumes inv: "server_inv s" and c: "conn_of s p = Inr c" and ts: "to_send c" and e: "e_wr e = Wr_bytes 1"
  obtains s' b bs where "event_handler e p EVENT_WRITE s = Inr s'" and "server_inv s'" and "pending s c = b # bs"
    and "sv_sent s' = sv_sent s @ [(c_fd c, b)]" and "goes_on p (c_fd c) bs s'"
proof -
  let ?f = "\<lambda>c. c\<lparr>last_heard := e_now e\<rparr>"
  let ?s = "upd_conn p ?f s" and ?c = "?f c"
  have inv': "server_inv ?s" and c': "conn_of ?s p = Inr ?c" by (rule heard_ok [OF inv c])+
  have cl: "client ?c" and st: "c_state ?c \<in> {SEND_HEADER, SEND_DATA}" using ts by (simp_all add: to_send_def client_def)
  obtain r where r: "length (rs_header (c_out ?c)) = 8" "reading ?s ?c r \<or> sending ?s ?c"
    by (rule conn_ok_client [OF inv' c' cl]) blast
  have snd: "sending ?s ?c" using r(2) st by (auto simp: reading_def Let_def)
  obtain ret s' where t: "try_send_response e p ?s = Inr (ret, s')" "if ret = SEND_ERR then s' = ?s else server_inv s'"
    using try_send_ok [OF inv' c' cl, of e] unfolding write_fine_def by blast
  have "\<exists>b bs. pending ?s ?c = b # bs \<and> sv_sent s' = sv_sent ?s @ [(c_fd ?c, b)] \<and> goes_on p (c_fd ?c) bs s'"
    using snd send_header_step [OF c' cl _ _ r(1) _ e t(1)] send_data_step [OF c' cl _ _ _ _ e t(1)]
    unfolding sending_def by blast
  then obtain b bs where b: "pending ?s ?c = b # bs" "sv_sent s' = sv_sent ?s @ [(c_fd ?c, b)]" "goes_on p (c_fd ?c) bs s'"
    by blast
  have ne: "ret \<noteq> SEND_ERR" using t(2) b(2) by (cases "ret = SEND_ERR") simp_all
  have "pending s c = pending ?s ?c" 
    by (simp add: pending_def out_data_def buf_data_def resp_len_def split: conn_states.split)
  moreover have "event_handler e p EVENT_WRITE s = Inr s'"
    using c st t(1) ne by (auto simp: event_handler_def)
  ultimately show thesis using that b t(2) ne by simp
qed

lemma send_all:
  assumes "server_inv s" and "conn_of s p = Inr c" and "to_send c" and "length es = length (pending s c)"
    and "\<forall>e \<in> set es. e_wr e = Wr_bytes 1" and "p \<noteq> 0"
  shows "\<exists>s'. event_process (map (\<lambda>e. (p, None, Some e)) es) s = Inr s' \<and> server_inv s' \<and>
    sv_sent s' = sv_sent s @ map (Pair (c_fd c)) (pending s c) \<and> waits p s'"
  using assms
proof (induction es arbitrary: s c)
  case Nil
  obtain s' b bs where "pending s c = b # bs"
    by (rule write_step [OF Nil.prems(1-3), where e = "sample_env\<lparr>e_wr := Wr_bytes 1\<rparr>"]) auto
  then show ?case using Nil.prems(4) by simp
next
  case (Cons e es)
  obtain s1 b bs where s1: "event_handler e p EVENT_WRITE s = Inr s1" "server_inv s1" "pending s c = b # bs"
    "sv_sent s1 = sv_sent s @ [(c_fd c, b)]" "goes_on p (c_fd c) bs s1"
    by (rule write_step [OF Cons.prems(1-3)]) (use Cons.prems(5) in auto)
  show ?case
  proof (cases "bs = []")
    case True
    then show ?thesis using s1 Cons.prems(4,6) by (simp add: goes_on_def)
  next
    case False
    then obtain c1 where c1: "conn_of s1 p = Inr c1" "to_send c1" "c_fd c1 = c_fd c" "pending s1 c1 = bs"
      using s1(5) by (auto simp: goes_on_def)
    have "length es = length (pending s1 c1)" using Cons.prems(4) s1(3) c1(4) by simp
    then obtain s' where "event_process (map (\<lambda>e. (p, None, Some e)) es) s1 = Inr s'" "server_inv s'"
      "sv_sent s' = sv_sent s1 @ map (Pair (c_fd c1)) (pending s1 c1)" "waits p s'"
      using Cons.IH [OF s1(2) c1(1,2)] Cons.prems(5,6) by auto
    then show ?thesis using s1 c1(3,4) Cons.prems(6) by simp
  qed
qed

text \<open>
  C4: a response goes out completely. When a connection has just been given one, the next
  8 + n write events on it that the kernel accepts (n the length of the data) write the eight
  bytes of the header and the data, in this order and to the descriptor of the connection, and
  then the connection waits for the next request (or is closed, when there is no memory for a
  new request). No other bytes are written and the state stays consistent.
\<close>

theorem response_sent:
  assumes "server_inv s" and "conn_of s p = Inr c" and "c_state c = SEND_HEADER" and "sbytes (c_out c) = 0"
    and "\<not> c_free c" and "\<not> c_listening c" and "length es = 8 + resp_len c"
    and "\<forall>e \<in> set es. e_wr e = Wr_bytes 1"
  shows "\<exists>s' c'. event_process (map (\<lambda>e. (p, None, Some e)) es) s = Inr s' \<and> server_inv s' \<and>
    sv_sent s' = sv_sent s @ map (Pair (c_fd c)) (rs_header (c_out c) @ buf_data s (sdata (c_out c)) (resp_len c)) \<and>
    conn_of s' p = Inr c' \<and> c_state c' \<in> {READ_HEADER, CONN_CLOSED}"
proof -
  have p: "p \<noteq> 0" using addr_nonzero conn_ofD(4) [OF assms(2)] assms(1) unfolding server_inv_def by metis
  have cl: "client c" and ts: "to_send c" using assms(3,5,6) by (simp_all add: client_def to_send_def)
  obtain r where r: "length (rs_header (c_out c)) = 8" "reading s c r \<or> sending s c"
    by (rule conn_ok_client [OF assms(1,2) cl]) blast
  have "out_ok s c" using r(2) assms(3) by (auto simp: reading_def Let_def sending_def)
  then have "length (pending s c) = 8 + resp_len c"
    using assms(3,4) r(1) out_data_length by (simp add: pending_def)
  moreover have "pending s c = rs_header (c_out c) @ buf_data s (sdata (c_out c)) (resp_len c)"
    using assms(3,4) by (simp add: pending_def out_data_def)
  ultimately show ?thesis
    using send_all [OF assms(1,2) ts _ assms(8) p] assms(7) by (auto simp: waits_def)
qed

theorem response_sent_witness:
  "\<exists>s p c s'. server_inv s \<and> conn_of s p = Inr c \<and> resp_len c = 0 \<and>
     event_process (map (\<lambda>e. (p, None, Some e)) (replicate 8 (sample_env\<lparr>e_wr := Wr_bytes 1\<rparr>))) s = Inr s' \<and>
     sv_sent s' = sv_sent s @ map (Pair (c_fd c)) (rs_header (c_out c))"
proof -
  obtain s0 p F c0 r where s0: "at_req p F c0 r s0" by (rule sample_server)
  note a = at_reqD [OF s0]
  obtain s where s: "send_response sample_env p INVALID_STATE s0 = Inr s"
    "run p F (in_state SEND_HEADER (answer r 0 0 INVALID_STATE c0)) s"
    using add_response_ok [OF a(1,9)] unfolding send_response_def by blast
  define c where "c = in_state SEND_HEADER (answer r 0 0 INVALID_STATE c0)"
  note run = s(2) [folded c_def]
  have inv: "server_inv s" using refuse_ok [OF s0, of sample_env INVALID_STATE] s(1) by simp
  have l: "resp_len c = 0" using a(3) answer_len [of c0 0 r 0 INVALID_STATE] by (simp add: c_def)
  have c: "c_state c = SEND_HEADER" "sbytes (c_out c) = 0" "\<not> c_free c" "\<not> c_listening c"
    using a(2) by (simp_all add: c_def in_state_def answer_def client_def)
  let ?es = "replicate 8 (sample_env\<lparr>e_wr := Wr_bytes 1\<rparr>)"
  obtain s' where "event_process (map (\<lambda>e. (p, None, Some e)) ?es) s = Inr s'"
    "sv_sent s' = sv_sent s @ map (Pair (c_fd c)) (rs_header (c_out c) @ buf_data s (sdata (c_out c)) (resp_len c))"
    using response_sent [OF inv run_conn [OF run] c, of ?es] l by auto
  then show ?thesis using inv run_conn [OF run] l by (metis append_Nil2 buf_data_0)
qed

end
