(* ===== verification/Server_Faults.thy ===== *)
theory Server_Faults
  imports Server_Progress
begin

text \<open>
  What happens outside the well-behaved input of \<open>good_event\<close>: the faults that the conditions
  of the safety theorem exclude are real, each in a few events.
\<close>

subsection \<open>A read error\<close>

definition heard :: "env \<Rightarrow> ptr \<Rightarrow> server \<Rightarrow> server" where
  "heard e p = upd_conn p (\<lambda>c. c\<lparr>last_heard := e_now e\<rparr>)"

lemma heard_simps [simp]:
  "sv_reqs (heard e p s) = sv_reqs s" "sv_bufs (heard e p s) = sv_bufs s" "sv_cache (heard e p s) = sv_cache s"
  "req_of (heard e p s) q = req_of s q" "buf_of (heard e p s) q = buf_of s q"
  "conn_of s p = Inr c \<Longrightarrow> conn_of (heard e p s) p = Inr (c\<lparr>last_heard := e_now e\<rparr>)"
  by (simp_all add: heard_def req_of_def buf_of_def conn_of_upd)

lemma event_read:
  assumes "conn_of s p = Inr c" and "c_state c \<noteq> CONN_CLOSED" and "\<not> c_listening c"
  shows "event_handler e p EVENT_READ s = rbind (try_read_request e p (heard e p s)) (\<lambda>(ret, s).
    if ret = READ_ERR then disconnect_conn e p s else Inr s)"
  using assms by (simp add: event_handler_def heard_def)



subsection \<open>Parts of a request that are missing\<close>

lemma hget_chain_null:
  "\<exists>it \<in> set ps. \<not> hi_free it \<Longrightarrow> hget_chain ps None = Inl Null_deref"
  by (induction ps) auto

text \<open>The last byte of a header without a key runs the command at once.\<close>

lemma header_runs:
  assumes c: "conn_of s p = Inr c" and r: "req_of s (c_in c) = Inr r" and st: "c_state c = READ_HEADER"
    and l: "\<not> c_listening c" and n: "rbytes r = 11" and e: "e_rd e = Rd_byte b"
    and h: "in_limits (new_header b r)" "key_length (new_header b r) = 0"
  obtains s1 c1 where "event_handler e p EVENT_READ s = rbind (execute_cmd e p s1) Inr"
    and "conn_of s1 p = Inr c1" and "c_state c1 = CMD_RECEIVED" and "sv_cache s1 = sv_cache s" and "sv_bufs s1 = sv_bufs s"
    and "c_in c1 = c_in c" and "req_of s1 (c_in c) = Inr (r\<lparr>rq_header := new_header b r, rbytes := 0\<rparr>)"
proof -
  let ?q = "c_in c"
  define s0 where "s0 = upd_req ?q (\<lambda>r. r\<lparr>rbytes := 0\<rparr>) (upd_req ?q (\<lambda>r. r\<lparr>rbytes := u32 (rbytes r + 1)\<rparr>)
    (upd_stats (\<lambda>t. t\<lparr>bytes_read := u64 (bytes_read t + 1)\<rparr>)
      (upd_req ?q (\<lambda>r. r\<lparr>rq_header := (rq_header r)[rbytes r := b]\<rparr>) (heard e p s))))"
  define s2 where "s2 = upd_req ?q (\<lambda>r. r\<lparr>rq_header := header_to_host (rq_header r)\<rparr>) s0"
  let ?f = "\<lambda>c. c\<lparr>c_state := CMD_RECEIVED\<rparr>"
  have q: "?q \<noteq> 0" "sv_reqs s ?q = Some r" using r by (simp_all add: req_of_iff)
  have c0: "conn_of s0 p = Inr (c\<lparr>last_heard := e_now e\<rparr>)" "conn_of s2 p = Inr (c\<lparr>last_heard := e_now e\<rparr>)"
    using c by (simp_all add: s0_def s2_def)
  have r2: "req_of s2 ?q = Inr (r\<lparr>rq_header := new_header b r, rbytes := 0\<rparr>)"
    using r n by (simp add: req_of_iff s2_def s0_def new_header_def)
  have nb: "read_nbytes e p To_header sizeof_req_header (heard e p s) = Inr (READ_COMPLETED, s0)"
    using c q n e by (simp add: read_nbytes_def store_byte_def count_read_def sizeof_req_header_def req_of_def s0_def Let_def)
  have hd: "header_done e p s0 = rbind (execute_cmd e p (upd_conn p ?f s2)) (\<lambda>s. Inr (READ_COMPLETED, s))"
    using c0(1) r2 h by (simp add: header_done_def s2_def [symmetric] in_limits_def not_le run_command_def
        set_conn_state_def set_state_plain_def Let_def)
  have "event_handler e p EVENT_READ s = rbind (execute_cmd e p (upd_conn p ?f s2)) Inr"
    using c st l nb hd by (simp add: event_read try_read_request_def rbind_assoc)
  moreover have "conn_of (upd_conn p ?f s2) p = Inr (?f (c\<lparr>last_heard := e_now e\<rparr>))"
    using conn_of_upd [OF _ c0(2), of ?f] by simp
  moreover have "req_of (upd_conn p ?f s2) ?q = Inr (r\<lparr>rq_header := new_header b r, rbytes := 0\<rparr>)"
    using r2 by (simp add: req_of_iff)
  moreover have "sv_cache (upd_conn p ?f s2) = sv_cache s" "sv_bufs (upd_conn p ?f s2) = sv_bufs s"
    by (simp_all add: s2_def s0_def)
  ultimately show thesis using that by simp
qed

text \<open>
  C35: a request without a key is run although the command needs one. The last byte of the
  header of a \<open>CMD_GET_SETTING\<close> without a key makes the server read through NULL, and so does
  that of a \<open>CMD_GET\<close> or \<open>CMD_DELETE\<close> as soon as the first bucket holds an item.
\<close>

theorem empty_key_crash:
  assumes "conn_of s p = Inr c" and "req_of s (c_in c) = Inr r" and "c_state c = READ_HEADER" and "\<not> c_listening c"
    and "rbytes r = 11" and "rkey r = 0" and "e_rd e = Rd_byte b"
    and "in_limits (new_header b r)" and "key_length (new_header b r) = 0"
    and "command_of (rq_opcode (new_header b r)) = Some CMD_GET_SETTING \<or>
      command_of (rq_opcode (new_header b r)) \<in> {Some CMD_GET, Some CMD_DELETE} \<and>
      (\<exists>ps. bucket_at (sv_cache s) 0 = Inr ps \<and> (\<exists>it \<in> set ps. \<not> hi_free it))"
  shows "event_handler e p EVENT_READ s = Inl Null_deref"
proof -
  obtain s1 c1 where s1: "event_handler e p EVENT_READ s = rbind (execute_cmd e p s1) Inr"
    "conn_of s1 p = Inr c1" "c_state c1 = CMD_RECEIVED" "sv_cache s1 = sv_cache s" "sv_bufs s1 = sv_bufs s" "c_in c1 = c_in c"
    "req_of s1 (c_in c) = Inr (r\<lparr>rq_header := new_header b r, rbytes := 0\<rparr>)"
    by (rule header_runs [OF assms(1-5,7-9)])
  have q: "c_in c \<noteq> 0" "sv_reqs s1 (c_in c) = Some (r\<lparr>rq_header := new_header b r, rbytes := 0\<rparr>)"
    using s1(7) by (simp_all add: req_of_iff)
  have hg: "hget (sv_cache s) None 0 = Inl Null_deref"
    if "bucket_at (sv_cache s) 0 = Inr ps" "\<exists>it \<in> set ps. \<not> hi_free it" for ps
    using that hget_chain_null [OF that(2)] by (simp add: hget_def HHASH_def)
  have "execute_cmd e p s1 = Inl Null_deref"
    using assms(10)
  proof (elim disjE conjE exE)
    assume "command_of (rq_opcode (new_header b r)) = Some CMD_GET_SETTING"
    then show ?thesis using s1(2,3,6) q assms(6) by (simp add: execute_cmd_def cmd_get_setting_def req_of_def)
  next
    fix ps assume b: "command_of (rq_opcode (new_header b r)) \<in> {Some CMD_GET, Some CMD_DELETE}"
      "bucket_at (sv_cache s) 0 = Inr ps" "\<exists>it \<in> set ps. \<not> hi_free it"
    then show ?thesis using s1(2,3,4,6) q assms(6,9) hg [OF b(2,3)]
      by (auto simp: execute_cmd_def cmd_get_def cmd_delete_def req_of_def)
  qed
  then show ?thesis using s1(1) by simp
qed

text \<open>A client that has sent all but the last byte of the header \<open>[x, 0, \<dots>]\<close>.\<close>

lemma zero_header: "header_to_host [x, 0, 0, 0, 0, 0, 0, 0, 0, 0, 0, 0] = [x, 0, 0, 0, 0, 0, 0, 0, 0, 0, 0, 0]"
  by (simp add: header_to_host_def store32_def ntohl_def data_length_def extra_length_def load32_def)

lemma sample_last_byte:
  obtains s p F c r where "server_inv s" and "conn_of s p = Inr c" and "req_of s (c_in c) = Inr r" and "c_state c = READ_HEADER"
    and "\<not> c_listening c" and "rbytes r = 11" and "rkey r = 0" and "new_header 0 r = [x, 0, 0, 0, 0, 0, 0, 0, 0, 0, 0, 0]"
    and "in_limits (new_header 0 r)" and "key_length (new_header 0 r) = 0"
proof -
  let ?h = "[x, 0, 0, 0, 0, 0, 0, 0, 0, 0, 0, 0] :: byte list"
  obtain s p F c r where s: "at_req p F c r s" "rkey r = 0" "rdata r = 0" "rextra r = 0" "c_state c = READ_HEADER"
    by (rule sample_server)
  let ?f = "\<lambda>r. r\<lparr>rq_header := ?h, rbytes := 11\<rparr>"
  have at: "at_req p F c (?f r) (upd_req (c_in c) ?f s)" by (rule at_req_upd [OF s(1)]) (use s(2-4) in simp_all)
  have inv: "server_inv (upd_req (c_in c) ?f s)"
    by (rule reading_close [OF at]) (use s in \<open>simp add: reading_def\<close>)
  have h: "new_header 0 (?f r) = ?h" using zero_header [of x] by (simp add: new_header_def)
  have l: "in_limits ?h" "key_length ?h = 0" using sample_header(2-4) [of x] by (simp_all add: in_limits_def PROTOCOL_MAX_KEY_SIZE_def)
  show thesis
  proof (rule that [OF inv run_conn [OF at_reqD(1) [OF at]] req_ok_of [OF at_reqD(9) [OF at]] s(5)])
    show "\<not> c_listening c" using at_reqD(2) [OF at] by (simp add: client_def)
  qed (use s(2) h l in simp_all)
qed

theorem empty_key_crash_witness:
  "\<exists>s p. server_inv s \<and> event_handler (sample_env\<lparr>e_rd := Rd_byte 0\<rparr>) p EVENT_READ s = Inl Null_deref"
proof -
  obtain s p F c r where s: "server_inv s" "conn_of s p = Inr c" "req_of s (c_in c) = Inr r" "c_state c = READ_HEADER"
    "\<not> c_listening c" "rbytes r = 11" "rkey r = 0" "new_header 0 r = [3, 0, 0, 0, 0, 0, 0, 0, 0, 0, 0, 0]"
    "in_limits (new_header 0 r)" "key_length (new_header 0 r) = 0"
    by (rule sample_last_byte [of 3])
  have "command_of (rq_opcode (new_header 0 r)) = Some CMD_GET_SETTING"
    using s(8) by (simp add: sample_header command_of_def)
  then show ?thesis using empty_key_crash [OF s(2-7) _ s(9,10), where e = "sample_env\<lparr>e_rd := Rd_byte 0\<rparr>"] s(1) by auto
qed

text \<open>
  C36: a \<open>CMD_SET\<close> with data but without a timeout: the last byte of its data makes the server
  parse the timeout through NULL.
\<close>

theorem set_without_timeout_crash:
  assumes "conn_of s p = Inr c" and "req_of s (c_in c) = Inr r" and "c_state c = READ_DATA" and "\<not> c_listening c"
    and "rdata r \<noteq> 0" and "rextra r = 0" and "sv_bufs s (rdata r) = Some xs" and "rbytes r < length xs"
    and "rbytes r + 1 = data_length (rq_header r)" and "extra_length (rq_header r) = 0"
    and "command_of (rq_opcode (rq_header r)) = Some CMD_SET" and "e_rd e = Rd_byte b"
  shows "event_handler e p EVENT_READ s = Inl Null_deref"
proof -
  let ?q = "c_in c" and ?f = "\<lambda>c. c\<lparr>c_state := CMD_RECEIVED\<rparr>" and ?c = "c\<lparr>last_heard := e_now e\<rparr>"
  have q: "?q \<noteq> 0" "sv_reqs s ?q = Some r" using assms(2) by (simp_all add: req_of_iff)
  have n: "u32 (rbytes r + 1) = data_length (rq_header r)"
    using load32_less [of "rq_header r" 4] assms(9) by (simp add: data_length_def)
  define s1 where "s1 = upd_req ?q (\<lambda>r. r\<lparr>rbytes := 0\<rparr>) (upd_req ?q (\<lambda>r. r\<lparr>rbytes := u32 (rbytes r + 1)\<rparr>)
    (upd_stats (\<lambda>t. t\<lparr>bytes_read := u64 (bytes_read t + 1)\<rparr>)
      ((heard e p s)\<lparr>sv_bufs := (sv_bufs s)(rdata r := Some (xs[rbytes r := b]))\<rparr>)))"
  have nb: "read_nbytes e p (To_buf (rdata r)) (data_length (rq_header r)) (heard e p s) = Inr (READ_COMPLETED, s1)"
    using assms(1,5,7,8,12) q n
    by (simp add: read_nbytes_def store_byte_def poke_def count_read_def req_of_def s1_def Let_def)
  have c1: "conn_of s1 p = Inr ?c" using assms(1) by (simp add: s1_def)
  have r1: "sv_reqs s1 ?q = Some (r\<lparr>rbytes := 0\<rparr>)" using q by (simp add: s1_def)
  have "run_command e p s1 = Inl Null_deref"
    using c1 r1 q(1) assms(5,6,11) conn_of_upd [OF _ c1, of ?f]
    by (simp add: run_command_def set_conn_state_def set_state_plain_def execute_cmd_def cmd_set_def req_of_def
        atoull_def strtoull_def Let_def)
  then show ?thesis
    using assms(1,3,4,5,9,10) q nb by (simp add: event_read try_read_request_def req_of_def)
qed

definition unset_state :: server where
  "unset_state = (start_server demo_table sample_sys)
     \<lparr>sv_reqs := [500 \<mapsto> \<lparr>rq_header = [1, 1, 0, 0, 2, 0, 0, 0, 0, 0, 0, 0], rdata = 520, rkey = 510, rextra = 0, rbytes = 1,
        received = 0, rq_can_free = True\<rparr>],
      sv_bufs := [510 \<mapsto> [97, 0], 520 \<mapsto> [98, 0, 0]],
      sv_conns := [zero_conn\<lparr>c_addr := 10, c_fd := 5, c_in := 500, c_state := READ_DATA\<rparr>]\<rparr>"

theorem set_without_timeout_crash_witness:
  "event_handler (sample_env\<lparr>e_rd := Rd_byte 99\<rparr>) 10 EVENT_READ unset_state = Inl Null_deref"
proof -
  note st = unset_state_def start_server_def zero_conn_def
  obtain c where c: "conn_of unset_state 10 = Inr c" "c_in c = 500" "c_state c = READ_DATA" "\<not> c_listening c"
    by (simp add: st conn_of_def)
  obtain r where r: "req_of unset_state (c_in c) = Inr r" "rdata r = 520" "rextra r = 0" "rbytes r = 1"
    "rq_header r = [1, 1, 0, 0, 2, 0, 0, 0, 0, 0, 0, 0]"
    by (simp add: st c(2) req_of_def)
  have xs: "sv_bufs unset_state (rdata r) = Some [98, 0, 0]" by (simp add: st r(2))
  show ?thesis
    by (rule set_without_timeout_crash [OF c(1) r(1) c(3,4) _ r(3) xs, where b = 99])
      (simp_all add: r data_length_def extra_length_def load32_def rq_opcode_def command_of_def)
qed

subsection \<open>A value that is still being sent\<close>

lemma s_free_bufs: "s_free a s = Inr s' \<Longrightarrow> sv_bufs s' = (sv_bufs s)(a := None)"
  by (auto simp: s_free_def rbind_eq_Inr_iff)

lemma free_req_blocks_data: "free_req_blocks q r s = Inr s' \<Longrightarrow> sv_bufs s' (rdata r) = None"
  by (auto simp: free_req_blocks_def rbind_eq_Inr_iff dest!: s_free_bufs)

lemma event_set_bufs: "sv_bufs (snd (event_set e c ev s)) = sv_bufs s"
  using event_set_watch [of e c ev s] by auto

lemma send_response_other:
  assumes "send_response e p code s = Inr s'"
  shows "conns_upd p s s'" and "sv_bufs s' = sv_bufs s"
proof -
  obtain c r f where 1: "set_state_plain e p SEND_HEADER (upd_conn p f s) = Inr s'"
    and f: "\<And>d. c_addr (f d) = c_addr d"
    using assms unfolding send_response_def add_response_def rbind_eq_Inr_iff by fastforce
  then show "conns_upd p s s'"
    using set_state_plain_only [OF 1] conns_upd_trans [OF conns_upd_upd_conn [OF f]] by (simp add: only_conn_def)
  show "sv_bufs s' = sv_bufs s"
    using 1 by (auto simp: set_state_plain_def rbind_eq_Inr_iff Let_def event_set_bufs)
qed

text \<open>
  C37: \<open>CMD_DELETE\<close> frees the data of the entry even while another connection is sending it:
  the next write event of that connection reads freed memory.
\<close>

theorem delete_frees_sent_data:
  assumes "conn_of s p = Inr c" and "req_of s (c_in c) = Inr r" and "buf_of s (rkey r) = Inr key"
    and "hget (sv_cache s) key (key_length (rq_header r)) = Inr (Some it)"
    and "req_of s (hi_val it) = Inr v"
    and "q \<noteq> p" and "conn_of s q = Inr d" and "c_state d = SEND_DATA" and "sdata (c_out d) = rdata v" and "rdata v \<noteq> 0"
    and "cmd_delete e p s = Inr s'"
  shows "event_handler e' q EVENT_WRITE s' = Inl Use_after_free"
proof -
  obtain s1 h where 1: "free_req_blocks (hi_val it) v s = Inr s1" "send_response e p SUCCESS (s1\<lparr>sv_cache := h\<rparr>) = Inr s'"
    using assms(1-5,11) by (auto simp: cmd_delete_def del_cached_req_def rbind_eq_Inr_iff req_of_iff set_cache_def)
  let ?s = "s1\<lparr>sv_cache := h\<rparr>"
  have u: "conns_upd p s s1" using free_req_blocks_only [OF 1(1)] by (simp add: only_conn_def)
  have "conn_of s' q = conn_of ?s q" "conn_of s1 q = conn_of s q"
    using conn_of_other [OF send_response_other(1) [OF 1(2)] assms(6)] conn_of_other [OF u assms(6)] by simp_all
  then have c: "conn_of s' q = Inr d" using assms(7) by simp
  have "sv_bufs s' (rdata v) = None"
    using send_response_other(2) [OF 1(2)] free_req_blocks_data [OF 1(1)] by simp
  then show ?thesis
    using c assms(8-10) conn_of_upd [OF _ c, of "\<lambda>c. c\<lparr>last_heard := e_now e'\<rparr>"]
    by (simp add: event_handler_def try_send_response_def buf_of_def)
qed

text \<open>
  Connection 10 deletes the key \<open>a\<close> whose one byte of data connection 20 is about to send
  (addresses 100 to 400: the cached request and its buffers; 500: the request of connection 10).
\<close>

definition race_request :: "ptr \<Rightarrow> ptr \<Rightarrow> ptr \<Rightarrow> byte list \<Rightarrow> request" where
  "race_request k d x h = \<lparr>rq_header = h, rdata = d, rkey = k, rextra = x, rbytes = 0, received = 0, rq_can_free = False\<rparr>"

definition race_state :: server where
  "race_state = (start_server
       \<lparr>ht_addr = 1, ht_realsize = 1, ht_logsize = 0, ht_count = 1, ht_mask = 0, ht_freecount = 0, ht_tablep = 2,
        ht_table = [Chain [\<lparr>hi_addr = 3, hi_keyp = 4, hi_key = [97, 0], hi_klen = 1, hi_val = 100, hi_free = False\<rparr>]]\<rparr>
       \<lparr>use_sys_malloc = True, mem_avail = 1024, mem_used = 30,
        slabst = slab_start [(92, 18, 10), (192, 10, 2), (292, 10, 2), (392, 10, 2)]\<rparr>)
     \<lparr>sv_reqs := [100 \<mapsto> race_request 200 300 400 (replicate 12 1),
                500 \<mapsto> race_request 510 0 0 [5, 1, 0, 0, 0, 0, 0, 0, 0, 0, 0, 0]],
      sv_bufs := [200 \<mapsto> [97, 0], 300 \<mapsto> [98, 0], 400 \<mapsto> [57, 0], 510 \<mapsto> [97, 0]],
      sv_conns :=
        [zero_conn\<lparr>c_addr := 10, c_fd := 5, c_in := 500, c_state := CMD_RECEIVED\<rparr>,
         zero_conn\<lparr>c_addr := 20, c_fd := 6, c_state := SEND_DATA,
           c_out := \<lparr>rs_header = [0, 4, 0, 0, 0, 0, 0, 1], sdata = 300, sbytes = 0, rs_can_free = False\<rparr>\<rparr>]\<rparr>"

theorem delete_frees_sent_data_witness:
  "\<exists>s'. cmd_delete sample_env 10 race_state = Inr s' \<and>
     event_handler (sample_env\<lparr>e_wr := Wr_bytes 1\<rparr>) 20 EVENT_WRITE s' = Inl Use_after_free"
proof -
  note st = race_state_def start_server_def zero_conn_def race_request_def
  obtain c where c: "conn_of race_state 10 = Inr c" "c_in c = 500" by (simp add: st conn_of_def)
  obtain d where d: "conn_of race_state 20 = Inr d" "c_state d = SEND_DATA" "sdata (c_out d) = 300"
    by (simp add: st conn_of_def)
  obtain r where r: "req_of race_state (c_in c) = Inr r" "rkey r = 510" "key_length (rq_header r) = 1"
    by (simp add: st c(2) req_of_def key_length_def)
  obtain v where v: "req_of race_state 100 = Inr v" "rkey v = 200" "rdata v = 300" "rextra v = 400"
    by (simp add: st req_of_def)
  have b: "buf_of race_state (rkey r) = Inr (Some [97, 0])" by (simp add: r(2) st buf_of_def)
  obtain it where it: "hget (sv_cache race_state) (Some [97, 0]) (key_length (rq_header r)) = Inr (Some it)" "hi_val it = 100"
    by (simp add: st r(3) hget_def HHASH_def bucket_at_def item_key_def)
  obtain m where f: "free_req_blocks 100 v race_state = Inr (race_state\<lparr>sv_mem := m,
      sv_reqs := (sv_reqs race_state)(200 := None, 300 := None, 400 := None, 100 := None),
      sv_bufs := (sv_bufs race_state)(200 := None, 300 := None, 400 := None, 100 := None)\<rparr>)"
    by (simp add: st v(2-4) free_req_blocks_def s_free_def li_free_def slab_start_def)
  have q: "sv_reqs race_state 500 = Some r" using r(1) c(2) by (simp add: req_of_iff)
  have resp: "sv_reqs s 500 = Some r \<Longrightarrow> conn_of s 10 = Inr c \<Longrightarrow> \<exists>s'. send_response sample_env 10 SUCCESS s = Inr s'" for s
    using c(2) conn_of_upd [of 10]
    by (simp add: req_of_def send_response_def add_response_def set_state_plain_def Let_def)
  define s2 where "s2 = race_state\<lparr>sv_mem := m,
    sv_reqs := (sv_reqs race_state)(200 := None, 300 := None, 400 := None, 100 := None),
    sv_bufs := (sv_bufs race_state)(200 := None, 300 := None, 400 := None, 100 := None),
    sv_cache := hfree (set_val 0 it (sv_cache race_state)) it\<rparr>"
  have "sv_reqs s2 500 = Some r" "conn_of s2 10 = Inr c" using c q by (simp_all add: s2_def)
  then obtain s' where "send_response sample_env 10 SUCCESS s2 = Inr s'" using resp by blast
  then have s': "cmd_delete sample_env 10 race_state = Inr s'"
    using c q b [unfolded r(2)] it [simplified r(3)] unfolding s2_def
    by (simp add: cmd_delete_def r(2,3) r(1) [unfolded c(2)] v(1) f del_cached_req_def set_cache_def)
  show ?thesis
    using delete_frees_sent_data [OF c(1) r(1) b it(1) _ _ d(1,2) _ _ s'] it(2) v d(3) s' by simp
qed

end
