(* ===== verification/Server_Request.thy ===== *)
theory Server_Request
  imports Server_Sample
begin

text \<open>
  A whole request: the read events that deliver its bytes one by one, through the states
  \<open>READ_HEADER\<close>, \<open>READ_KEY\<close>, \<open>READ_DATA\<close> and \<open>READ_EXTRA\<close>, and the command that runs at the last
  of them.
\<close>

subsection \<open>The bytes of a request\<close>

definition wire_header :: "byte \<Rightarrow> byte list \<Rightarrow> byte list \<Rightarrow> byte list \<Rightarrow> byte list" where
  "wire_header op k d x = store32 8 (htonl (length x)) (store32 4 (htonl (length d))
     ([op, word_of_nat (length k)] @ replicate 10 0))"

definition wire :: "byte \<Rightarrow> byte list \<Rightarrow> byte list \<Rightarrow> byte list \<Rightarrow> byte list" where
  "wire op k d x = wire_header op k d x @ k @ d @ x"

text \<open>
  The requests that are taken: within the limits, each part only when the one before it is
  there, without a 0 in the key, and with the parts that the command needs.
\<close>

definition well_formed :: "byte \<Rightarrow> byte list \<Rightarrow> byte list \<Rightarrow> byte list \<Rightarrow> bool" where
  "well_formed op k d x \<longleftrightarrow>
     length k < PROTOCOL_MAX_KEY_SIZE \<and> length d < PROTOCOL_MAX_DATA_SIZE \<and> length x < PROTOCOL_MAX_EXTRA_SIZE \<and>
     0 \<notin> set k \<and> (d \<noteq> [] \<longrightarrow> k \<noteq> []) \<and> (x \<noteq> [] \<longrightarrow> d \<noteq> []) \<and>
     (command_of op \<in> {Some CMD_GET, Some CMD_DELETE, Some CMD_GET_SETTING} \<longrightarrow> k \<noteq> []) \<and>
     (command_of op = Some CMD_SET \<and> d \<noteq> [] \<longrightarrow> x \<noteq> [])"

text \<open>What the server makes of the extra data: a C string.\<close>

definition timeout_in :: "byte list \<Rightarrow> nat option" where
  "timeout_in x = (case atoull (Some (x @ [0])) of Inl y \<Rightarrow> None | Inr v \<Rightarrow> v)"

definition reads :: "ptr \<Rightarrow> env list \<Rightarrow> (ptr \<times> env option \<times> env option) list" where
  "reads p es = map (\<lambda>e. (p, Some e, None)) es"

lemma reads_simps [simp]:
  "reads p [] = []" "reads p (e # es) = (p, Some e, None) # reads p es" "reads p (es @ fs) = reads p es @ reads p fs"
  by (simp_all add: reads_def)

lemma rbind_unit: "rbind x Inr = x"
  by (cases x) simp_all

lemma event_process_append: "event_process (rs @ ts) s = rbind (event_process rs s) (event_process ts)"
proof (induction rs arbitrary: s)
  case (Cons x rs)
  obtain p i w where x: "x = (p, i, w)" using prod_cases3 by blast
  show ?case unfolding x append_Cons event_process.simps Cons.IH by (simp add: rbind_assoc)
qed simp

lemma host_header:
  assumes "well_formed op k d x"
  shows "length (wire_header op k d x) = 12" and "rq_opcode (header_to_host (wire_header op k d x)) = op"
    and "key_length (header_to_host (wire_header op k d x)) = length k"
    and "data_length (header_to_host (wire_header op k d x)) = length d"
    and "extra_length (header_to_host (wire_header op k d x)) = length x"
proof -
  let ?z = "[op, word_of_nat (length k)] @ replicate 10 0 :: byte list"
  let ?d = "store32 4 (htonl (length d)) ?z"
  have l: "length d < 2 ^ 32" "length x < 2 ^ 32" "length k < 256"
    using assms by (simp_all add: well_formed_def PROTOCOL_MAX_KEY_SIZE_def PROTOCOL_MAX_DATA_SIZE_def PROTOCOL_MAX_EXTRA_SIZE_def)
  have h: "htonl n < 2 ^ 32" for n unfolding htonl_def by (rule ntohl_less)
  show "length (wire_header op k d x) = 12" by (simp add: wire_header_def)
  have dl: "data_length (wire_header op k d x) = htonl (length d)"
    unfolding data_length_def wire_header_def by (subst load_store32_other) (simp_all add: load_store32 h [simplified])
  have el: "extra_length (wire_header op k d x) = htonl (length x)"
    unfolding extra_length_def wire_header_def by (simp add: load_store32 h [simplified])
  have nth: "header_to_host (wire_header op k d x) ! i = ?z ! i" if "i < 4" for i
    using that by (simp add: header_to_host_def Let_def wire_header_def nth_store32_other del: append_Cons append_Nil)
  show "rq_opcode (header_to_host (wire_header op k d x)) = op" using nth [of 0] by (simp add: rq_opcode_def)
  show "key_length (header_to_host (wire_header op k d x)) = length k"
    using nth [of 1] l(3) by (simp add: key_length_def unat_of_nat)
  let ?h = "store32 4 (ntohl (data_length (wire_header op k d x))) (wire_header op k d x)"
  have e': "extra_length ?h = htonl (length x)"
    using el unfolding extra_length_def by (subst load_store32_other) simp_all
  show "extra_length (header_to_host (wire_header op k d x)) = length x"
    using l(2) e' unfolding header_to_host_def Let_def
    by (simp add: extra_length_def load_store32 ntohl_htonl wire_header_def)
  show "data_length (header_to_host (wire_header op k d x)) = length d"
    using l(1) dl unfolding header_to_host_def Let_def data_length_def
    by (subst load_store32_other) (simp_all add: load_store32 ntohl_htonl wire_header_def)
qed

lemma host_header_good:
  assumes "well_formed op k d x"
  shows "in_limits (header_to_host (wire_header op k d x))" and "good_header (header_to_host (wire_header op k d x))"
  using assms host_header [OF assms] by (auto simp: in_limits_def good_header_def well_formed_def)

subsection \<open>A connection that receives\<close>

text \<open>
  The connection is in state \<open>st\<close> with the request \<open>r\<close>; since the state \<open>s0\<close> the contents of
  the cache are the same and nothing was sent, and there is room for \<open>n\<close> more blocks.
\<close>

definition receives :: "server \<Rightarrow> ptr \<Rightarrow> conn_states \<Rightarrow> request \<Rightarrow> nat \<Rightarrow> server \<Rightarrow> bool" where
  "receives s0 p st r n s \<longleftrightarrow> (\<exists>F c. at_req p F c r s \<and> c_state c = st) \<and> content s = content s0 \<and>
     sv_sent s = sv_sent s0 \<and> calm p s \<and> spare n (sv_mem s)"

lemma receivesE:
  assumes "receives s0 p st r n s"
  obtains F c where "at_req p F c r s" and "c_state c = st"
  using assms by (auto simp: receives_def)

lemma receives_next:
  assumes "receives s0 p st r n s" and "at_req p F c r s" and "at_req p F' c' r' s'" and "c_state c' = st'"
    and "content s' = content s" and "sv_sent s' = sv_sent s" and "calm p s'" and "spare m (sv_mem s')"
  shows "receives s0 p st' r' m s'"
  using assms by (auto simp: receives_def)

text \<open>A step on the blocks of the connection keeps the contents of the cache.\<close>

lemma content_reads:
  assumes at: "at_req p F c r s" and o: "reads_only (c_in c) s s'" and b: "\<And>x. x \<notin> F \<Longrightarrow> sv_bufs s' x = sv_bufs s x"
  shows "content s' = content s"
proof (rule content_own [OF run_inv [OF at_reqD(1) [OF at]] at_req_addr [OF at]])
  have "x \<noteq> c_in c" if "x \<notin> F" for x using at_reqD(12) [OF at] that by blast
  then show "same_on (slab_live (sv_mem s) - F) s s'" using o b by (simp add: same_on_def reads_only_def)
qed (use o in \<open>simp add: reads_only_def\<close>)

lemma at_req_heard:
  assumes at: "at_req p F c r s"
  shows "at_req p F (c\<lparr>last_heard := t\<rparr>) r (upd_conn p (\<lambda>c. c\<lparr>last_heard := t\<rparr>) s)" (is "at_req p F (?f c) r ?s")
proof -
  note a = at_reqD [OF at]
  have k: "kept s ?s" by simp
  have "run p F (?f c) ?s" by (rule run_upd_conn [OF a(1)]) simp
  then show ?thesis unfolding at_req_def using a keptD [OF k] by (simp add: has_req_def client_def)
qed

lemma heard_receives:
  assumes rc: "receives s0 p st r n s"
  defines "s1 \<equiv> \<lambda>e. upd_conn p (\<lambda>c. c\<lparr>last_heard := e_now e\<rparr>) s"
  shows "receives s0 p st r n (s1 e)"
    and "st \<noteq> CONN_CLOSED \<Longrightarrow> event_handler e p EVENT_READ s =
      rbind (try_read_request e p (s1 e)) (\<lambda>(ret, s). if ret = READ_ERR then disconnect_conn e p s else Inr s)"
    and "sv_bufs (s1 e) = sv_bufs s"
proof -
  obtain F c where c: "at_req p F c r s" "c_state c = st" by (rule receivesE [OF rc])
  have k: "kept s (s1 e)" by (simp add: s1_def)
  have "calm p (s1 e)" unfolding s1_def
    by (rule calm_upd [OF _ conns_upd_upd_conn]) (use rc in \<open>simp_all add: receives_def\<close>)
  then show "receives s0 p st r n (s1 e)"
    by (intro receives_next [OF rc c(1), of F "c\<lparr>last_heard := e_now e\<rparr>"])
      (use at_req_heard [OF c(1)] c(2) content_kept [OF k] rc in \<open>simp_all add: s1_def receives_def\<close>)
  show "sv_bufs (s1 e) = sv_bufs s" by (simp add: s1_def)
  show "event_handler e p EVENT_READ s =
      rbind (try_read_request e p (s1 e)) (\<lambda>(ret, s). if ret = READ_ERR then disconnect_conn e p s else Inr s)"
    if "st \<noteq> CONN_CLOSED"
    using that c run_conn [OF at_reqD(1) [OF c(1)]] at_reqD(2) [OF c(1)]
    by (simp add: event_handler_def s1_def client_def Let_def)
qed

subsection \<open>The parts that go to a buffer\<close>

definition part_ptr :: "conn_states \<Rightarrow> request \<Rightarrow> ptr" where
  "part_ptr st r = (case st of READ_KEY \<Rightarrow> rkey r | READ_DATA \<Rightarrow> rdata r | READ_EXTRA \<Rightarrow> rextra r | _ \<Rightarrow> 0)"

definition part_len :: "conn_states \<Rightarrow> byte list \<Rightarrow> nat" where
  "part_len st h = (case st of READ_KEY \<Rightarrow> key_length h | READ_DATA \<Rightarrow> data_length h | READ_EXTRA \<Rightarrow> extra_length h | _ \<Rightarrow> 0)"

text \<open>What the last byte of a part starts.\<close>

definition after_part :: "env \<Rightarrow> ptr \<Rightarrow> conn_states \<Rightarrow> byte list \<Rightarrow> server \<Rightarrow> server res" where
  "after_part e p st h s =
     (case st of
        READ_KEY \<Rightarrow> if data_length h = 0 then run_command e p s else set_conn_state e p READ_DATA s
      | READ_DATA \<Rightarrow> if extra_length h \<noteq> 0 then set_conn_state e p READ_EXTRA s else run_command e p s
      | _ \<Rightarrow> run_command e p s)"

lemma part_states:
  assumes "part_len st h \<noteq> 0"
  obtains "st = READ_KEY" | "st = READ_DATA" | "st = READ_EXTRA"
  using assms by (cases st) (simp_all add: part_len_def)

lemma part_ptr_ok:
  assumes r: "req_ok s q r" and x: "part_ptr st r \<noteq> 0" and n: "part_len st (rq_header r) \<noteq> 0"
  shows "part_ptr st r \<in> {rkey r, rdata r, rextra r}" and "st \<noteq> CONN_CLOSED"
    and "buf_ok s (part_ptr st r) (part_len st (rq_header r))"
proof -
  have "part_ptr st r \<in> {rkey r, rdata r, rextra r} \<and> st \<noteq> CONN_CLOSED \<and> buf_ok s (part_ptr st r) (part_len st (rq_header r))"
    using n by (cases rule: part_states) (use x r in \<open>simp_all add: part_ptr_def part_len_def req_ok_def\<close>)
  then show "part_ptr st r \<in> {rkey r, rdata r, rextra r}" "st \<noteq> CONN_CLOSED"
    "buf_ok s (part_ptr st r) (part_len st (rq_header r))" by blast+
qed

lemma try_read_part_eq:
  assumes at: "at_req p F c r s" and st: "c_state c = st" and x: "part_ptr st r \<noteq> 0" and n: "part_len st (rq_header r) \<noteq> 0"
  shows "try_read_request e p s =
    rbind (read_nbytes e p (To_buf (part_ptr st r)) (part_len st (rq_header r)) s) (\<lambda>(ret, s).
      if ret = READ_COMPLETED then rbind (after_part e p st (rq_header r) s) (\<lambda>s. Inr (ret, s)) else Inr (ret, s))"
proof -
  note a = at_reqD [OF at]
  have k: "conn_of s p = Inr c" "req_of s (c_in c) = Inr r" using run_conn [OF a(1)] req_ok_of [OF a(9)] .
  from n show ?thesis
  proof (cases rule: part_states)
    case 1
    show ?thesis
      using x n a(11) k st unfolding 1 after_part_def part_ptr_def part_len_def conn_states.case
      by (simp add: try_read_request_def)
  next
    case 2
    show ?thesis
      using x n a(11) k st unfolding 2 after_part_def part_ptr_def part_len_def conn_states.case
      by (simp add: try_read_request_def)
  next
    case 3
    show ?thesis
      using x n a(11) k st unfolding 3 after_part_def part_ptr_def part_len_def conn_states.case
      by (simp add: try_read_request_def)
  qed
qed

lemma part_byte:
  assumes rc: "receives s0 p st r n s" and x: "part_ptr st r \<noteq> 0" and b: "e_rd e = Rd_byte b"
    and i: "rbytes r < part_len st (rq_header r)" and l: "part_len st (rq_header r) < 2 ^ 32"
  shows "\<exists>s' xs. sv_bufs s (part_ptr st r) = Some xs \<and> length xs = Suc (part_len st (rq_header r)) \<and>
    receives s0 p st (read_on (part_len st (rq_header r)) r) n s' \<and>
    sv_bufs s' = (sv_bufs s)(part_ptr st r := Some (xs[rbytes r := b])) \<and>
    event_handler e p EVENT_READ s =
      (if rbytes r + 1 = part_len st (rq_header r) then after_part e p st (rq_header r) s' else Inr s')"
proof -
  let ?x = "part_ptr st r" and ?n = "part_len st (rq_header r)"
  have nz: "?n \<noteq> 0" using i by simp
  let ?s = "upd_conn p (\<lambda>c. c\<lparr>last_heard := e_now e\<rparr>) s"
  note h = heard_receives [OF rc, of e]
  obtain F c where c: "at_req p F c r ?s" "c_state c = st" by (rule receivesE [OF h(1)])
  note a = at_reqD [OF c(1)]
  note mem = part_ptr_ok(1) [OF a(9) x nz] and st = part_ptr_ok(2) [OF a(9) x nz] and ok = part_ptr_ok(3) [OF a(9) x nz]
  obtain s' xs where s': "sv_bufs ?s ?x = Some xs" "read_nbytes e p (To_buf ?x) ?n ?s = Inr (read_code ?n r, s')"
    "at_req p F c (read_on ?n r) s'" "sv_bufs s' = (sv_bufs ?s)(?x := Some (xs[rbytes r := b]))"
    "sv_conns s' = sv_conns ?s" "reads_only (c_in c) ?s s'"
    using read_buf_byte [OF c(1) mem x ok i l b] by blast
  have "?x \<in> req_blks ?s (c_in c)" unfolding req_ok_in_blks [OF a(9)] using mem x by blast
  then have xF: "?x \<in> F" using a(8) by blast
  have ct: "content s' = content ?s"
    by (rule content_reads [OF c(1) s'(6)]) (use xF s'(4) in auto)
  have rc': "receives s0 p st (read_on ?n r) n s'"
    by (rule receives_next [OF h(1) c(1) s'(3) c(2) ct])
      (use s'(6) h(1) calm_cong [OF s'(5)] in \<open>simp_all add: reads_only_def receives_def\<close>)
  have tr: "try_read_request e p ?s = rbind (Inr (read_code ?n r, s')) (\<lambda>(ret, s).
      if ret = READ_COMPLETED then rbind (after_part e p st (rq_header r) s) (\<lambda>s. Inr (ret, s)) else Inr (ret, s))"
    unfolding try_read_part_eq [OF c x nz] s'(2) by (rule refl)
  have "event_handler e p EVENT_READ s =
      (if rbytes r + 1 = ?n then after_part e p st (rq_header r) s' else Inr s')"
    unfolding h(2) [OF st] tr by (simp add: rbind_assoc rbind_unit)
  moreover have "length xs = Suc ?n" using ok s'(1) by (simp add: buf_ok_def)
  ultimately show ?thesis using s'(1,4) rc' h(3) by (intro exI [of _ s'] exI [of _ xs]) simp
qed

lemma receives_addr:
  assumes "receives s0 p st r n s"
  shows "p \<noteq> 0"
proof -
  obtain F c where c: "at_req p F c r s" by (rule receivesE [OF assms])
  show ?thesis using addr_nonzero [OF run_inv [OF at_reqD(1) [OF c]]] at_req_addr [OF c] by metis
qed

lemma read_on_done: "rbytes r + 1 = n \<Longrightarrow> read_on n r = r\<lparr>rbytes := 0\<rparr>"
  and read_on_more: "rbytes r + 1 \<noteq> n \<Longrightarrow> read_on n r = r\<lparr>rbytes := rbytes r + 1\<rparr>"
  by (simp_all add: read_on_def)

lemma part_fields [simp]:
  "part_ptr st (r\<lparr>rbytes := i\<rparr>) = part_ptr st r" "part_ptr st (read_on n r) = part_ptr st r"
  by (cases st; simp add: part_ptr_def)+

text \<open>The bytes \<open>bs\<close> from position \<open>i\<close> on.\<close>

definition fill :: "nat \<Rightarrow> byte list \<Rightarrow> byte list \<Rightarrow> byte list" where
  "fill i bs xs = take i xs @ bs @ drop (i + length bs) xs"

lemma fill_one: "i < length xs \<Longrightarrow> xs[i := b] = fill i [b] xs"
  by (simp add: fill_def upd_conv_take_nth_drop)

lemma fill_Cons: "i < length xs \<Longrightarrow> fill (Suc i) bs (xs[i := b]) = fill i (b # bs) xs"
  by (simp add: fill_def take_update)

lemma part_bytes:
  assumes "receives s0 p st r n s" and "part_ptr st r \<noteq> 0" and "bs \<noteq> []" and "map e_rd es = map Rd_byte bs"
    and "rbytes r + length bs = part_len st (rq_header r)" and "part_len st (rq_header r) < 2 ^ 32"
  shows "\<exists>s' xs. sv_bufs s (part_ptr st r) = Some xs \<and> length xs = Suc (part_len st (rq_header r)) \<and>
    receives s0 p st (r\<lparr>rbytes := 0\<rparr>) n s' \<and> sv_bufs s' = (sv_bufs s)(part_ptr st r := Some (fill (rbytes r) bs xs)) \<and>
    event_process (reads p es) s = after_part (last es) p st (rq_header r) s'"
  using assms
proof (induction bs arbitrary: es r s)
  case (Cons b bs)
  obtain e fs where es: "es = e # fs" "e_rd e = Rd_byte b" "map e_rd fs = map Rd_byte bs" using Cons.prems(4) by auto
  let ?x = "part_ptr st r" and ?n = "part_len st (rq_header r)"
  have i: "rbytes r < ?n" using Cons.prems(5) by simp
  note p = receives_addr [OF Cons.prems(1)]
  obtain s1 xs where s1: "sv_bufs s ?x = Some xs" "length xs = Suc ?n" "receives s0 p st (read_on ?n r) n s1"
    "sv_bufs s1 = (sv_bufs s)(?x := Some (xs[rbytes r := b]))"
    "event_handler e p EVENT_READ s = (if rbytes r + 1 = ?n then after_part e p st (rq_header r) s1 else Inr s1)"
    using part_byte [OF Cons.prems(1,2) es(2) i Cons.prems(6)] by blast
  have j: "rbytes r < length xs" using i s1(2) by simp
  have ev: "event_process (reads p es) s = rbind (event_handler e p EVENT_READ s) (event_process (reads p fs))"
    using p by (simp add: es(1))
  show ?case
  proof (cases "bs = []")
    case True
    then have last: "rbytes r + 1 = ?n" "fs = []" using Cons.prems(5) es(3) by simp_all
    have "event_process (reads p []) = Inr" by (simp add: fun_eq_iff)
    then have "event_process (reads p es) s = after_part (last es) p st (rq_header r) s1"
      unfolding ev s1(5) using last by (simp add: es(1) rbind_unit)
    then show ?thesis
      using s1(1-4) True read_on_done [OF last(1)] fill_one [OF j] by (intro exI [of _ s1] exI [of _ xs]) simp
  next
    case False
    then have nl: "rbytes r + 1 \<noteq> ?n" "fs \<noteq> []" using Cons.prems(5) es(3) by (cases bs; auto)+
    let ?r = "r\<lparr>rbytes := rbytes r + 1\<rparr>"
    have r1: "receives s0 p st ?r n s1" using s1(3) read_on_more [OF nl(1)] by simp
    have pre: "part_ptr st ?r \<noteq> 0" "rbytes ?r + length bs = part_len st (rq_header ?r)" "part_len st (rq_header ?r) < 2 ^ 32"
      using Cons.prems(2,5,6) by simp_all
    obtain s' ys where s': "sv_bufs s1 (part_ptr st ?r) = Some ys"
      "receives s0 p st (?r\<lparr>rbytes := 0\<rparr>) n s'" "sv_bufs s' = (sv_bufs s1)(part_ptr st ?r := Some (fill (rbytes ?r) bs ys))"
      "event_process (reads p fs) s1 = after_part (last fs) p st (rq_header ?r) s'"
      using Cons.IH [OF r1 pre(1) False es(3) pre(2,3)] by blast
    have "ys = xs[rbytes r := b]" using s'(1) s1(4) by simp
    then have "sv_bufs s' = (sv_bufs s)(?x := Some (fill (rbytes r) (b # bs) xs))"
      using s'(3) s1(4) fill_Cons [OF j] by simp
    then show ?thesis
      using s1(1,2) s'(2,4) ev s1(5) nl by (intro exI [of _ s'] exI [of _ xs]) (simp add: es(1))
  qed
qed simp

subsection \<open>The header\<close>

definition after_header :: "env \<Rightarrow> ptr \<Rightarrow> server \<Rightarrow> server res" where
  "after_header e p s =
     rbind (header_done e p s) (\<lambda>(ret, s). if ret = READ_ERR then disconnect_conn e p s else Inr s)"

lemma header_byte:
  assumes rc: "receives s0 p READ_HEADER r n s" and z: "rkey r = 0" "rdata r = 0" "rextra r = 0"
    and b: "e_rd e = Rd_byte b" and i: "rbytes r < 12"
  shows "\<exists>s'. receives s0 p READ_HEADER (read_on 12 (r\<lparr>rq_header := (rq_header r)[rbytes r := b]\<rparr>)) n s' \<and>
    event_handler e p EVENT_READ s = (if rbytes r + 1 = 12 then after_header e p s' else Inr s')"
proof -
  let ?s = "upd_conn p (\<lambda>c. c\<lparr>last_heard := e_now e\<rparr>) s"
  let ?r = "read_on 12 (r\<lparr>rq_header := (rq_header r)[rbytes r := b]\<rparr>)"
  note h = heard_receives [OF rc, of e]
  obtain F c where c: "at_req p F c r ?s" "c_state c = READ_HEADER" by (rule receivesE [OF h(1)])
  obtain s' where s': "read_nbytes e p To_header sizeof_req_header ?s = Inr (read_code 12 r, s')" "at_req p F c ?r s'"
    "sv_conns s' = sv_conns ?s" "sv_bufs s' = sv_bufs ?s" "reads_only (c_in c) ?s s'"
    using read_header_byte [OF c(1) z i b] by blast
  have ct: "content s' = content ?s" by (rule content_reads [OF c(1) s'(5)]) (simp add: s'(4))
  have rc': "receives s0 p READ_HEADER ?r n s'"
    by (rule receives_next [OF h(1) c(1) s'(2) c(2) ct])
      (use s'(5) h(1) calm_cong [OF s'(3)] in \<open>simp_all add: reads_only_def receives_def\<close>)
  have "try_read_request e p ?s = rbind (read_nbytes e p To_header sizeof_req_header ?s) (\<lambda>(ret, s).
      if ret = READ_COMPLETED then header_done e p s else Inr (ret, s))"
    using run_conn [OF at_reqD(1) [OF c(1)]] c(2) by (simp add: try_read_request_def)
  then have "event_handler e p EVENT_READ s = (if rbytes r + 1 = 12 then after_header e p s' else Inr s')"
    using h(2) s'(1) by (simp add: after_header_def)
  then show ?thesis using rc' by blast
qed

lemma header_bytes:
  assumes "receives s0 p READ_HEADER r n s" and "rkey r = 0" and "rdata r = 0" and "rextra r = 0"
    and "length (rq_header r) = 12" and "bs \<noteq> []" and "map e_rd es = map Rd_byte bs" and "rbytes r + length bs = 12"
  shows "\<exists>s'. receives s0 p READ_HEADER (r\<lparr>rq_header := fill (rbytes r) bs (rq_header r), rbytes := 0\<rparr>) n s' \<and>
    event_process (reads p es) s = after_header (last es) p s'"
  using assms
proof (induction bs arbitrary: es r s)
  case (Cons b bs)
  obtain e fs where es: "es = e # fs" "e_rd e = Rd_byte b" "map e_rd fs = map Rd_byte bs" using Cons.prems(7) by auto
  let ?h = "(rq_header r)[rbytes r := b]"
  have i: "rbytes r < 12" using Cons.prems(8) by simp
  then have j: "rbytes r < length (rq_header r)" using Cons.prems(5) by simp
  note p = receives_addr [OF Cons.prems(1)]
  obtain s1 where s1: "receives s0 p READ_HEADER (read_on 12 (r\<lparr>rq_header := ?h\<rparr>)) n s1"
    "event_handler e p EVENT_READ s = (if rbytes r + 1 = 12 then after_header e p s1 else Inr s1)"
    using header_byte [OF Cons.prems(1-4) es(2) i] by blast
  have ev: "event_process (reads p es) s = rbind (event_handler e p EVENT_READ s) (event_process (reads p fs))"
    using p by (simp add: es(1))
  show ?case
  proof (cases "bs = []")
    case True
    then have last: "rbytes r + 1 = 12" "fs = []" using Cons.prems(8) es(3) by simp_all
    have "event_process (reads p []) = Inr" by (simp add: fun_eq_iff)
    then have "event_process (reads p es) s = after_header (last es) p s1"
      unfolding ev s1(2) using last by (simp add: es(1) rbind_unit)
    moreover have "read_on 12 (r\<lparr>rq_header := ?h\<rparr>) = r\<lparr>rq_header := fill (rbytes r) (b # bs) (rq_header r), rbytes := 0\<rparr>"
      using last(1) True fill_one [OF j] by (simp add: read_on_def)
    ultimately show ?thesis using s1(1) by auto
  next
    case False
    then have nl: "rbytes r + 1 \<noteq> 12" "fs \<noteq> []" using Cons.prems(8) es(3) by (cases bs; auto)+
    let ?r = "r\<lparr>rq_header := ?h, rbytes := rbytes r + 1\<rparr>"
    have r1: "receives s0 p READ_HEADER ?r n s1" using s1(1) nl(1) by (simp add: read_on_def)
    have pre: "rkey ?r = 0" "rdata ?r = 0" "rextra ?r = 0" "length (rq_header ?r) = 12" "rbytes ?r + length bs = 12"
      using Cons.prems(2-5,8) by simp_all
    obtain s' where s': "receives s0 p READ_HEADER (?r\<lparr>rq_header := fill (rbytes ?r) bs (rq_header ?r), rbytes := 0\<rparr>) n s'"
      "event_process (reads p fs) s1 = after_header (last fs) p s'"
      using Cons.IH [OF r1 pre(1-4) False es(3) pre(5)] by blast
    have "fill (rbytes ?r) bs (rq_header ?r) = fill (rbytes r) (b # bs) (rq_header r)" using fill_Cons [OF j] by simp
    then have "receives s0 p READ_HEADER (r\<lparr>rq_header := fill (rbytes r) (b # bs) (rq_header r), rbytes := 0\<rparr>) n s'"
      using s'(1) by simp
    moreover have "event_process (reads p es) s = after_header (last es) p s'"
      using s'(2) ev s1(2) nl by (simp add: es(1))
    ultimately show ?thesis by blast
  qed
qed simp

subsection \<open>A buffer for the next part\<close>

definition set_part :: "conn_states \<Rightarrow> ptr \<Rightarrow> request \<Rightarrow> request" where
  "set_part st a r =
     (case st of READ_KEY \<Rightarrow> r\<lparr>rkey := a\<rparr> | READ_DATA \<Rightarrow> r\<lparr>rdata := a\<rparr> | READ_EXTRA \<Rightarrow> r\<lparr>rextra := a\<rparr> | _ \<Rightarrow> r)"

lemma set_part_simps [simp]:
  "rq_header (set_part st a r) = rq_header r" "rbytes (set_part st a r) = rbytes r"
  "rq_can_free (set_part st a r) = rq_can_free r"
  by (cases st; simp add: set_part_def)+

lemma set_part_ptr: "part_len st h \<noteq> 0 \<Longrightarrow> part_ptr st (set_part st a r) = a"
  by (cases st) (simp_all add: part_len_def part_ptr_def set_part_def)

lemma set_conn_part: "part_len st h \<noteq> 0 \<Longrightarrow> set_conn_state e p st s = take_buffer e p st (part_len st) (set_part st) s"
  by (cases st) (simp_all add: part_len_def [abs_def] set_conn_state_def set_part_def [abs_def])

lemma req_ok_set_part:
  assumes ok: "req_ok s q r" and n: "part_len st (rq_header r) \<noteq> 0" and a: "a \<noteq> 0" "a \<notin> req_blks s q"
    and q: "sv_reqs s' q = Some (set_part st a r)" and b: "buf_ok s' a (part_len st (rq_header r))"
    and o: "\<And>x. x \<noteq> a \<Longrightarrow> sv_bufs s' x = sv_bufs s x"
  shows "req_ok s' q (set_part st a r)"
proof -
  note p = own_ptrs [OF ok a(2)]
  have c: "buf_ok s' x m" if "buf_ok s x m" "x \<noteq> a" for x m using that o [of x] by (simp add: buf_ok_def)
  have "rkey r \<noteq> a" "rdata r \<noteq> a" "rextra r \<noteq> a" using p(2-4) a(1) by blast+
  with n show ?thesis
    by (cases rule: part_states) (use ok p(1) q b c a(1) in \<open>auto simp: req_ok_def set_part_def part_len_def\<close>)
qed

lemma spare_s_malloc:
  assumes "spare (Suc k) (sv_mem s)" and "0 < n" and "n \<le> largest_chunk"
  obtains a m where "s_malloc e n s = Inr (a, s\<lparr>sv_mem := m\<rparr>)" and "a \<noteq> 0" and "spare k m"
proof -
  obtain a m where a: "li_malloc (e_malloc e) n (sv_mem s) = Inr (Some a, m)" "spare k m"
    using spare_malloc [OF assms] by blast
  have "slab_inv (sv_mem s)" using assms(1) by (simp add: spare_def)
  then have "a \<noteq> 0"
    by (cases rule: slab_alloc.malloc_cases [where n = n and mf = "e_malloc e"]) (use a(1) in simp_all)
  with a show thesis by (intro that) (simp_all add: s_malloc_def)
qed

lemma receives_buffer:
  assumes rc: "receives s0 p st0 r (Suc n) s" and l: "part_len st (rq_header r) \<noteq> 0" "part_len st (rq_header r) < largest_chunk"
  obtains a s' xs where "set_conn_state e p st s = Inr s'" and "receives s0 p st (set_part st a r) n s'"
    and "a \<noteq> 0" and "a \<notin> {rkey r, rdata r, rextra r}"
    and "sv_bufs s' = (sv_bufs s)(a := Some xs)" and "length xs = Suc (part_len st (rq_header r))"
    and "xs ! part_len st (rq_header r) = 0"
proof -
  let ?n = "part_len st (rq_header r)"
  obtain F c where c: "at_req p F c r s" "c_state c = st0" by (rule receivesE [OF rc])
  note a = at_reqD [OF c(1)]
  have sp: "spare (Suc n) (sv_mem s)" using rc by (simp add: receives_def)
  have n1: "?n + 1 < 2 ^ 32" using l(2) by (simp add: largest_chunk_def)
  have "0 < ?n + 1" "?n + 1 \<le> largest_chunk" using l(2) by simp_all
  then obtain b m where b: "s_malloc e (?n + 1) s = Inr (b, s\<lparr>sv_mem := m\<rparr>)" "b \<noteq> 0" "spare n m"
    by (rule spare_s_malloc [OF sp])
  have st: "st \<noteq> SEND_HEADER" using l(1) by (auto simp: part_len_def)
  have bl: "{rkey (set_part st x r), rdata (set_part st x r), rextra (set_part st x r)} \<subseteq> insert x {rkey r, rdata r, rextra r}" for x
    by (cases st) (simp_all add: set_part_def)
  note step = take_buffer_step [where e = e and setp = "set_part st" and len = "part_len st", OF c(1) refl n1 st set_part_simps(3) bl]
  show thesis
  proof (rule step)
    show "req_ok s' (c_in c) (set_part st x r)"
      if "x \<noteq> 0" "x \<notin> req_blks s (c_in c)" "sv_reqs s' (c_in c) = Some (set_part st x r)" "buf_ok s' x ?n"
        "\<And>y. y \<noteq> x \<Longrightarrow> sv_bufs s' y = sv_bufs s y" for x s'
      by (rule req_ok_set_part [OF a(9) l(1) that])
  next
    assume "s_malloc e (?n + 1) s = Inr (0, s)"
    then show thesis using b(1,2) by simp
  next
    fix x m' s' xs
    assume m': "s_malloc e (?n + 1) s = Inr (x, s\<lparr>sv_mem := m'\<rparr>)" and tb: "take_buffer e p st (part_len st) (set_part st) s = Inr s'"
      and x: "x \<noteq> 0" "x \<notin> slab_live (sv_mem s)" and at': "at_req p (insert x F) (in_state st c) (set_part st x r) s'"
      and bufs: "sv_bufs s' = (sv_bufs s)(x := Some xs)" and xs: "length xs = Suc ?n" "xs ! ?n = 0"
      and reqs: "sv_reqs s' = (sv_reqs s)(c_in c := Some (set_part st x r))" and mem: "sv_mem s' = m'"
      and rest: "sv_cache s' = sv_cache s" "sv_sent s' = sv_sent s" "conns_upd p s s'"
    have "m' = m" using m' b(1) by (auto dest!: arg_cong [where f = sv_mem])
    have ct: "content s' = content s"
    proof (rule content_own [OF run_inv [OF a(1)] at_req_addr [OF c(1)] rest(1)])
      show "same_on (slab_live (sv_mem s) - F) s s'" using x(2) a(12) by (auto simp: same_on_def bufs reqs)
    qed
    have "receives s0 p st (set_part st x r) n s'"
      by (rule receives_next [OF rc c(1) at' _ ct rest(2) calm_upd [OF _ rest(3)]])
        (use rc b(3) mem \<open>m' = m\<close> in \<open>simp_all add: receives_def\<close>)
    moreover have "set_conn_state e p st s = Inr s'" using set_conn_part [OF l(1)] tb by simp
    moreover have "x \<notin> {rkey r, rdata r, rextra r}"
      using a(8) req_ok_in_blks [OF a(9)] run_live [OF a(1)] x by auto
    ultimately show thesis using x(1) bufs xs by (intro that)
  qed
qed

text \<open>A whole part, from the buffer for it to its last byte.\<close>

lemma receives_part:
  assumes rc: "receives s0 p st0 r (Suc n) s" and z: "rbytes r = 0" and es: "map e_rd es = map Rd_byte bs" and bs: "bs \<noteq> []"
    and l: "part_len st (rq_header r) = length bs" "length bs < largest_chunk"
  obtains a s' where "rbind (set_conn_state e p st s) (event_process (reads p es)) = after_part (last es) p st (rq_header r) s'"
    and "receives s0 p st (set_part st a r) n s'" and "a \<noteq> 0" and "a \<notin> {rkey r, rdata r, rextra r}"
    and "sv_bufs s' = (sv_bufs s)(a := Some (bs @ [0]))"
proof -
  have nz: "part_len st (rq_header r) \<noteq> 0" using l(1) bs by simp
  obtain a s1 xs where s1: "set_conn_state e p st s = Inr s1" "receives s0 p st (set_part st a r) n s1" "a \<noteq> 0"
    "a \<notin> {rkey r, rdata r, rextra r}" "sv_bufs s1 = (sv_bufs s)(a := Some xs)" "length xs = Suc (length bs)" "xs ! length bs = 0"
    using receives_buffer [OF rc nz] l by metis
  let ?r = "set_part st a r"
  have pp: "part_ptr st ?r = a" by (rule set_part_ptr [OF nz])
  have "part_ptr st ?r \<noteq> 0" "rbytes ?r + length bs = part_len st (rq_header ?r)" "part_len st (rq_header ?r) < 2 ^ 32"
    using pp s1(3) z l by (simp_all add: largest_chunk_def)
  then obtain s' ys where s': "sv_bufs s1 a = Some ys" "receives s0 p st (?r\<lparr>rbytes := 0\<rparr>) n s'"
    "sv_bufs s' = (sv_bufs s1)(a := Some (fill (rbytes ?r) bs ys))"
    "event_process (reads p es) s1 = after_part (last es) p st (rq_header ?r) s'"
    using part_bytes [OF s1(2) _ bs es] unfolding pp by blast
  have "ys = xs" using s'(1) s1(5) by simp
  moreover have "drop (length bs) xs = [0]" using s1(6,7) by (metis Cons_nth_drop_Suc drop_all lessI order_refl)
  ultimately have "sv_bufs s' = (sv_bufs s)(a := Some (bs @ [0]))" using s'(3) s1(5) z by (simp add: fill_def)
  moreover have "?r\<lparr>rbytes := 0\<rparr> = ?r" using z by (cases ?r) (metis request.update_convs(5) set_part_simps(2) request.surjective)
  ultimately show thesis using s1 s' by (intro that) simp_all
qed

subsection \<open>The command\<close>

lemma receives_header:
  assumes rc: "receives s0 p READ_HEADER r n s" and z: "rkey r = 0" "rdata r = 0" "rextra r = 0"
    and h: "rq_header r = wire_header op k d x" and wf: "well_formed op k d x"
  obtains s' where "receives s0 p READ_HEADER (r\<lparr>rq_header := header_to_host (rq_header r)\<rparr>) n s'"
    and "after_header e p s = (if k = [] then run_command e p s' else set_conn_state e p READ_KEY s')"
proof -
  let ?h = "header_to_host (rq_header r)" and ?f = "\<lambda>r. r\<lparr>rq_header := header_to_host (rq_header r)\<rparr>"
  obtain F c where c: "at_req p F c r s" "c_state c = READ_HEADER" by (rule receivesE [OF rc])
  note a = at_reqD [OF c(1)]
  let ?s = "upd_req (c_in c) ?f s"
  have "length (rq_header r) = 12" using a(9) by (simp add: req_ok_def)
  then have at1: "at_req p F c (?f r) ?s" using z by (intro at_req_upd [OF c(1)]) simp_all
  have ct: "content ?s = content s" by (rule content_reads [OF c(1)]) simp_all
  have r: "receives s0 p READ_HEADER (?f r) n ?s"
    by (rule receives_next [OF rc c(1) at1 c(2) ct]) (use rc in \<open>simp_all add: receives_def calm_def upd_req_def\<close>)
  note hh = host_header [OF wf, folded h]
  have "in_limits ?h" using host_header_good(1) [OF wf] h by simp
  then have "header_done e p s = rbind (if key_length ?h = 0 then run_command e p ?s else set_conn_state e p READ_KEY ?s)
      (\<lambda>s. Inr (READ_COMPLETED, s))"
    using run_conn [OF a(1)] req_ok_of [OF at_reqD(9) [OF at1]]
    by (simp add: header_done_def in_limits_def Let_def not_le)
  then have "after_header e p s = (if k = [] then run_command e p ?s else set_conn_state e p READ_KEY ?s)"
    using hh(3) by (simp add: after_header_def rbind_assoc rbind_unit)
  with r show thesis by (rule that)
qed

text \<open>The request that has been read: its parts are the bytes that came.\<close>

definition has_parts :: "byte list \<Rightarrow> byte list \<Rightarrow> byte list \<Rightarrow> byte list \<Rightarrow> request \<Rightarrow> server \<Rightarrow> bool" where
  "has_parts h k d x r s \<longleftrightarrow> rq_header r = h \<and> rbytes r = 0 \<and>
     (if k = [] then rkey r = 0 else rkey r \<noteq> 0 \<and> sv_bufs s (rkey r) = Some (k @ [0])) \<and>
     (if d = [] then rdata r = 0 else rdata r \<noteq> 0 \<and> sv_bufs s (rdata r) = Some (d @ [0])) \<and>
     (if x = [] then rextra r = 0 else rextra r \<noteq> 0 \<and> sv_bufs s (rextra r) = Some (x @ [0]))"

lemma has_parts_request:
  assumes wf: "well_formed op k d x" and h: "has_parts (header_to_host (wire_header op k d x)) k d x r s"
  shows "complete s r" and "key_of s r = k" and "data_of s r = (if d = [] then None else Some d)"
    and "x \<noteq> [] \<Longrightarrow> timeout_of s r = timeout_in x" and "rq_opcode (rq_header r) = op"
proof -
  note hh = host_header [OF wf]
  have hd: "rq_header r = header_to_host (wire_header op k d x)" using h by (simp add: has_parts_def)
  show "rq_opcode (rq_header r) = op" using hh(2) hd by simp
  show "key_of s r = k" using h hh(3) by (auto simp: key_of_def key_str_def hd has_parts_def split: if_splits)
  show "data_of s r = (if d = [] then None else Some d)"
    using h hh(4) by (auto simp: data_of_def buf_data_def hd has_parts_def split: if_splits)
  show "timeout_of s r = timeout_in x" if "x \<noteq> []" using h that by (simp add: timeout_of_def timeout_in_def has_parts_def)
  have "key_full s r" if "k \<noteq> []"
    using h that hh(3) wf by (simp add: key_full_def key_ok_def hd has_parts_def well_formed_def)
  then show "complete s r"
    using h hh(3-5) host_header_good(2) [OF wf] wf by (auto simp: complete_def hd has_parts_def well_formed_def split: if_splits)
qed

lemma parts_kept:
  assumes "kept s s'"
  shows "key_of s' r = key_of s r" and "data_of s' r = data_of s r" and "timeout_of s' r = timeout_of s r"
  using assms by (simp_all add: kept_def key_of_def data_of_def buf_data_def timeout_of_def)

lemma receives_run:
  assumes rc: "receives s0 p st r n s" and wf: "well_formed op k d x" and h: "has_parts (header_to_host (wire_header op k d x)) k d x r s"
    and e: "env_ok e"
  shows "\<exists>s'. run_command e p s = Inr s' \<and>
    (case command_of op of
       Some CMD_GET \<Rightarrow> meets p (spec_get (e_now e) k (content s0)) s'
     | Some CMD_SET \<Rightarrow> set_refused p s' \<or>
         meets p (spec_set (e_now e) k (if d = [] then None else Some d) (timeout_in x) (content s0)) s'
     | Some CMD_DELETE \<Rightarrow> meets p (spec_delete k (content s0)) s'
     | Some CMD_FLUSH_ALL \<Rightarrow> meets p (spec_flush (content s0)) s'
     | _ \<Rightarrow> server_inv s')"
proof -
  obtain F c where c: "at_req p F c r s" by (rule receivesE [OF rc])
  note a = at_reqD [OF c]
  let ?f = "\<lambda>c. c\<lparr>c_state := CMD_RECEIVED\<rparr>"
  let ?s = "upd_conn p ?f s"
  have k: "kept s ?s" by simp
  have "run p F (?f c) ?s" by (rule run_upd_conn [OF a(1)]) simp
  then have at1: "at_req p F (?f c) r ?s"
    unfolding at_req_def using a keptD [OF k] by (simp add: has_req_def client_def)
  have calm: "calm p ?s" using rc by (intro calm_upd [OF _ conns_upd_upd_conn]) (simp_all add: receives_def)
  note hp = has_parts_request [OF wf h]
  have cp: "complete ?s r" using hp(1) by (simp add: complete_def key_full_def)
  have eq: "key_of ?s r = k" "data_of ?s r = (if d = [] then None else Some d)" "timeout_of ?s r = timeout_of s r"
    "content ?s = content s0"
    using hp(2,3) content_kept [OF k] parts_kept [OF k] rc by (simp_all add: receives_def)
  have to: "spec_set (e_now e) k (if d = [] then None else Some d) (timeout_of s r) f =
      spec_set (e_now e) k (if d = [] then None else Some d) (timeout_in x) f" if "command_of op = Some CMD_SET" for f
    using that hp(4) wf by (auto simp: spec_set_def well_formed_def)
  have "run_command e p s = execute_cmd e p ?s" by (simp add: run_command_def set_conn_state_def set_state_plain_def)
  then show ?thesis
    using execute_ok [OF at1 _ cp calm e, unfolded eq hp(5)] to
    by (auto split: option.splits commands.splits)
qed

subsection \<open>The whole request\<close>

lemma reads_append: "event_process (reads p (es @ fs)) s = rbind (event_process (reads p es) s) (event_process (reads p fs))"
  by (simp add: event_process_append)

lemma reads_nil: "event_process (reads p []) = Inr"
  by (simp add: fun_eq_iff)

lemma reads_split:
  assumes "map e_rd es = map Rd_byte (bs @ cs)"
  obtains es1 es2 where "es = es1 @ es2" and "map e_rd es1 = map Rd_byte bs" and "map e_rd es2 = map Rd_byte cs"
  using assms by (auto simp: map_eq_append_conv)

lemma reads_four:
  assumes "map e_rd es = map Rd_byte (as @ bs @ cs @ ds)"
  shows "\<exists>w x y z. es = w @ x @ y @ z \<and> map e_rd w = map Rd_byte as \<and> map e_rd x = map Rd_byte bs \<and>
    map e_rd y = map Rd_byte cs \<and> map e_rd z = map Rd_byte ds"
proof -
  obtain w e1 where 1: "es = w @ e1" "map e_rd w = map Rd_byte as" "map e_rd e1 = map Rd_byte (bs @ cs @ ds)"
    by (rule reads_split [OF assms])
  obtain x e2 where 2: "e1 = x @ e2" "map e_rd x = map Rd_byte bs" "map e_rd e2 = map Rd_byte (cs @ ds)"
    by (rule reads_split [OF 1(3)])
  obtain y z where 3: "e2 = y @ z" "map e_rd y = map Rd_byte cs" "map e_rd z = map Rd_byte ds"
    by (rule reads_split [OF 2(3)])
  from 1 2 3 show ?thesis by blast
qed

lemma part_lengths:
  assumes wf: "well_formed op k d x" and h: "h = header_to_host (wire_header op k d x)"
  shows "part_len READ_KEY h = length k" and "part_len READ_DATA h = length d" and "part_len READ_EXTRA h = length x"
    and "length k < largest_chunk" and "length d < largest_chunk" and "length x < largest_chunk"
  using host_header [OF wf] wf
  by (simp_all add: h part_len_def well_formed_def largest_chunk_def PROTOCOL_MAX_KEY_SIZE_def
      PROTOCOL_MAX_DATA_SIZE_def PROTOCOL_MAX_EXTRA_SIZE_def)

text \<open>A part of the request that is read adds to what is there.\<close>

lemma read_part:
  assumes rc: "receives s0 p st0 r (Suc n) s" and h: "has_parts h k d x r s"
    and es: "map e_rd es = map Rd_byte bs" and l: "part_len st h = length bs" "bs \<noteq> []" "length bs < largest_chunk"
    and new: "st = READ_KEY \<and> k = [] \<and> d = [] \<and> x = [] \<and> y = (bs, [], []) \<or>
      st = READ_DATA \<and> d = [] \<and> x = [] \<and> y = (k, bs, []) \<or> st = READ_EXTRA \<and> x = [] \<and> y = (k, d, bs)"
  obtains s' r' where "rbind (set_conn_state e p st s) (event_process (reads p es)) = after_part (last es) p st h s'"
    and "receives s0 p st r' n s'" and "case y of (k, d, x) \<Rightarrow> has_parts h k d x r' s'"
proof -
  have r: "rq_header r = h" "rbytes r = 0" using h by (simp_all add: has_parts_def)
  obtain a s' where a: "rbind (set_conn_state e p st s) (event_process (reads p es)) = after_part (last es) p st h s'"
    "receives s0 p st (set_part st a r) n s'" "a \<noteq> 0" "a \<notin> {rkey r, rdata r, rextra r}"
    "sv_bufs s' = (sv_bufs s)(a := Some (bs @ [0]))"
    by (rule receives_part [OF rc r(2) es l(2), unfolded r(1), OF l(1,3)])
  have "case y of (k, d, x) \<Rightarrow> has_parts h k d x (set_part st a r) s'"
    using new
    by (elim disjE conjE) (use h a(3-5) l(2) in \<open>simp_all add: has_parts_def set_part_def split: if_splits\<close>)
  with a(1,2) show thesis by (rule that)
qed

lemma request_header:
  assumes rc: "receives s0 p READ_HEADER r n s" and z: "rkey r = 0" "rdata r = 0" "rextra r = 0" "rbytes r = 0"
    and wf: "well_formed op k d x" and es: "map e_rd es = map Rd_byte (wire_header op k d x)"
  obtains s' r' where "event_process (reads p es) s =
      (if k = [] then run_command (last es) p s' else set_conn_state (last es) p READ_KEY s')"
    and "receives s0 p READ_HEADER r' n s'" and "has_parts (header_to_host (wire_header op k d x)) [] [] [] r' s'"
proof -
  let ?w = "wire_header op k d x"
  have hl: "length ?w = 12" by (rule host_header(1) [OF wf])
  then have ne: "?w \<noteq> []" by auto
  obtain F c where "at_req p F c r s" by (rule receivesE [OF rc])
  then have rl: "length (rq_header r) = 12" using at_reqD(9) by (simp add: req_ok_def)
  have full: "fill (rbytes r) ?w (rq_header r) = ?w" using hl rl z(4) by (simp add: fill_def)
  let ?r = "r\<lparr>rq_header := ?w, rbytes := 0\<rparr>"
  obtain s1 where s1: "receives s0 p READ_HEADER ?r n s1" "event_process (reads p es) s = after_header (last es) p s1"
    using header_bytes [OF rc z(1-3) rl ne es] hl z(4) unfolding full by auto
  obtain s' where s': "receives s0 p READ_HEADER (?r\<lparr>rq_header := header_to_host (rq_header ?r)\<rparr>) n s'"
    "after_header (last es) p s1 = (if k = [] then run_command (last es) p s' else set_conn_state (last es) p READ_KEY s')"
    by (rule receives_header [OF s1(1) _ _ _ _ wf, where e = "last es"]) (use z in simp_all)
  show thesis by (rule that [OF _ s'(1)]) (use s1(2) s'(2) z in \<open>simp_all add: has_parts_def\<close>)
qed

lemma last_appended: "map f es = map g bs \<Longrightarrow> bs \<noteq> [] \<Longrightarrow> last (fs @ es) = last es"
  by (cases es) simp_all

lemma request_runs:
  assumes rc: "receives s0 p READ_HEADER r 3 s" and z: "rkey r = 0" "rdata r = 0" "rextra r = 0" "rbytes r = 0"
    and wf: "well_formed op k d x" and es: "map e_rd es = map Rd_byte (wire op k d x)"
  shows "\<exists>s' st r' n. event_process (reads p es) s = run_command (last es) p s' \<and> receives s0 p st r' n s' \<and>
    has_parts (header_to_host (wire_header op k d x)) k d x r' s'"
proof -
  define h where "h = header_to_host (wire_header op k d x)"
  note pl = part_lengths [OF wf h_def] and hh = host_header [OF wf, folded h_def]
  have e: "d = [] \<Longrightarrow> x = []" "k = [] \<Longrightarrow> d = []" using wf by (auto simp: well_formed_def)
  obtain eh ek ed ex where s: "es = ((eh @ ek) @ ed) @ ex" "map e_rd eh = map Rd_byte (wire_header op k d x)"
    "map e_rd ek = map Rd_byte k" "map e_rd ed = map Rd_byte d" "map e_rd ex = map Rd_byte x"
    using reads_four [OF es [unfolded wire_def]] by auto
  obtain s1 r1 where s1: "event_process (reads p eh) s = (if k = [] then run_command (last eh) p s1 else set_conn_state (last eh) p READ_KEY s1)"
    "receives s0 p READ_HEADER r1 (Suc 2) s1" "has_parts h [] [] [] r1 s1"
    using request_header [OF rc z wf s(2)] unfolding h_def by (metis eval_nat_numeral(3))
  show ?thesis
  proof (cases "k = []")
    case True
    then show ?thesis using s s1 e unfolding h_def by auto
  next
    case k: False
    obtain s2 r2 where s2: "rbind (set_conn_state (last eh) p READ_KEY s1) (event_process (reads p ek)) = after_part (last ek) p READ_KEY h s2"
      "receives s0 p READ_KEY r2 (Suc 1) s2" "has_parts h k [] [] r2 s2"
      by (rule read_part [OF s1(2,3) s(3) pl(1) k pl(4), where y = "(k, [], [])"]) (simp_all add: numeral_2_eq_2)
    have ek: "event_process (reads p (eh @ ek)) s = after_part (last ek) p READ_KEY h s2"
      unfolding reads_append using s1(1) s2(1) k by simp
    show ?thesis
    proof (cases "d = []")
      case True
      then show ?thesis
        using s ek s2(2,3) e(1) hh(4) last_appended [OF s(3) k, of eh] unfolding h_def by (auto simp: after_part_def)
    next
      case d: False
      obtain s3 r3 where s3: "rbind (set_conn_state (last ek) p READ_DATA s2) (event_process (reads p ed)) = after_part (last ed) p READ_DATA h s3"
        "receives s0 p READ_DATA r3 (Suc 0) s3" "has_parts h k d [] r3 s3"
        by (rule read_part [OF s2(2,3) s(4) pl(2) d pl(5), where y = "(k, d, [])"]) simp_all
      have ed: "event_process (reads p ((eh @ ek) @ ed)) s = after_part (last ed) p READ_DATA h s3"
        unfolding reads_append [of p "eh @ ek"] ek using s3(1) d hh(4) by (simp add: after_part_def)
      show ?thesis
      proof (cases "x = []")
        case True
        then show ?thesis
          using s ed s3(2,3) hh(5) last_appended [OF s(4) d, of "eh @ ek"] unfolding h_def by (auto simp: after_part_def)
      next
        case x: False
        obtain s4 r4 where s4: "rbind (set_conn_state (last ed) p READ_EXTRA s3) (event_process (reads p ex)) = after_part (last ex) p READ_EXTRA h s4"
          "receives s0 p READ_EXTRA r4 0 s4" "has_parts h k d x r4 s4"
          by (rule read_part [OF s3(2,3) s(5) pl(3) x pl(6), where y = "(k, d, x)"]) simp_all
        have "event_process (reads p es) s = run_command (last ex) p s4"
          unfolding s(1) reads_append [of p "(eh @ ek) @ ed"] ed using s4(1) x hh(5) by (simp add: after_part_def)
        then show ?thesis
          using s4(2,3) last_appended [OF s(5) x, of "(eh @ ek) @ ed"] unfolding s(1) h_def by metis
      qed
    qed
  qed
qed

lemma receives_start:
  assumes inv: "server_inv s" and c: "conn_of s p = Inr c" "c_state c = READ_HEADER" "\<not> c_free c" "\<not> c_listening c"
    and r: "req_of s (c_in c) = Inr r" and calm: "calm p s" and sp: "spare n (sv_mem s)"
  shows "receives s p READ_HEADER r n s" and "rkey r = 0" and "rdata r = 0" and "rextra r = 0"
proof -
  have cl: "client c" using c(3,4) by (simp add: client_def)
  obtain r' where r': "has_req s c r'" "at_req p (foot s c) c r' s \<and> reading s c r' \<or> sending s c"
    by (rule conn_ok_client [OF inv c(1) cl])
  have "r' = r" using r r'(1) req_ok_of by (auto simp: has_req_def)
  moreover have "\<not> sending s c" using c(2) by (simp add: sending_def)
  ultimately have at: "at_req p (foot s c) c r s" and rd: "reading s c r" using r'(2) by auto
  show "receives s p READ_HEADER r n s" using at c(2) calm sp by (auto simp: receives_def)
  show "rkey r = 0" "rdata r = 0" "rextra r = 0" using rd c(2) by (simp_all add: reading_def Let_def)
qed

text \<open>
  C3: a request is served as the abstract cache says, from its first byte on the wire to the
  response. When a connection waits for a request, nobody else is sending, and there is memory
  for the three parts, the read events that deliver a well-formed request \<open>op\<close>, \<open>k\<close>, \<open>d\<close>, \<open>x\<close>
  byte by byte are handled without a fault, and afterwards the connection has the response of
  the abstract cache to this request in hand, and the contents of the cache have changed as
  those of the abstract cache; a \<open>CMD_SET\<close> may also be refused with \<open>OUT_OF_MEMORY\<close>.
\<close>

theorem request_served:
  assumes "server_inv s" and "conn_of s p = Inr c" and "c_state c = READ_HEADER" and "\<not> c_free c" and "\<not> c_listening c"
    and "req_of s (c_in c) = Inr r" and "rbytes r = 0" and "calm p s" and "spare 3 (sv_mem s)"
    and "well_formed op k d x" and "map e_rd es = map Rd_byte (wire op k d x)" and "env_ok (last es)"
  shows "\<exists>s'. event_process (map (\<lambda>e. (p, Some e, None)) es) s = Inr s' \<and>
    (case command_of op of
       Some CMD_GET \<Rightarrow> meets p (spec_get (e_now (last es)) k (content s)) s'
     | Some CMD_SET \<Rightarrow> set_refused p s' \<or>
         meets p (spec_set (e_now (last es)) k (if d = [] then None else Some d) (timeout_in x) (content s)) s'
     | Some CMD_DELETE \<Rightarrow> meets p (spec_delete k (content s)) s'
     | Some CMD_FLUSH_ALL \<Rightarrow> meets p (spec_flush (content s)) s'
     | _ \<Rightarrow> server_inv s')"
proof -
  note st = receives_start [OF assms(1-6,8,9)]
  obtain s1 st r' n where "event_process (reads p es) s = run_command (last es) p s1" "receives s p st r' n s1"
    "has_parts (header_to_host (wire_header op k d x)) k d x r' s1"
    using request_runs [OF st assms(7,10,11)] by blast
  then show ?thesis using receives_run [OF _ assms(10) _ assms(12)] unfolding reads_def by metis
qed

text \<open>A \<open>CMD_GET\<close> of a key that is not there, on a new connection.\<close>

theorem request_served_witness:
  "\<exists>s p s'. event_process (map (\<lambda>b. (p, Some (sample_env\<lparr>e_rd := Rd_byte b\<rparr>), None)) (wire 0 [107] [] [])) s = Inr s' \<and>
     reply s' p = Some (SEND_HEADER, code_byte KEY_NOTEXISTS, [])"
proof -
  obtain s p F c r where s: "server_inv s" "at_req p F c r s" "c_state c = READ_HEADER" "rbytes r = 0"
    "hview (sv_cache s) = Map.empty" "sv_conns s = [c]" "spare 59 (sv_mem s)" "conn_of s p = Inr c" "req_of s (c_in c) = Inr r"
    by (rule sample_server)
  have cl: "\<not> c_free c" "\<not> c_listening c" using at_reqD(2) [OF s(2)] by (simp_all add: client_def)
  have "c_addr c = p" by (rule conn_ofD(2) [OF s(8)])
  then have calm: "calm p s" using s(6) by (simp add: calm_def)
  have sp: "spare 3 (sv_mem s)" using s(7) by (auto simp: spare_def)
  have wf: "well_formed 0 [107] [] []"
    by (simp add: well_formed_def PROTOCOL_MAX_KEY_SIZE_def PROTOCOL_MAX_DATA_SIZE_def PROTOCOL_MAX_EXTRA_SIZE_def command_of_def)
  let ?es = "map (\<lambda>b. sample_env\<lparr>e_rd := Rd_byte b\<rparr>) (wire 0 [107] [] [])"
  have es: "map e_rd ?es = map Rd_byte (wire 0 [107] [] [])" by simp
  have ne: "wire 0 [107] [] [] \<noteq> []" by (simp add: wire_def)
  have "env_ok (sample_env\<lparr>e_rd := Rd_byte b\<rparr>)" for b by (simp add: env_ok_def sample_env_def)
  then have e: "env_ok (last ?es)" using ne by (simp add: last_map)
  have "content s = Map.empty" by (simp add: fun_eq_iff content_def s(5))
  then have g: "spec_get now [107] (content s) = ((KEY_NOTEXISTS, []), Map.empty)" for now by (simp add: spec_get_def)
  have "command_of 0 = Some CMD_GET" by (simp add: command_of_def)
  then show ?thesis
    using request_served [OF s(1,8,3) cl s(9,4) calm sp wf es e] unfolding g by (auto simp: meets_def comp_def)
qed

end
