(* ===== verification/Mem_Frame.thy ===== *)
theory Mem_Frame
  imports Mem Hashtab
begin

text \<open>
  Rules for what a result satisfies if there is one, and with them that the operations of the
  hash table keep whatever \<open>li_malloc\<close> and \<open>li_free\<close> keep of the memory, such as the memory limit.
\<close>

subsection \<open>Results that satisfy a condition\<close>

text \<open>Partial correctness: the result, if there is one, satisfies \<open>Q\<close>.\<close>

definition yields :: "('a \<Rightarrow> bool) \<Rightarrow> 'a res \<Rightarrow> bool" where
  "yields Q x \<longleftrightarrow> (\<forall>y. x = Inr y \<longrightarrow> Q y)"

lemma yields_simps [simp]: "yields Q (Inr y) = Q y" "yields Q (Inl x)"
  by (simp_all add: yields_def)

lemma yieldsD: "yields Q x \<Longrightarrow> x = Inr y \<Longrightarrow> Q y"
  by (simp add: yields_def)

lemma yields_then: "yields P x \<Longrightarrow> (\<And>y. P y \<Longrightarrow> yields Q (f y)) \<Longrightarrow> yields Q (rbind x f)"
  by (cases x) simp_all

lemma yields_look: "(\<And>y. x = Inr y \<Longrightarrow> yields Q (f y)) \<Longrightarrow> yields Q (rbind x f)"
  by (cases x) simp_all

lemma yields_if: "(b \<Longrightarrow> yields Q x) \<Longrightarrow> (\<not> b \<Longrightarrow> yields Q y) \<Longrightarrow> yields Q (if b then x else y)"
  by simp

lemma yields_option: "(x = None \<Longrightarrow> yields Q f) \<Longrightarrow> (\<And>y. x = Some y \<Longrightarrow> yields Q (g y)) \<Longrightarrow>
    yields Q (case x of None \<Rightarrow> f | Some y \<Rightarrow> g y)"
  by (cases x) simp_all

lemma yields_InrI: "Q y \<Longrightarrow> yields Q (Inr y)"
  by simp

text \<open>
  The rules that take a body apart: one for each function called, in a bind or last; what is
  left are the ranges of the fields that are set.
\<close>

named_theorems yields_rules

lemmas [yields_rules] = yields_if yields_option yields_InrI yields_simps(2)

subsection \<open>What the hash table keeps of the memory\<close>

text \<open>A condition on the memory that allocating and releasing keep.\<close>

locale mem_frame =
  fixes ml :: "nat \<Rightarrow> 'm \<Rightarrow> (nat option \<times> 'm) res" and fr :: "nat \<Rightarrow> 'm \<Rightarrow> 'm res" and P :: "'m \<Rightarrow> bool"
  assumes ml_law: "P m \<Longrightarrow> yields (\<lambda>(r, m). P m) (ml n m)"
    and fr_law: "P m \<Longrightarrow> yields P (fr x m)"
begin

lemma ml_then: "P m \<Longrightarrow> (\<And>r m. P m \<Longrightarrow> yields Q (f r m)) \<Longrightarrow> yields Q (rbind (ml n m) (\<lambda>(r, m). f r m))"
  by (rule yields_then [OF ml_law]) auto

lemma fr_then: "P m \<Longrightarrow> (\<And>m. P m \<Longrightarrow> yields Q (f m)) \<Longrightarrow> yields Q (rbind (fr x m) f)"
  by (rule yields_then [OF fr_law])

lemma ml_keeps: "ml n m = Inr (r, m') \<Longrightarrow> P m \<Longrightarrow> P m'"
  using ml_law [of m n] by simp

lemma fr_keeps: "fr x m = Inr m' \<Longrightarrow> P m \<Longrightarrow> P m'"
  using fr_law [of m x] by simp

lemma htcreate_frame: "P m \<Longrightarrow> yields (\<lambda>(t, m). P m) (htcreate ml fr logsize m)"
  unfolding htcreate_def by (intro ml_then fr_then yields_option yields_if) simp_all

lemma hreuse_frame: "P m \<Longrightarrow> yields (\<lambda>(r, ht, m). P m) (hreuse ml fr ht new key klen val m)"
  unfolding hreuse_def
  by (rule yields_then [where P = "\<lambda>(x, m). P m"])
    (auto intro!: yields_if fr_then ml_then yields_look split: option.split dest: ml_keeps fr_keeps)

lemma hinsert_frame: "P m \<Longrightarrow> yields (\<lambda>(r, ht, m). P m) (hinsert ml fr ht h ps key klen val m)"
  unfolding hinsert_def by (intro ml_then fr_then yields_option yields_look) simp_all

lemma hput_frame: "P m \<Longrightarrow> yields (\<lambda>(r, ht, m). P m) (hput ml fr ht key klen val m)"
  unfolding hput_def
  by (auto intro!: yields_look hinsert_frame hreuse_frame split: option.split)

lemma move_chain_frame:
  assumes "\<And>d key klen val m. P m \<Longrightarrow> yields (\<lambda>(r, d, m). P m) (hs d key klen val m)"
  shows "P m \<Longrightarrow> yields (\<lambda>(xs, d, m). P m) (move_chain hs fr ps d m)"
proof (induction ps arbitrary: d m)
  case (Cons p ps)
  show ?case unfolding move_chain.simps Let_def
    by (rule yields_then [OF assms [OF Cons.prems]])
      (auto intro!: yields_look fr_then Cons.IH split: option.split, blast intro: fr_keeps)
qed simp

lemma move_table_frame:
  assumes "\<And>d key klen val m. P m \<Longrightarrow> yields (\<lambda>(r, d, m). P m) (hs d key klen val m)"
  shows "P m \<Longrightarrow> yields (\<lambda>(ok, bs, d, m). P m) (move_table hs fr bs d m)"
proof (induction bs arbitrary: d m)
  case (Cons b bs)
  show ?case
  proof (cases b)
    case (Chain ps)
    show ?thesis unfolding Chain move_table.simps
      by (rule yields_then [OF move_chain_frame [OF assms Cons.prems]])
        (auto intro!: yields_then [OF Cons.IH])
  qed simp
qed simp

lemma hgrow_frame:
  assumes "\<And>d key klen val m. P m \<Longrightarrow> yields (\<lambda>(r, d, m). P m) (hs d key klen val m)"
  shows "P m \<Longrightarrow> yields (\<lambda>(ok, ht, m). P m) (hgrow hs ml fr ht m)"
  unfolding hgrow_def Let_def
  by (erule yields_then [OF htcreate_frame])
    (auto intro!: yields_then [OF move_table_frame [OF assms]] fr_then split: option.split)

lemma hset_frame: "P m \<Longrightarrow> yields (\<lambda>(r, ht, m). P m) (hset ml fr ht key klen val m)"
proof -
  have "P m \<Longrightarrow> yields (\<lambda>(r, ht, m). P m) (hset_fuel n ml fr ht key klen val m)" for n ht key klen val m
  proof (induction n arbitrary: ht key klen val m)
    case (Suc n)
    show ?case unfolding hset_fuel.simps
      by (rule yields_then [OF hput_frame [OF Suc.prems]])
        (auto intro!: yields_then [OF hgrow_frame [OF Suc.IH]])
  qed simp
  then show "P m \<Longrightarrow> ?thesis" by (simp add: hset_def)
qed

end

lemma malloc_avail: "li_malloc mf n m = Inr (r, m') \<Longrightarrow> mem_avail m' = mem_avail m"
  by (auto simp: li_malloc_def rbind_eq_Inr_iff split: if_splits option.splits)

lemma free_avail: "li_free x m = Inr m' \<Longrightarrow> mem_avail m' = mem_avail m"
  by (auto simp: li_free_def rbind_eq_Inr_iff split: if_splits option.splits)

interpretation avail: mem_frame "li_malloc mf" li_free "\<lambda>m. mem_avail m = av" for mf av
  by unfold_locales (auto simp: yields_def dest: malloc_avail free_avail)

end
