(* ===== verification/Server_Types.thy ===== *)
theory Server_Types
  imports Server_Safe Mem_Frame
begin

text \<open>
  The types of the fields. Integers of the C code are numbers with the wrap-around written out,
  so that a field keeps to the range of its C type is a theorem: it holds for every event,
  well-behaved or not, as long as the program runs.
\<close>

subsection \<open>The ranges\<close>

definition stats_range :: "stats \<Rightarrow> bool" where
  "stats_range t \<longleftrightarrow> curr_connections t < 2 ^ 64 \<and> st_cmd_get t < 2 ^ 64 \<and> st_cmd_set t < 2 ^ 64 \<and>
     get_hits t < 2 ^ 64 \<and> get_misses t < 2 ^ 64 \<and> bytes_read t < 2 ^ 64 \<and> bytes_written t < 2 ^ 64"

definition req_range :: "request \<Rightarrow> bool" where
  "req_range r \<longleftrightarrow> length (rq_header r) = sizeof_req_header \<and> rbytes r < 2 ^ 32"

definition conn_range :: "conn \<Rightarrow> bool" where
  "conn_range c \<longleftrightarrow> length (rs_header (c_out c)) = sizeof_resp_header \<and> sbytes (c_out c) < 2 ^ 32"

definition in_range :: "server \<Rightarrow> bool" where
  "in_range s \<longleftrightarrow> stats_range (sv_stats s) \<and> idle_conn_timeout (sv_settings s) < 2 ^ 64 \<and>
     (\<forall>q r. sv_reqs s q = Some r \<longrightarrow> req_range r) \<and> (\<forall>c \<in> set (sv_conns s). conn_range c)"

text \<open>The same with the memory limit, which no step changes.\<close>

definition ranged :: "nat \<Rightarrow> server \<Rightarrow> bool" where
  "ranged n s \<longleftrightarrow> in_range s \<and> mem_avail (sv_mem s) = n"

text \<open>Fresh memory holds numbers of the field's type.\<close>

definition typed_mem :: "env \<Rightarrow> bool" where
  "typed_mem e \<longleftrightarrow> (\<forall>a. sbytes (c_out (e_conn e a)) < 2 ^ 32)"

lemma u_less: "u32 n < 2 ^ 32" "u64 n < 2 ^ 64" "sub64 a b < 2 ^ 64" "dec32 n < 2 ^ 32"
  by (simp_all add: u32_def u64_def sub64_def dec32_def)

lemmas u_less_numeral [simp] = u_less [simplified]

lemma range_conn: "(\<And>c. conn_range c \<Longrightarrow> conn_range (f c)) \<Longrightarrow> ranged av s \<Longrightarrow> ranged av (upd_conn p f s)"
  by (auto simp: ranged_def in_range_def upd_conn_def)

lemma range_req: "(\<And>r. req_range r \<Longrightarrow> req_range (f r)) \<Longrightarrow> ranged av s \<Longrightarrow> ranged av (upd_req q f s)"
  by (auto simp: ranged_def in_range_def upd_req_def)

lemma range_stats: "(\<And>t. stats_range t \<Longrightarrow> stats_range (f t)) \<Longrightarrow> ranged av s \<Longrightarrow> ranged av (upd_stats f s)"
  by (auto simp: ranged_def in_range_def upd_stats_def)

lemma range_misc [simp]:
  "ranged av (s\<lparr>sv_bufs := b\<rparr>) = ranged av s"
  "ranged av (s\<lparr>sv_cache := h\<rparr>) = ranged av s" "ranged av (s\<lparr>sv_watch := w\<rparr>) = ranged av s"
  "ranged av (s\<lparr>sv_sent := x\<rparr>) = ranged av s" "ranged av (s\<lparr>sv_closed := y\<rparr>) = ranged av s"
  "ranged av (set_cache h s) = ranged av s" "ranged av (close_fd fd s) = ranged av s"
  by (simp_all add: ranged_def in_range_def set_cache_def close_fd_def)

lemma range_mem [simp]: "mem_avail m = mem_avail (sv_mem s) \<Longrightarrow> ranged av (s\<lparr>sv_mem := m\<rparr>) = ranged av s"
  by (simp add: ranged_def in_range_def)

lemma range_avail: "ranged av s \<Longrightarrow> mem_avail (sv_mem s) = av"
  by (simp add: ranged_def)

lemma range_reqs: "ranged av s \<Longrightarrow> (case x of None \<Rightarrow> True | Some r \<Rightarrow> req_range r) \<Longrightarrow> ranged av (s\<lparr>sv_reqs := (sv_reqs s)(q := x)\<rparr>)"
  by (auto simp: ranged_def in_range_def split: option.splits)

lemmas [yields_rules] = range_conn range_req range_stats

text \<open>A call in the middle of a body: lookups, functions that return a state, or a value with it.\<close>

lemma yields_state:
  "yields (ranged av) x \<Longrightarrow> (\<And>s. ranged av s \<Longrightarrow> yields Q (f s)) \<Longrightarrow> yields Q (rbind x f)"
  by (rule yields_then)

lemma yields_pair:
  "yields (\<lambda>(a, s). ranged av s) x \<Longrightarrow> (\<And>a s. ranged av s \<Longrightarrow> yields Q (f a s)) \<Longrightarrow> yields Q (rbind x (\<lambda>(a, s). f a s))"
  by (cases x) auto

lemma yields_lookups [yields_rules]:
  "(\<And>c. conn_of s p = Inr c \<Longrightarrow> yields Q (f c)) \<Longrightarrow> yields Q (rbind (conn_of s p) f)"
  "(\<And>r. req_of s q = Inr r \<Longrightarrow> yields Q (g r)) \<Longrightarrow> yields Q (rbind (req_of s q) g)"
  "(\<And>b. buf_of s a = Inr b \<Longrightarrow> yields Q (h b)) \<Longrightarrow> yields Q (rbind (buf_of s a) h)"
  "(\<And>i. hget ht k n = Inr i \<Longrightarrow> yields Q (u i)) \<Longrightarrow> yields Q (rbind (hget ht k n) u)"
  "(\<And>v. atoull b = Inr v \<Longrightarrow> yields Q (w v)) \<Longrightarrow> yields Q (rbind (atoull b) w)"
  "(\<And>e. strcmp_eq k l = Inr e \<Longrightarrow> yields Q (y e)) \<Longrightarrow> yields Q (rbind (strcmp_eq k l) y)"
  "(z \<Longrightarrow> yields Q (t ())) \<Longrightarrow> yields Q (rbind (rassert z) t)"
  by (simp_all add: yields_look rassert_def)

subsection \<open>Memory and connections\<close>

lemma range_s_free [yields_rules]: "ranged av s \<Longrightarrow> yields (ranged av) (s_free a s)"
  by (auto simp: yields_def s_free_def rbind_eq_Inr_iff free_avail ranged_def in_range_def split: if_splits)

lemmas [yields_rules] = yields_state [OF range_s_free]

lemma range_free_blocks [yields_rules]: "ranged av s \<Longrightarrow> yields (ranged av) (free_req_blocks q r s)"
  unfolding free_req_blocks_def by (intro yields_rules)

lemmas [yields_rules] = yields_state [OF range_free_blocks]

lemma range_malloc: "ranged av s \<Longrightarrow> yields (\<lambda>(a, s). ranged av s) (s_malloc e n s)"
  by (auto simp: yields_def s_malloc_def rbind_eq_Inr_iff malloc_avail)

lemmas [yields_rules] = yields_pair [OF range_malloc]

lemma range_new_buf: "ranged av s \<Longrightarrow> yields (\<lambda>(a, s). ranged av s) (new_buf e n s)"
  unfolding new_buf_def by (intro yields_rules) auto

lemmas [yields_rules] = yields_pair [OF range_new_buf]

lemma range_del: "ranged av s \<Longrightarrow> yields (ranged av) (del_cached_req it s)"
  by (auto simp: yields_def del_cached_req_def rbind_eq_Inr_iff split: if_splits dest: yieldsD [OF range_free_blocks])

lemmas [yields_rules] = yields_state [OF range_del]

lemma range_free_request [yields_rules]: "ranged av s \<Longrightarrow> yields (ranged av) (free_request p s)"
  unfolding free_request_def by (intro yields_rules) (auto simp: conn_range_def)

lemmas [yields_rules] = yields_state [OF range_free_request]

lemma range_free_response [yields_rules]: "ranged av s \<Longrightarrow> yields (ranged av) (free_response p s)"
  unfolding free_response_def
  by (intro yields_rules yields_state [OF yields_if]) (auto simp: conn_range_def intro: range_s_free)

lemmas [yields_rules] = yields_state [OF range_free_response]

lemma range_event_set [yields_rules]: "ranged av s \<Longrightarrow> ranged av (snd (event_set e c ev s))"
  using event_set_watch [of e c ev s] by auto

lemma range_event_del [yields_rules]: "ranged av s \<Longrightarrow> ranged av (snd (event_del e c s))"
  using event_del_watch [of e c s] by auto

lemma range_close_fd [yields_rules]: "ranged av s \<Longrightarrow> ranged av (close_fd fd s)"
  by simp

lemma range_set_plain [yields_rules]: "ranged av s \<Longrightarrow> yields (ranged av) (set_state_plain e p st s)"
  unfolding set_state_plain_def Let_def
  by (intro yields_rules yields_state [OF yields_if]) (auto simp: conn_range_def)

lemmas [yields_rules] = yields_state [OF range_set_plain]

lemma range_disconnect [yields_rules]: "ranged av s \<Longrightarrow> yields (ranged av) (disconnect_conn e p s)"
  unfolding disconnect_conn_def Let_def by (intro yields_rules) (auto simp: conn_range_def stats_range_def)

lemmas [yields_rules] = yields_state [OF range_disconnect]

lemma range_init_resources: "ranged av s \<Longrightarrow> yields (\<lambda>(ok, s). ranged av s) (init_resources e p s)"
  unfolding init_resources_def
  by (intro yields_rules)
    (auto simp: conn_range_def req_range_def fresh_request_def sizeof_req_header_def intro!: range_conn range_reqs)

lemmas [yields_rules] = yields_pair [OF range_init_resources]

lemma length_resp_fields [simp]: "length (resp_fields op code n h) = length h"
  by (simp add: resp_fields_def)

lemma range_add_response [yields_rules]: "ranged av s \<Longrightarrow> yields (ranged av) (add_response e p dat n code s)"
  unfolding add_response_def by (intro yields_rules) (auto simp: conn_range_def)

lemmas [yields_rules] = yields_state [OF range_add_response]

lemma range_send_response [yields_rules]: "ranged av s \<Longrightarrow> yields (ranged av) (send_response e p code s)"
  unfolding send_response_def by (rule range_add_response)

lemma range_poke [yields_rules]: "ranged av s \<Longrightarrow> yields (ranged av) (poke a i b s)"
  by (auto simp: yields_def poke_def split: if_splits option.splits)

lemmas [yields_rules] = yields_state [OF range_send_response] yields_state [OF range_poke]

lemma range_take_buffer [yields_rules]:
  assumes "\<And>a r. req_range r \<Longrightarrow> req_range (setp a r)"
  shows "ranged av s \<Longrightarrow> yields (ranged av) (take_buffer e p st len setp s)"
  unfolding take_buffer_def Let_def by (intro yields_rules) (auto simp: assms)

lemma range_set_conn_state [yields_rules]: "ranged av s \<Longrightarrow> yields (ranged av) (set_conn_state e p st s)"
  unfolding set_conn_state_def
  by (cases st; simp only: conn_states.case; intro yields_rules) (auto simp: req_range_def)

lemmas [yields_rules] = yields_state [OF range_set_conn_state]

lemma make_conn_range:
  assumes "ranged av s" and "typed_mem e"
  shows "yields (\<lambda>(p, s). ranged av s) (make_conn e fd s)"
proof -
  have new: "ranged av (s'\<lparr>sv_conns := raw_conn e a # sv_conns s'\<rparr>)" if "ranged av s'" for s' a
    using that assms(2) by (auto simp: ranged_def in_range_def conn_range_def raw_conn_def typed_mem_def sizeof_resp_header_def)
  have "yields (\<lambda>(p, s). ranged av s)
     (case find c_free (sv_conns s) of Some c \<Rightarrow> Inr (c_addr c, s)
      | None \<Rightarrow> rbind (s_malloc e sizeof_conn s) (\<lambda>(a, s).
          if a = 0 then Inr (0, s) else Inr (a, s\<lparr>sv_conns := raw_conn e a # sv_conns s\<rparr>)))"
    using assms(1) new by (intro yields_rules) auto
  then show ?thesis
    unfolding make_conn_def
    by (intro yields_pair) (auto simp: conn_range_def stats_range_def init_conn_def intro!: range_conn range_stats)
qed

subsection \<open>Commands\<close>

lemma range_sprintf [yields_rules]: "ranged av s \<Longrightarrow> yields (ranged av) (sprintf_buf a txt s)"
  by (auto simp: yields_def sprintf_buf_def split: if_splits option.splits)

lemmas [yields_rules] = yields_state [OF range_sprintf]

lemma range_cache [yields_rules]: "ranged av s \<Longrightarrow> ranged av (set_cache h s)"
  by simp

lemma range_notexists [yields_rules]: "ranged av s \<Longrightarrow> yields (ranged av) (get_key_notexists e p s)"
  unfolding get_key_notexists_def by (intro yields_rules) (auto simp: stats_range_def)

lemma range_cmd_get [yields_rules]: "ranged av s \<Longrightarrow> yields (ranged av) (cmd_get e p s)"
  unfolding cmd_get_def Let_def by (intro yields_rules) (auto simp: stats_range_def conn_range_def)

lemma yields_cond [yields_rules]:
  "(b \<Longrightarrow> yields (ranged av) x) \<Longrightarrow> (\<not> b \<Longrightarrow> yields (ranged av) y) \<Longrightarrow> (\<And>s. ranged av s \<Longrightarrow> yields Q (f s)) \<Longrightarrow>
   yields Q (rbind (if b then x else y) f)"
  by (rule yields_state) auto

lemma yields_hset [yields_rules]:
  "(\<And>r ht m. mem_avail m = mem_avail (sv_mem s) \<Longrightarrow> yields Q (f r ht m)) \<Longrightarrow>
   yields Q (rbind (hset (li_malloc mf) li_free h k n v (sv_mem s)) (\<lambda>(r, ht, m). f r ht m))"
  by (rule yields_then [OF avail.hset_frame [OF refl]]) auto

lemma range_cmd_set [yields_rules]: "ranged av s \<Longrightarrow> yields (ranged av) (cmd_set e p s)"
  unfolding cmd_set_def Let_def
  by (intro yields_rules) (auto simp: stats_range_def req_range_def intro!: range_stats)

lemma range_cmd_delete [yields_rules]: "ranged av s \<Longrightarrow> yields (ranged av) (cmd_delete e p s)"
  unfolding cmd_delete_def by (intro yields_rules)

lemma henum_chain_range:
  assumes "\<And>it s. ranged av s \<Longrightarrow> yields (\<lambda>(b, s). ranged av s) (fn it s)"
  shows "ranged av s \<Longrightarrow> yields (\<lambda>(b, s). ranged av s) (henum_chain fn fr ps s)"
  by (induction ps arbitrary: s) (auto intro!: yields_if yields_pair [OF assms])

lemma henum_table_range:
  assumes "\<And>it s. ranged av s \<Longrightarrow> yields (\<lambda>(b, s). ranged av s) (fn it s)"
  shows "ranged av s \<Longrightarrow> yields (ranged av) (henum_table fn fr bs s)"
proof (induction bs arbitrary: s)
  case (Cons b bs)
  then show ?case
    by (cases b) (auto intro!: yields_if yields_pair [OF henum_chain_range [OF assms]])
qed simp

lemma range_flush_item: "ranged av s \<Longrightarrow> yields (\<lambda>(b, s). ranged av s) (flush_item_enum it s)"
  unfolding flush_item_enum_def by (intro yields_rules) auto

lemma range_cmd_flush [yields_rules]: "ranged av s \<Longrightarrow> yields (ranged av) (cmd_flush_all e p s)"
  unfolding cmd_flush_all_def henum_def
  by (intro yields_state [OF henum_table_range [OF range_flush_item]] range_send_response)

lemma atoull_less: "atoull x = Inr (Some v) \<Longrightarrow> v < 2 ^ 64"
  by (auto simp: atoull_def strtoull_def rbind_eq_Inr_iff split: option.splits if_splits list.splits)

lemma range_timeout [yields_rules]:
  "ranged av s \<Longrightarrow> v < 2 ^ 64 \<Longrightarrow> ranged av (s\<lparr>sv_settings := (sv_settings s)\<lparr>idle_conn_timeout := v\<rparr>\<rparr>)"
  by (simp add: ranged_def in_range_def)

lemma range_cmd_chg [yields_rules]: "ranged av s \<Longrightarrow> yields (ranged av) (cmd_chg_setting e p s)"
  unfolding cmd_chg_setting_def by (intro yields_rules) (blast intro: atoull_less)+

lemma range_cmd_get_setting [yields_rules]: "ranged av s \<Longrightarrow> yields (ranged av) (cmd_get_setting e p s)"
  unfolding cmd_get_setting_def by (intro yields_rules) auto

lemma range_cmd_get_stats [yields_rules]: "ranged av s \<Longrightarrow> yields (ranged av) (cmd_get_stats e p s)"
  unfolding cmd_get_stats_def by (intro yields_rules)

lemma range_execute [yields_rules]: "ranged av s \<Longrightarrow> yields (ranged av) (execute_cmd e p s)"
proof -
  have cs: "yields (ranged av) (case x of
       Some CMD_GET \<Rightarrow> cmd_get e p s | Some CMD_SET \<Rightarrow> cmd_set e p s | Some CMD_DELETE \<Rightarrow> cmd_delete e p s
     | Some CMD_FLUSH_ALL \<Rightarrow> cmd_flush_all e p s | Some CMD_CHG_SETTING \<Rightarrow> cmd_chg_setting e p s
     | Some CMD_GET_SETTING \<Rightarrow> cmd_get_setting e p s | Some CMD_GET_STATS \<Rightarrow> cmd_get_stats e p s
     | None \<Rightarrow> send_response e p INVALID_COMMAND s)" if "ranged av s" for x s
    using that by (auto split: option.split commands.split intro!: yields_rules)
  show "ranged av s \<Longrightarrow> yields (ranged av) (execute_cmd e p s)"
    unfolding execute_cmd_def Let_def by (intro yields_lookups cs range_req) (auto simp: req_range_def)
qed

lemmas [yields_rules] = yields_state [OF range_execute]

subsection \<open>Events\<close>

lemma store_byte_range: "ranged av s \<Longrightarrow> yields (ranged av) (store_byte tgt q r b s)"
  unfolding store_byte_def
  by (cases tgt; simp only: target.case; intro yields_rules) (auto simp: req_range_def)

lemma count_read_range: "ranged av s \<Longrightarrow> yields (\<lambda>(ret, s). ranged av s) (count_read q tot failed s)"
  unfolding count_read_def Let_def
  by (intro yields_rules) (auto simp: req_range_def stats_range_def intro!: range_req range_stats)

lemma read_nbytes_range: "ranged av s \<Longrightarrow> yields (\<lambda>(ret, s). ranged av s) (read_nbytes e p tgt tot s)"
  unfolding read_nbytes_def
  by (cases "e_rd e"; simp only: rd_result.case)
    (intro yields_lookups yields_state [OF store_byte_range] count_read_range yields_InrI; simp)+

lemma run_command_range: "ranged av s \<Longrightarrow> yields (ranged av) (run_command e p s)"
  unfolding run_command_def by (intro yields_rules)

lemma header_done_range: "ranged av s \<Longrightarrow> yields (\<lambda>(ret, s). ranged av s) (header_done e p s)"
  unfolding header_done_def Let_def
  by (intro yields_rules run_command_range) (auto simp: req_range_def)

lemma yields_conn_states:
  "yields Q a1 \<Longrightarrow> yields Q a2 \<Longrightarrow> yields Q a3 \<Longrightarrow> yields Q a4 \<Longrightarrow> yields Q x \<Longrightarrow> yields Q h \<Longrightarrow> yields Q d \<Longrightarrow>
   yields Q (case st of READ_HEADER \<Rightarrow> a1 | READ_KEY \<Rightarrow> a2 | READ_DATA \<Rightarrow> a3 | READ_EXTRA \<Rightarrow> a4
     | SEND_HEADER \<Rightarrow> h | SEND_DATA \<Rightarrow> d | _ \<Rightarrow> x)"
  by (cases st) simp_all

lemma try_read_range: "ranged av s \<Longrightarrow> yields (\<lambda>(ret, s). ranged av s) (try_read_request e p s)"
  unfolding try_read_request_def
  by (intro yields_rules yields_conn_states yields_pair [OF read_nbytes_range] yields_state [OF run_command_range]
      run_command_range header_done_range) auto

lemma send_nbytes_range: "ranged av s \<Longrightarrow> yields (\<lambda>(ret, s). ranged av s) (send_nbytes e p bytes tot s)"
  unfolding send_nbytes_def Let_def
  by (cases "e_wr e"; simp only: wr_result.case)
    (intro yields_rules; auto simp: conn_range_def stats_range_def intro!: range_conn range_stats)+

lemma next_request_range: "ranged av s \<Longrightarrow> yields (ranged av) (next_request e p s)"
  unfolding next_request_def by (intro yields_rules)

lemma accept_range: "ranged av s \<Longrightarrow> typed_mem e \<Longrightarrow> yields (ranged av) (accept_conn e s)"
  unfolding accept_conn_def by (intro yields_option yields_pair [OF make_conn_range] yields_if yields_InrI range_set_conn_state) auto

lemma try_send_range: "ranged av s \<Longrightarrow> yields (\<lambda>(ret, s). ranged av s) (try_send_response e p s)"
  unfolding try_send_response_def
  by (intro yields_rules yields_conn_states yields_pair [OF send_nbytes_range] yields_state [OF next_request_range]
      next_request_range) auto

lemma yields_event: "yields Q r \<Longrightarrow> yields Q w \<Longrightarrow> yields Q (case ev of EVENT_READ \<Rightarrow> r | EVENT_WRITE \<Rightarrow> w)"
  by (cases ev) simp_all

lemma event_range: "ranged av s \<Longrightarrow> typed_mem e \<Longrightarrow> yields (ranged av) (event_handler e p ev s)"
  unfolding event_handler_def Let_def
  by (intro yields_rules yields_event yields_pair [OF try_read_range] yields_pair [OF try_send_range] accept_range)
    (auto simp: conn_range_def intro!: range_conn)

text \<open>The environments of a list of events.\<close>

definition typed_events :: "(ptr \<times> env option \<times> env option) list \<Rightarrow> bool" where
  "typed_events rs \<longleftrightarrow> list_all (\<lambda>(p, i, w). pred_option typed_mem i \<and> pred_option typed_mem w) rs"

lemma process_range: "typed_events rs \<Longrightarrow> ranged av s \<Longrightarrow> yields (ranged av) (event_process rs s)"
proof (induction rs arbitrary: s)
  case (Cons x rs)
  obtain p i w where x: "x = (p, i, w)" using prod_cases3 by blast
  have iw: "\<And>s. ranged av s \<Longrightarrow> yields (ranged av) (case i of None \<Rightarrow> Inr s | Some e \<Rightarrow> event_handler e p EVENT_READ s)"
    "\<And>s. ranged av s \<Longrightarrow> yields (ranged av) (case w of None \<Rightarrow> Inr s | Some e \<Rightarrow> event_handler e p EVENT_WRITE s)"
    and rs: "typed_events rs"
    using Cons.prems(1) by (auto simp: x typed_events_def intro!: event_range split: option.split)
  show ?case
    unfolding x event_process.simps by (intro yields_lookups(7) yields_state [OF iw(1)] yields_state [OF iw(2)] Cons.IH [OF rs] Cons.prems(2))
qed simp

lemma idle_range: "ranged av s \<Longrightarrow> yields (ranged av) (idle_loop e ps s)"
  by (induction ps arbitrary: s) (auto intro!: yields_lookups(1) yields_if yields_state [OF yields_if] range_disconnect)

lemma second_range: "ranged av s \<Longrightarrow> yields (\<lambda>(t, s). ranged av s) (per_second e ctime ptime s)"
  unfolding per_second_def disconnect_idle_conns_def
  by (intro yields_if yields_state [OF idle_range]) (auto simp: collect_unused_memory_def)

lemma round_range:
  assumes "ranged av s" and "typed_events rs"
  shows "yields (\<lambda>(t, s). ranged av s) (main_round e ctime ptime rs s)"
  unfolding main_round_def by (intro yields_state [OF process_range [OF assms(2,1)]] second_range)

subsection \<open>The server loop\<close>

text \<open>The states between the rounds of the loop, with the time of the last clean-up.\<close>

inductive loops :: "int \<times> server \<Rightarrow> int \<times> server \<Rightarrow> bool" for x where
  here: "loops x x"
| round: "loops x (ptime, s) \<Longrightarrow> typed_events rs \<Longrightarrow> main_round e ctime ptime rs s = Inr y \<Longrightarrow> loops x y"

lemma loops_range:
  assumes "loops (ptime0, s0) y" and "ranged av s0"
  shows "ranged av (snd y)"
  using assms(1)
proof (induction rule: loops.induct)
  case (round ptime s rs e ctime y)
  then have "ranged av s" by simp
  from yieldsD [OF round_range [OF this round.hyps(2)] round.hyps(3)] show ?case by (cases y) simp
qed (simp add: assms(2))


lemma start_range: "in_range (start_server ht m)"
  by (simp add: in_range_def start_server_def stats_range_def)


text \<open>\<open>main\<close> starts the loop in such a state.\<close>

lemma parse_opts_timeout:
  "parse_opts os st avail = Inr (Some (st', avail')) \<Longrightarrow> idle_conn_timeout st' = idle_conn_timeout st"
  by (induction os st avail rule: parse_opts.induct) (auto simp: rbind_eq_Inr_iff split: option.splits)

lemma socket_range: "ranged av s \<Longrightarrow> typed_mem e \<Longrightarrow> yields (\<lambda>(ok, s). ranged av s) (init_server_socket e k s)"
  unfolding init_server_socket_def Let_def
  by (intro yields_rules yields_pair [OF make_conn_range]) (auto simp: conn_range_def intro!: range_event_set range_conn)

lemma main_init_range:
  assumes e: "typed_mem e" and m: "main_init e k debug os = Inr (Some s)"
    and os: "parse_opts os (fst (init_settings debug)) (fst (snd (init_settings debug))) = Inr (Some (st, avail))"
  shows "ranged avail s"
proof -
  have t: "idle_conn_timeout (fst (init_settings debug)) < 2 ^ 64" by (simp add: init_settings_def)
  have "\<exists>m1 s1 h m2. choose_allocator (e_malloc e) avail slab_start_state = Inr m1 \<and>
      init_server_socket e k \<lparr>sv_mem = m1, sv_reqs = Map.empty, sv_bufs = Map.empty, sv_conns = [], sv_cache = null_cache,
         sv_settings = st, sv_stats = init_stats e, sv_watch = Map.empty, sv_sent = [], sv_closed = []\<rparr> = Inr (True, s1) \<and>
      htcreate (li_malloc (e_malloc e)) li_free 4 (sv_mem s1) = Inr (Some h, m2) \<and>
      s = s1\<lparr>sv_cache := h, sv_mem := m2\<rparr>"
    using m os by (auto simp: main_init_def rbind_eq_Inr_iff Let_def split: option.splits if_splits prod.splits)
  then obtain m1 s1 h m2 where 1: "choose_allocator (e_malloc e) avail slab_start_state = Inr m1"
      "init_server_socket e k \<lparr>sv_mem = m1, sv_reqs = Map.empty, sv_bufs = Map.empty, sv_conns = [], sv_cache = null_cache,
         sv_settings = st, sv_stats = init_stats e, sv_watch = Map.empty, sv_sent = [], sv_closed = []\<rparr> = Inr (True, s1)"
      "htcreate (li_malloc (e_malloc e)) li_free 4 (sv_mem s1) = Inr (Some h, m2)" "s = s1\<lparr>sv_cache := h, sv_mem := m2\<rparr>"
    by blast
  have "mem_avail m1 = avail" using 1(1) by (auto simp: choose_allocator_def rbind_eq_Inr_iff)
  then have "ranged avail \<lparr>sv_mem = m1, sv_reqs = Map.empty, sv_bufs = Map.empty, sv_conns = [], sv_cache = null_cache,
         sv_settings = st, sv_stats = init_stats e, sv_watch = Map.empty, sv_sent = [], sv_closed = []\<rparr>"
    using parse_opts_timeout [OF os] t by (simp add: ranged_def in_range_def stats_range_def init_stats_def)
  then have "ranged avail s1" using yieldsD [OF socket_range 1(2)] e by simp
  moreover have "mem_avail m2 = mem_avail (sv_mem s1)"
    using yieldsD [OF avail.htcreate_frame [OF refl] 1(3)] by simp
  ultimately show ?thesis using 1(4) by (simp add: ranged_def in_range_def)
qed

end
