(* ===== verification/Backends.thy ===== *)
theory Backends
  imports Events
begin

text \<open>
  The kqueue back end (\<open>src/kqueue.c\<close>) and its contract with the server, which \<open>src/event.h\<close>
  states in two comments: \<open>event_set\<close> deletes all previous events of a descriptor and sets the
  new ones, \<open>event_del\<close> deletes all of them. The epoll back end of theory Server and this one
  both keep it.
\<close>

subsection \<open>kqueue\<close>

text \<open>
  The filters registered with the kernel queue and the \<open>udata\<close> of each. A change with
  \<open>EV_DELETE\<close> of a filter that is not registered fails with \<open>ENOENT\<close>, \<open>EV_ADD\<close> replaces what is
  registered; \<open>ke_fails\<close> are the failures besides.
\<close>

datatype kfilter = EVFILT_READ | EVFILT_WRITE
datatype kaction = EV_ADD | EV_DELETE

type_synonym kqueue = "int \<times> kfilter \<Rightarrow> ptr option"
type_synonym kfails = "kaction \<Rightarrow> int \<times> kfilter \<Rightarrow> bool"

definition kevent_change :: "kfails \<Rightarrow> kaction \<Rightarrow> int \<times> kfilter \<Rightarrow> ptr \<Rightarrow> kqueue \<Rightarrow> bool \<times> kqueue" where
  "kevent_change f a x u q =
     (if a = EV_DELETE \<and> q x = None then (False, q)
      else if f a x then (False, q)
      else (True, q(x := (if a = EV_DELETE then None else Some u))))"

definition kq_event_del :: "kfails \<Rightarrow> conn \<Rightarrow> kqueue \<Rightarrow> bool \<times> kqueue" where
  "kq_event_del f c q =
     (let (_, q) = kevent_change f EV_DELETE (c_fd c, EVFILT_WRITE) 0 q;
          (_, q) = kevent_change f EV_DELETE (c_fd c, EVFILT_READ) 0 q in (True, q))"

definition kq_event_set :: "kfails \<Rightarrow> conn \<Rightarrow> event set \<Rightarrow> kqueue \<Rightarrow> bool \<times> kqueue" where
  "kq_event_set f c flags q =
     (let (_, q) = kq_event_del f c q;
          (ok, q) = (if EVENT_READ \<in> flags then kevent_change f EV_ADD (c_fd c, EVFILT_READ) (c_addr c) q
                     else (True, q)) in
      if \<not> ok then (False, q)
      else if EVENT_WRITE \<in> flags then kevent_change f EV_ADD (c_fd c, EVFILT_WRITE) (c_addr c) q
      else (True, q))"

text \<open>
  The loop of \<open>event_process\<close> over what \<open>kevent\<close> returned, filter and \<open>udata\<close> of each entry;
  \<open>handler\<close> is the function that \<open>event_init\<close> was given.
\<close>

fun kq_event_process :: "(ptr \<Rightarrow> event \<Rightarrow> 's \<Rightarrow> 's res) \<Rightarrow> (kfilter \<times> ptr) list \<Rightarrow> 's \<Rightarrow> 's res" where
  "kq_event_process handler [] s = Inr s"
| "kq_event_process handler ((flt, p) # es) s =
     rbind (rassert (p \<noteq> 0)) (\<lambda>_.
     rbind (if flt = EVFILT_READ then handler p EVENT_READ s else Inr s) (\<lambda>s.
     rbind (if flt = EVFILT_WRITE then handler p EVENT_WRITE s else Inr s) (kq_event_process handler es)))"

subsection \<open>The contract\<close>

text \<open>What is watched: for each descriptor the events and the connection they are reported with.\<close>

type_synonym watched = "int \<Rightarrow> (event \<times> ptr) set"

locale event_backend =
  fixes watch :: "'s \<Rightarrow> watched"
    and eset :: "conn \<Rightarrow> event \<Rightarrow> 's \<Rightarrow> 's"
    and edel :: "conn \<Rightarrow> 's \<Rightarrow> 's"
  assumes watch_eset: "watch (eset c ev s) = (watch s)(c_fd c := {(ev, c_addr c)})"
    and watch_edel: "watch (edel c s) = (watch s)(c_fd c := {})"

datatype backend_op = Op_set conn event | Op_del conn

fun apply_op :: "(conn \<Rightarrow> event \<Rightarrow> 's \<Rightarrow> 's) \<Rightarrow> (conn \<Rightarrow> 's \<Rightarrow> 's) \<Rightarrow> backend_op \<Rightarrow> 's \<Rightarrow> 's" where
  "apply_op eset edel (Op_set c ev) s = eset c ev s"
| "apply_op eset edel (Op_del c) s = edel c s"

text \<open>The watched events after a sequence of calls, from the contract alone.\<close>

fun watch_op :: "backend_op \<Rightarrow> watched \<Rightarrow> watched" where
  "watch_op (Op_set c ev) w = w(c_fd c := {(ev, c_addr c)})"
| "watch_op (Op_del c) w = w(c_fd c := {})"

context event_backend
begin

lemma watch_run: "watch (fold (apply_op eset edel) xs s) = fold watch_op xs (watch s)"
proof (induction xs arbitrary: s)
  case (Cons x xs)
  then show ?case by (cases x) (simp_all add: watch_eset watch_edel fun_upd_def)
qed simp

end

text \<open>epoll, with a kernel that reports no error but those of its interface.\<close>

definition epoll_watch :: "server \<Rightarrow> watched" where
  "epoll_watch s fd = set_option (sv_watch s fd)"

definition quiet :: "env \<Rightarrow> bool" where
  "quiet e \<longleftrightarrow> (\<forall>op fd. e_ctl e op fd = None)"

lemma epoll_set_watch:
  "quiet e \<Longrightarrow> sv_watch (snd (event_set e c ev s)) = (sv_watch s)(c_fd c \<mapsto> (ev, c_addr c))"
  by (simp add: event_set_def epoll_ctl_def quiet_def)

lemma epoll_del_watch: "quiet e \<Longrightarrow> sv_watch (snd (event_del e c s)) = (sv_watch s)(c_fd c := None)"
  by (auto simp: event_del_def epoll_ctl_def quiet_def fun_eq_iff)

definition calm_env :: env where
  "calm_env = sample_env"

interpretation epoll: event_backend epoll_watch "\<lambda>c ev s. snd (event_set calm_env c ev s)" "\<lambda>c s. snd (event_del calm_env c s)"
proof
  have q: "quiet calm_env" by (simp add: quiet_def calm_env_def sample_env_def)
  show "epoll_watch (snd (event_set calm_env c ev s)) = (epoll_watch s)(c_fd c := {(ev, c_addr c)})" for c ev s
    using epoll_set_watch [OF q] by (simp add: epoll_watch_def fun_eq_iff)
  show "epoll_watch (snd (event_del calm_env c s)) = (epoll_watch s)(c_fd c := {})" for c s
    using epoll_del_watch [OF q] by (simp add: epoll_watch_def fun_eq_iff)
qed

text \<open>kqueue, with a kernel that reports no error but the missing filters.\<close>

definition kq_watch :: "kqueue \<Rightarrow> watched" where
  "kq_watch q fd = (\<lambda>p. (EVENT_READ, p)) ` set_option (q (fd, EVFILT_READ)) \<union>
     (\<lambda>p. (EVENT_WRITE, p)) ` set_option (q (fd, EVFILT_WRITE))"

definition no_fails :: kfails where
  "no_fails a x = False"

lemma kq_del: "snd (kq_event_del no_fails c q) = q((c_fd c, EVFILT_WRITE) := None, (c_fd c, EVFILT_READ) := None)"
  by (auto simp: kq_event_del_def kevent_change_def no_fails_def fun_eq_iff)

lemma kq_del_watch: "kq_watch (snd (kq_event_del no_fails c q)) = (kq_watch q)(c_fd c := {})"
  by (auto simp: kq_del kq_watch_def fun_eq_iff)

interpretation kq: event_backend kq_watch "\<lambda>c ev q. snd (kq_event_set no_fails c {ev} q)" "\<lambda>c q. snd (kq_event_del no_fails c q)"
proof
  show "kq_watch (snd (kq_event_set no_fails c {ev} q)) = (kq_watch q)(c_fd c := {(ev, c_addr c)})" for c ev q
  proof -
    obtain b where d: "kq_event_del no_fails c q = (b, q((c_fd c, EVFILT_WRITE) := None, (c_fd c, EVFILT_READ) := None))"
      using kq_del [of c q] by (cases "kq_event_del no_fails c q") simp
    show ?thesis
      by (cases ev) (auto simp: kq_event_set_def d kevent_change_def no_fails_def kq_watch_def fun_eq_iff)
  qed
qed (rule kq_del_watch)

subsection \<open>The two back ends agree\<close>

lemma quiet_calm:
  assumes "quiet e"
  shows "event_set e c ev s = event_set calm_env c ev s" and "event_del e c s = event_del calm_env c s"
  using assms by (simp_all add: event_set_def event_del_def epoll_ctl_def quiet_def calm_env_def sample_env_def)

lemma kq_process:
  "kq_event_process (event_handler e) es =
   event_process (map (\<lambda>(flt, p). (p, if flt = EVFILT_READ then Some e else None, if flt = EVFILT_WRITE then Some e else None)) es)"
proof
  fix s
  show "kq_event_process (event_handler e) es s = event_process (map (\<lambda>(flt, p).
      (p, if flt = EVFILT_READ then Some e else None, if flt = EVFILT_WRITE then Some e else None)) es) s"
  proof (induction es arbitrary: s)
    case (Cons x es)
    obtain flt p where x: "x = (flt, p)" by fastforce
    have ih: "kq_event_process (event_handler e) es = event_process (map (\<lambda>(flt, p).
      (p, if flt = EVFILT_READ then Some e else None, if flt = EVFILT_WRITE then Some e else None)) es)"
      using Cons.IH by blast
    show ?case by (cases flt) (simp_all add: x ih)
  qed simp
qed

text \<open>
  C39: the epoll and the kqueue back end are interchangeable. As long as the kernel reports no
  errors but the documented ones, every sequence of \<open>event_set\<close> and \<open>event_del\<close> leaves the
  same events of the same connections watched with both: for each descriptor exactly what was
  set last, and nothing after \<open>event_del\<close>. And the loops of \<open>event_process\<close> run the same
  handlers in the same order for the same events.
\<close>

theorem backends_agree:
  assumes "quiet e" and "epoll_watch s = kq_watch q"
  shows "epoll_watch (fold (apply_op (\<lambda>c ev s. snd (event_set e c ev s)) (\<lambda>c s. snd (event_del e c s))) xs s) =
      fold watch_op xs (kq_watch q) \<and>
    kq_watch (fold (apply_op (\<lambda>c ev q. snd (kq_event_set no_fails c {ev} q)) (\<lambda>c q. snd (kq_event_del no_fails c q))) xs q) =
      fold watch_op xs (kq_watch q) \<and>
    kq_event_process (event_handler e) es s = event_process (map (\<lambda>(flt, p).
      (p, if flt = EVFILT_READ then Some e else None, if flt = EVFILT_WRITE then Some e else None)) es) s"
  using epoll.watch_run [of xs s] kq.watch_run [of xs q] by (simp add: quiet_calm [OF assms(1)] assms(2) kq_process)

theorem backends_agree_witness:
  "epoll_watch (fold (apply_op (\<lambda>c ev s. snd (event_set sample_env c ev s)) (\<lambda>c s. snd (event_del sample_env c s)))
      [Op_set (zero_conn\<lparr>c_addr := 10, c_fd := 5\<rparr>) EVENT_READ, Op_set (zero_conn\<lparr>c_addr := 10, c_fd := 5\<rparr>) EVENT_WRITE]
      (start_server demo_table sample_sys)) 5 = {(EVENT_WRITE, 10)}"
proof -
  have q: "quiet sample_env" by (simp add: quiet_def sample_env_def)
  have w: "epoll_watch (start_server demo_table sample_sys) = kq_watch Map.empty"
    by (simp add: fun_eq_iff epoll_watch_def kq_watch_def start_server_def)
  show ?thesis
    using backends_agree [OF q w, of "[Op_set (zero_conn\<lparr>c_addr := 10, c_fd := 5\<rparr>) EVENT_READ,
        Op_set (zero_conn\<lparr>c_addr := 10, c_fd := 5\<rparr>) EVENT_WRITE]"] by simp
qed

text \<open>
  With other errors they differ: when \<open>EPOLL_CTL_ADD\<close> fails, \<open>event_set\<close> of epoll still reports
  success with nothing watched, that of kqueue reports the failure.
\<close>

lemma epoll_add_error:
  assumes "sv_watch s (c_fd c) = None" and "e_ctl e EPOLL_CTL_ADD (c_fd c) = Some EOTHER"
  shows "event_set e c ev s = (True, s)"
  using assms by (simp add: event_set_def epoll_ctl_def)

lemma kq_add_error:
  assumes "f EV_ADD (c_fd c, EVFILT_READ)" and "EVENT_READ \<in> flags"
  shows "fst (kq_event_set f c flags q) = False"
  using assms by (simp add: kq_event_set_def kevent_change_def split: prod.split)

end
