(* ===== verification/Poll.thy ===== *)
theory Poll
  imports Backends
begin

text \<open>
  \<open>event_init\<close> and the whole of \<open>event_process\<close> for both back ends (\<open>src/epoll.c\<close>,
  \<open>src/kqueue.c\<close>): the globals they keep, and what happens when waiting for events fails.
\<close>

definition POLL_TIMEOUT :: int where
  "POLL_TIMEOUT = 1000"

definition POLL_MAX_EVENTS :: nat where
  "POLL_MAX_EVENTS = 10"

subsection \<open>epoll\<close>

text \<open>The globals \<open>epollfd\<close> and \<open>event_handler\<close>; \<open>None\<close> is NULL.\<close>

type_synonym handler = "env \<Rightarrow> ptr \<Rightarrow> event \<Rightarrow> server \<Rightarrow> server res"

record poll_state =
  epollfd :: int
  ev_handler :: "handler option"

definition poll_start :: poll_state where
  "poll_start = \<lparr>epollfd = 0, ev_handler = None\<rparr>"

text \<open>\<open>fd\<close> is the result of \<open>epoll_create\<close>.\<close>

definition event_init :: "int \<Rightarrow> handler \<Rightarrow> poll_state \<Rightarrow> int \<times> poll_state" where
  "event_init fd h po =
     (let po = po\<lparr>epollfd := fd\<rparr> in
      if epollfd po = -1 then (0, po)
      else (let po = po\<lparr>ev_handler := Some h\<rparr> in (epollfd po, po)))"

definition call_handler :: "'h option \<Rightarrow> 'h res" where
  "call_handler h = (case h of None \<Rightarrow> Inl Null_deref | Some f \<Rightarrow> Inr f)"

text \<open>The loop over the events, with the handler that is called.\<close>

fun poll_loop :: "handler option \<Rightarrow> (ptr \<times> env option \<times> env option) list \<Rightarrow> server \<Rightarrow> server res" where
  "poll_loop h [] s = Inr s"
| "poll_loop h ((p, i, w) # rs) s =
     rbind (rassert (p \<noteq> 0)) (\<lambda>_.
     rbind (case i of None \<Rightarrow> Inr s | Some e \<Rightarrow> rbind (call_handler h) (\<lambda>f. f e p EVENT_READ s)) (\<lambda>s.
     rbind (case w of None \<Rightarrow> Inr s | Some e \<Rightarrow> rbind (call_handler h) (\<lambda>f. f e p EVENT_WRITE s)) (\<lambda>s.
     poll_loop h rs s)))"

text \<open>
  \<open>ready\<close> are the descriptors that are ready, of which \<open>epoll_wait\<close> returns at most
  \<open>POLL_MAX_EVENTS\<close>; \<open>None\<close> is its result -1.
\<close>

definition epoll_event_process ::
  "poll_state \<Rightarrow> (ptr \<times> env option \<times> env option) list option \<Rightarrow> server \<Rightarrow> server res" where
  "epoll_event_process po ready s =
     (case ready of
        None \<Rightarrow> Inr s
      | Some rs \<Rightarrow> poll_loop (ev_handler po) (take POLL_MAX_EVENTS rs) s)"

lemma poll_loop_handler: "poll_loop (Some event_handler) rs = event_process rs"
proof (induction rs)
  case (Cons x rs)
  obtain p i w where x: "x = (p, i, w)" using prod_cases3 by blast
  show ?case by (rule ext, cases i; cases w) (simp_all add: x call_handler_def Cons.IH)
qed (simp add: fun_eq_iff)

text \<open>The events of one round; none when waiting failed.\<close>

definition round_events :: "'x list option \<Rightarrow> 'x list" where
  "round_events ready = (case ready of None \<Rightarrow> [] | Some rs \<Rightarrow> take POLL_MAX_EVENTS rs)"

lemma epoll_process_eq:
  "ev_handler po = Some event_handler \<Longrightarrow> epoll_event_process po ready s = event_process (round_events ready) s"
  by (simp add: epoll_event_process_def round_events_def poll_loop_handler split: option.split)

lemma event_init_handler: "event_init fd h po = (r, po') \<Longrightarrow> r \<noteq> 0 \<Longrightarrow> ev_handler po' = Some h \<and> epollfd po' = r"
  by (auto simp: event_init_def Let_def split: if_splits)

text \<open>A descriptor 0 is a success of \<open>epoll_create\<close> that reads like a failure.\<close>

lemma event_init_zero: "fst (event_init fd h po) = 0 \<longleftrightarrow> fd = -1 \<or> fd = 0"
  by (simp add: event_init_def Let_def)

subsection \<open>kqueue\<close>

text \<open>The globals \<open>kqfd\<close>, \<open>event_handler\<close> and \<open>timeout\<close>, in seconds and nanoseconds.\<close>

record 'h kq_state =
  kqfd :: int
  kq_handler :: "'h option"
  kq_timeout :: "int \<times> int"

definition kq_event_init :: "int \<Rightarrow> 'h \<Rightarrow> 'h kq_state \<Rightarrow> int \<times> 'h kq_state" where
  "kq_event_init fd h q =
     (let q = q\<lparr>kqfd := fd\<rparr> in
      if kqfd q = -1 then (0, q)
      else
        (let q = q\<lparr>kq_handler := Some h\<rparr>;
             q = q\<lparr>kq_timeout := (POLL_TIMEOUT div 1000, 0)\<rparr> in (kqfd q, q)))"

definition kqueue_event_process ::
  "(ptr \<Rightarrow> event \<Rightarrow> 's \<Rightarrow> 's res) kq_state \<Rightarrow> (kfilter \<times> ptr) list option \<Rightarrow> 's \<Rightarrow> 's res" where
  "kqueue_event_process q ready s =
     (case ready of
        None \<Rightarrow> Inr s
      | Some es \<Rightarrow>
          kq_event_process (\<lambda>p ev s. rbind (call_handler (kq_handler q)) (\<lambda>f. f p ev s)) (take POLL_MAX_EVENTS es) s)"

lemma kqueue_process_eq:
  "kq_handler q = Some h \<Longrightarrow> kqueue_event_process q ready s = kq_event_process h (round_events ready) s"
  by (simp add: kqueue_event_process_def round_events_def call_handler_def split: option.split)

text \<open>
  After a successful \<open>event_init\<close> both back ends run the same handlers for the same events, and
  none when the kernel reports an error.
\<close>

definition as_epoll :: "env \<Rightarrow> kfilter \<times> ptr \<Rightarrow> ptr \<times> env option \<times> env option" where
  "as_epoll e = (\<lambda>(flt, p). (p, if flt = EVFILT_READ then Some e else None, if flt = EVFILT_WRITE then Some e else None))"

lemma processes_agree:
  assumes "event_init fd event_handler po0 = (r, po)" and "r \<noteq> 0"
    and "kq_event_init kfd (event_handler e) q0 = (k, q)" and "k \<noteq> 0"
  shows "kqueue_event_process q ready s = epoll_event_process po (map_option (map (as_epoll e)) ready) s"
proof -
  have "ev_handler po = Some event_handler" using event_init_handler [OF assms(1,2)] by simp
  moreover have "kq_handler q = Some (event_handler e)" using assms(3,4) by (auto simp: kq_event_init_def Let_def split: if_splits)
  moreover have "round_events (map_option (map (as_epoll e)) ready) = map (as_epoll e) (round_events ready)"
    by (simp add: round_events_def take_map split: option.split)
  ultimately show ?thesis by (simp add: kqueue_process_eq epoll_process_eq kq_process as_epoll_def)
qed

end
