(* ===== verification/Daemon.thy ===== *)
theory Daemon
  imports LC_Prelude
begin

text \<open>
  \<open>sig_handler\<close> and \<open>deamonize\<close> of \<open>src/util.c\<close>: what a process is after going to the
  background. Only the part of a process that the code sets is modelled; the answers of the
  system calls are parameters.
\<close>

datatype signal = SIGALRM | SIGUSR1 | SIGCHLD | SIGINT | SIGTSTP | SIGTTOU | SIGTTIN | SIGHUP | SIGTERM | SIGPIPE
datatype disposition = SIG_DFL | SIG_IGN | Handled

definition EXIT_SUCCESS :: nat where
  "EXIT_SUCCESS = 0"

definition EXIT_FAILURE :: nat where
  "EXIT_FAILURE = 1"

text \<open>The exit status, or \<open>None\<close> when the handler returns.\<close>

definition sig_handler :: "signal \<Rightarrow> nat option" where
  "sig_handler signum =
     (case signum of
        SIGALRM \<Rightarrow> Some EXIT_FAILURE
      | SIGUSR1 \<Rightarrow> Some EXIT_SUCCESS
      | SIGCHLD \<Rightarrow> Some EXIT_FAILURE
      | SIGINT \<Rightarrow> Some EXIT_FAILURE
      | _ \<Rightarrow> None)"

record process =
  p_ppid :: int
  p_signal :: "signal \<Rightarrow> disposition"
  p_umask :: nat
  p_session :: bool
  p_cwd :: string
  p_stdin :: string
  p_stdout :: string
  p_stderr :: string
  p_nofile :: "nat \<times> nat"

datatype outcome = Exits nat | Runs process

text \<open>
  The system: what \<open>fork\<close> returns (-1, the child's id in the parent, 0 in the child), the
  parent of the child, the handled signal that ends the parent's \<open>pause\<close> (\<open>SIGALRM\<close> after two
  seconds at the latest), and whether \<open>setsid\<close> and \<open>chdir\<close> succeed.
\<close>

record os =
  o_fork :: int
  o_child_ppid :: int
  o_pause :: signal
  o_setsid :: bool
  o_chdir :: bool

definition set_signal :: "signal \<Rightarrow> disposition \<Rightarrow> process \<Rightarrow> process" where
  "set_signal n d p = p\<lparr>p_signal := (p_signal p)(n := d)\<rparr>"

definition child_process :: "os \<Rightarrow> process \<Rightarrow> outcome" where
  "child_process s p =
     (let p = p\<lparr>p_ppid := o_child_ppid s\<rparr>;
          p = set_signal SIGCHLD SIG_DFL p;
          p = set_signal SIGTSTP SIG_IGN p;
          p = set_signal SIGTTOU SIG_IGN p;
          p = set_signal SIGTTIN SIG_IGN p;
          p = set_signal SIGHUP SIG_IGN p;
          p = set_signal SIGTERM SIG_DFL p;
          p = p\<lparr>p_umask := 0\<rparr> in
      if \<not> o_setsid s then Exits EXIT_FAILURE
      else
        (let p = p\<lparr>p_session := True\<rparr> in
         if \<not> o_chdir s then Exits EXIT_FAILURE
         else
           Runs (p\<lparr>p_cwd := ''/'', p_stdin := ''/dev/null'', p_stdout := ''/dev/null'', p_stderr := ''/dev/null''\<rparr>)))"

definition deamonize :: "os \<Rightarrow> process \<Rightarrow> outcome" where
  "deamonize s p =
     (if p_ppid p = 1 then Runs p
      else
        (let p = set_signal SIGALRM Handled (set_signal SIGUSR1 Handled (set_signal SIGCHLD Handled p)) in
         if o_fork s < 0 then Exits EXIT_FAILURE
         else if 0 < o_fork s then
           Exits (case sig_handler (o_pause s) of Some st \<Rightarrow> st | None \<Rightarrow> EXIT_FAILURE)
         else child_process s p))"

text \<open>
  What goes on running after \<open>deamonize\<close>: a process that was a daemon before, unchanged, or the
  child, detached from its terminal.
\<close>

definition detached :: "process \<Rightarrow> bool" where
  "detached p \<longleftrightarrow> p_session p \<and> p_umask p = 0 \<and> p_cwd p = ''/'' \<and>
     p_stdin p = ''/dev/null'' \<and> p_stdout p = ''/dev/null'' \<and> p_stderr p = ''/dev/null'' \<and>
     (\<forall>n \<in> {SIGHUP, SIGTSTP, SIGTTIN, SIGTTOU}. p_signal p n = SIG_IGN) \<and>
     p_signal p SIGTERM = SIG_DFL \<and> p_signal p SIGCHLD = SIG_DFL"

text \<open>
  Only two processes return from \<open>deamonize\<close>: one that was a child of init before, which it
  does not touch, and the forked child, in a session of its own, in the root directory, with
  its streams on \<open>/dev/null\<close> and the terminal's signals ignored. The parent always exits, with
  success only when a \<open>SIGUSR1\<close> arrives before the two seconds are over. The child still has
  the handlers of \<open>SIGUSR1\<close> and \<open>SIGALRM\<close> that were meant for the parent.
\<close>

lemma deamonize_outcome:
  "case deamonize s p of
     Runs q \<Rightarrow>
       if p_ppid p = 1 then q = p
       else o_fork s = 0 \<and> detached q \<and> p_signal q SIGUSR1 = Handled \<and> p_signal q SIGALRM = Handled
   | Exits st \<Rightarrow>
       p_ppid p \<noteq> 1 \<and> (st = EXIT_SUCCESS \<longleftrightarrow> 0 < o_fork s \<and> o_pause s = SIGUSR1)"
proof (cases "p_ppid p = 1 \<or> o_fork s \<noteq> 0")
  case True
  then show ?thesis
    by (cases "o_pause s") (auto simp: deamonize_def sig_handler_def EXIT_SUCCESS_def EXIT_FAILURE_def)
next
  case False
  then show ?thesis
    by (simp add: deamonize_def child_process_def set_signal_def detached_def EXIT_SUCCESS_def EXIT_FAILURE_def Let_def)
qed

end
