(* ===== verification/Main_Loop.thy ===== *)
theory Main_Loop
  imports Server_Types Server_Props Poll Daemon "HOL-Library.Stream"
begin

text \<open>
  The whole of \<open>main\<close> (\<open>src/lightcache.c\<close>): start-up with the process and the event interface,
  and the loop that never ends, over the stream of what the kernel reports in each round.
\<close>

subsection \<open>Start-up\<close>

text \<open>
  What \<open>main\<close> finds: the answers of its first steps, \<open>DEBUG\<close>, the command line, whether
  \<open>setrlimit\<close> succeeds, the process, and the result of \<open>epoll_create\<close>.
\<close>

record main_world =
  w_env :: env
  w_sock :: sock_env
  w_debug :: bool
  w_opts :: "cmd_opt list"
  w_setrlimit :: bool
  w_os :: os
  w_proc :: process
  w_epoll :: int

text \<open>Settings, command line and allocator; \<open>None\<close> is \<open>goto err\<close>.\<close>

definition main_setup :: "malloc_fun \<Rightarrow> bool \<Rightarrow> cmd_opt list \<Rightarrow> (settings \<times> memst) option res" where
  "main_setup mf debug os =
     (case init_settings debug of (st, avail, _) \<Rightarrow>
      rbind (parse_opts os st avail) (\<lambda>r.
      case r of
        None \<Rightarrow> Inr None
      | Some (st, avail) \<Rightarrow> rbind (choose_allocator mf avail slab_start_state) (\<lambda>m. Inr (Some (st, m)))))"

text \<open>The limit of open files, an \<open>rlim_t\<close>; when it cannot be set there is only a warning.\<close>

definition adjust_fd_limit :: "int \<Rightarrow> bool \<Rightarrow> process \<Rightarrow> process" where
  "adjust_fd_limit limit ok p =
     (let cur = nat (limit mod 2 ^ 64); max = nat (limit mod 2 ^ 64) in
      if \<not> ok then p else p\<lparr>p_nofile := (cur, max)\<rparr>)"

text \<open>The listening socket and the hash table.\<close>

definition main_serve :: "env \<Rightarrow> sock_env \<Rightarrow> settings \<Rightarrow> memst \<Rightarrow> server option res" where
  "main_serve e k st m =
     (let s = \<lparr>sv_mem = m, sv_reqs = Map.empty, sv_bufs = Map.empty, sv_conns = [], sv_cache = null_cache,
            sv_settings = st, sv_stats = init_stats e, sv_watch = Map.empty, sv_sent = [], sv_closed = []\<rparr> in
      rbind (init_server_socket e k s) (\<lambda>(ok, s).
      if \<not> ok then Inr None
      else
        rbind (htcreate (li_malloc (e_malloc e)) li_free 4 (sv_mem s)) (\<lambda>(t, m).
        case t of
          None \<Rightarrow> Inr None
        | Some ht \<Rightarrow> Inr (Some (s\<lparr>sv_cache := ht, sv_mem := m\<rparr>)))))"

datatype start = Stopped nat | Started process poll_state server

definition main_start :: "main_world \<Rightarrow> start res" where
  "main_start w =
     rbind (main_setup (e_malloc (w_env w)) (w_debug w) (w_opts w)) (\<lambda>r.
     case r of
       None \<Rightarrow> Inr (Stopped EXIT_FAILURE)
     | Some (st, m) \<Rightarrow>
         (let p = adjust_fd_limit (fd_limit st) (w_setrlimit w) (w_proc w) in
          case (if deamon_mode st \<noteq> 0 then deamonize (w_os w) p else Runs (set_signal SIGINT Handled p)) of
            Exits n \<Rightarrow> Inr (Stopped n)
          | Runs p \<Rightarrow>
              (let p = set_signal SIGPIPE SIG_IGN p in
               case event_init (w_epoll w) event_handler poll_start of (ret, po) \<Rightarrow>
               if ret = 0 then Inr (Stopped EXIT_FAILURE)
               else
                 rbind (main_serve (w_env w) (w_sock w) st m) (\<lambda>x.
                 case x of
                   None \<Rightarrow> Inr (Stopped EXIT_FAILURE)
                 | Some s \<Rightarrow> Inr (Started p po s)))))"

subsection \<open>The loop\<close>

text \<open>
  One round: the time, the descriptors that are ready (\<open>None\<close> when waiting fails), and the
  environment of the clean-up.
\<close>

record round_in =
  r_time :: int
  r_ready :: "(ptr \<times> env option \<times> env option) list option"
  r_env :: env

definition loop_round :: "poll_state \<Rightarrow> round_in \<Rightarrow> int \<times> server \<Rightarrow> (int \<times> server) res" where
  "loop_round po r = (\<lambda>(ptime, s).
     rbind (epoll_event_process po (r_ready r) s) (per_second (r_env r) (r_time r) ptime))"

text \<open>\<open>for (;;)\<close>: the fault that ends the loop, or \<open>None\<close> when it goes on for ever.\<close>

partial_function (option) server_loop :: "poll_state \<Rightarrow> round_in stream \<Rightarrow> int \<times> server \<Rightarrow> cfault option" where
  "server_loop po ins x =
     (case loop_round po (shd ins) x of
        Inl f \<Rightarrow> Some f
      | Inr y \<Rightarrow> server_loop po (stl ins) y)"

datatype ending = Exit nat | Crash cfault

text \<open>The end of the program; \<open>None\<close> when it does not end. The loop starts with \<open>ptime = 0\<close>.\<close>

definition main_prog :: "main_world \<Rightarrow> round_in stream \<Rightarrow> ending option" where
  "main_prog w ins =
     (case main_start w of
        Inl f \<Rightarrow> Some (Crash f)
      | Inr (Stopped n) \<Rightarrow> Some (Exit n)
      | Inr (Started p po s) \<Rightarrow> map_option Crash (server_loop po ins (0, s)))"

subsection \<open>Start-up is safe\<close>

text \<open>\<open>main_start\<close> with the process and the event interface left out is \<open>main_init\<close>.\<close>

lemma main_init_split:
  "main_init e k debug os =
     rbind (main_setup (e_malloc e) debug os) (\<lambda>r.
     case r of None \<Rightarrow> Inr None | Some (st, m) \<Rightarrow> if \<not> k_epoll k then Inr None else main_serve e k st m)"
proof -
  obtain st avail u where st: "init_settings debug = (st, avail, u)" using prod_cases3 by blast
  show ?thesis
  proof (cases "parse_opts os st avail")
    case (Inr r)
    show ?thesis
    proof (cases r)
      case (Some x)
      then show ?thesis
        by (cases "choose_allocator (e_malloc e) (snd x) slab_start_state"; cases x)
          (simp_all add: main_init_def main_setup_def main_serve_def st Inr)
    qed (simp add: main_init_def main_setup_def st Inr)
  qed (simp add: main_init_def main_setup_def st)
qed

lemma main_setup_cases:
  assumes "parse_opts os (fst (init_settings debug)) (fst (snd (init_settings debug))) = Inr (Some (st, avail))"
    and "choose_allocator mf avail slab_start_state = Inr m"
  shows "main_setup mf debug os = Inr (Some (st, m))"
  using assms by (cases "init_settings debug") (simp add: main_setup_def)

text \<open>What has to hold when \<open>main\<close> is called.\<close>

definition world_ok :: "main_world \<Rightarrow> settings \<Rightarrow> nat \<Rightarrow> bool" where
  "world_ok w st avail \<longleftrightarrow> malloc_ok (e_malloc (w_env w)) \<and> clean_mem (w_env w) \<and> typed_mem (w_env w) \<and>
     parse_opts (w_opts w) (fst (init_settings (w_debug w))) (fst (snd (init_settings (w_debug w)))) = Inr (Some (st, avail)) \<and>
     0 < avail div 1024 div 1024 \<and> avail div 1024 div 1024 \<le> 4096 \<and>
     pred_option (\<lambda>m. \<not> use_sys_malloc m)
       (case choose_allocator (e_malloc (w_env w)) avail slab_start_state of Inl f \<Rightarrow> None | Inr m \<Rightarrow> Some m)"

lemma main_serve_ok:
  assumes w: "world_ok w st avail" and m: "choose_allocator (e_malloc (w_env w)) avail slab_start_state = Inr m"
  shows "\<exists>x. main_serve (w_env w) k st m = Inr x \<and>
    (case x of None \<Rightarrow> True | Some s \<Rightarrow> server_inv s \<and> ranged avail s)"
proof -
  let ?e = "w_env w" and ?k = "k\<lparr>k_epoll := True\<rparr>"
  have w': "malloc_ok (e_malloc ?e)" "clean_mem ?e" "typed_mem ?e"
    "parse_opts (w_opts w) (fst (init_settings (w_debug w))) (fst (snd (init_settings (w_debug w)))) = Inr (Some (st, avail))"
    "0 < avail div 1024 div 1024" "avail div 1024 div 1024 \<le> 4096" "\<not> use_sys_malloc m"
    using w m by (simp_all add: world_ok_def)
  have "init_server_socket ?e ?k s = init_server_socket ?e k s" for s by (simp add: init_server_socket_def split: option.split)
  then have eq: "main_init ?e ?k (w_debug w) (w_opts w) = main_serve ?e k st m"
    using main_setup_cases [OF w'(4) m] by (simp add: main_init_split main_serve_def)
  obtain x where x: "main_init ?e ?k (w_debug w) (w_opts w) = Inr x"
    "case x of None \<Rightarrow> True | Some s \<Rightarrow> server_inv s \<and> hview (sv_cache s) = Map.empty"
    using main_init_ok [OF w'(1,2,4-6)] m w'(7) by fastforce
  show ?thesis
  proof (cases x)
    case (Some s)
    then show ?thesis using x main_init_range [OF w'(3) _ w'(4)] eq by auto
  qed (use x eq in simp)
qed

text \<open>
  The start-up never faults. It stops, with success only in the parent of the daemon that was
  told so, or comes to the loop: with a consistent state, the handler installed, \<open>SIGPIPE\<close>
  ignored and, in daemon mode, detached from the terminal.
\<close>

definition start_ok :: "main_world \<Rightarrow> settings \<Rightarrow> nat \<Rightarrow> start \<Rightarrow> bool" where
  "start_ok w st avail x \<longleftrightarrow>
     (case x of
        Stopped n \<Rightarrow> n = EXIT_SUCCESS \<longrightarrow> deamon_mode st \<noteq> 0 \<and> 0 < o_fork (w_os w) \<and> o_pause (w_os w) = SIGUSR1
      | Started p po s \<Rightarrow> server_inv s \<and> ranged avail s \<and> ev_handler po = Some event_handler \<and>
          p_signal p SIGPIPE = SIG_IGN \<and> (deamon_mode st \<noteq> 0 \<and> p_ppid (w_proc w) \<noteq> 1 \<longrightarrow> detached p))"

lemma detached_pipe: "detached p \<Longrightarrow> detached (set_signal SIGPIPE SIG_IGN p)"
  by (simp add: detached_def set_signal_def)

lemma fd_limit_ppid [simp]: "p_ppid (adjust_fd_limit n ok p) = p_ppid p"
  by (simp add: adjust_fd_limit_def Let_def)

lemma main_start_ok:
  assumes w: "world_ok w st avail"
  shows "\<exists>x. main_start w = Inr x \<and> start_ok w st avail x"
proof -
  let ?e = "w_env w" and ?p = "adjust_fd_limit (fd_limit st) (w_setrlimit w) (w_proc w)"
  let ?d = "if deamon_mode st \<noteq> 0 then deamonize (w_os w) ?p else Runs (set_signal SIGINT Handled ?p)"
  have w': "malloc_ok (e_malloc ?e)" "0 < avail div 1024 div 1024" "avail div 1024 div 1024 \<le> 4096"
    "parse_opts (w_opts w) (fst (init_settings (w_debug w))) (fst (snd (init_settings (w_debug w)))) = Inr (Some (st, avail))"
    using w by (simp_all add: world_ok_def)
  obtain m where m: "choose_allocator (e_malloc ?e) avail slab_start_state = Inr m"
    using choose_allocator_ok [OF w'(1-3)] by blast
  obtain ret po where init: "event_init (w_epoll w) event_handler poll_start = (ret, po)" by fastforce
  have main: "main_start w =
    (case ?d of Exits n \<Rightarrow> Inr (Stopped n)
     | Runs p \<Rightarrow> if ret = 0 then Inr (Stopped EXIT_FAILURE)
        else rbind (main_serve ?e (w_sock w) st m) (\<lambda>x. case x of None \<Rightarrow> Inr (Stopped EXIT_FAILURE)
          | Some s \<Rightarrow> Inr (Started (set_signal SIGPIPE SIG_IGN p) po s)))"
    using main_setup_cases [OF w'(4) m] init by (simp add: main_start_def Let_def split: outcome.split)
  have fail: "start_ok w st avail (Stopped EXIT_FAILURE)"
    by (simp add: start_ok_def EXIT_FAILURE_def EXIT_SUCCESS_def)
  show ?thesis
  proof (cases ?d)
    case (Exits n)
    then have "deamon_mode st \<noteq> 0" "deamonize (w_os w) ?p = Exits n" by (auto split: if_splits)
    then show ?thesis using main Exits deamonize_outcome [where s = "w_os w" and p = ?p] by (simp add: start_ok_def)
  next
    case (Runs p)
    have det: "detached p" if "deamon_mode st \<noteq> 0" "p_ppid (w_proc w) \<noteq> 1"
      using Runs that deamonize_outcome [where s = "w_os w" and p = ?p] by simp
    obtain x where x: "main_serve ?e (w_sock w) st m = Inr x"
      "case x of None \<Rightarrow> True | Some s \<Rightarrow> server_inv s \<and> ranged avail s"
      using main_serve_ok [OF w m] by blast
    show ?thesis
    proof (cases "ret = 0 \<or> x = None")
      case True
      then show ?thesis using main Runs x(1) fail by auto
    next
      case False
      then obtain s where s: "x = Some s" by blast
      have "start_ok w st avail (Started (set_signal SIGPIPE SIG_IGN p) po s)"
        using x s False event_init_handler [OF init] det detached_pipe by (auto simp: start_ok_def set_signal_def)
      then show ?thesis using main Runs x(1) s False by simp
    qed
  qed
qed

subsection \<open>Rounds of good events\<close>

text \<open>The events of a round are good, each in the state the ones before it leave.\<close>

definition good_part :: "env option \<Rightarrow> ptr \<Rightarrow> event \<Rightarrow> server \<Rightarrow> bool" where
  "good_part x p ev s \<longleftrightarrow>
     (case x of None \<Rightarrow> True
      | Some e \<Rightarrow> good_event e p ev s \<and> (\<forall>s'. event_handler e p ev s = Inr s' \<longrightarrow> \<not> set_refused p s'))"

definition handle_part :: "env option \<Rightarrow> ptr \<Rightarrow> event \<Rightarrow> server \<Rightarrow> server res" where
  "handle_part x p ev s = (case x of None \<Rightarrow> Inr s | Some e \<Rightarrow> event_handler e p ev s)"

fun good_events :: "(ptr \<times> env option \<times> env option) list \<Rightarrow> server \<Rightarrow> bool" where
  "good_events [] s = True"
| "good_events ((p, i, w) # rs) s \<longleftrightarrow> p \<noteq> 0 \<and> good_part i p EVENT_READ s \<and>
     (\<forall>s1. handle_part i p EVENT_READ s = Inr s1 \<longrightarrow> good_part w p EVENT_WRITE s1 \<and>
       (\<forall>s2. handle_part w p EVENT_WRITE s1 = Inr s2 \<longrightarrow> good_events rs s2))"

lemma good_part_ok:
  assumes "server_inv s" and "good_part x p ev s"
  shows "\<exists>s'. handle_part x p ev s = Inr s' \<and> server_inv s'"
proof (cases x)
  case (Some e)
  then obtain s' where "event_handler e p ev s = Inr s'" "server_inv s' \<or> set_refused p s'"
    using event_ok [OF assms(1), of e p ev] assms(2) by (auto simp: good_part_def fine_def)
  then show ?thesis using assms(2) Some by (auto simp: good_part_def handle_part_def)
qed (use assms in \<open>simp add: handle_part_def\<close>)

lemma good_events_ok:
  assumes "server_inv s" and "good_events rs s"
  shows "\<exists>s'. event_process rs s = Inr s' \<and> server_inv s'"
  using assms
proof (induction rs arbitrary: s)
  case (Cons x rs)
  obtain p i w where x: "x = (p, i, w)" using prod_cases3 by blast
  obtain s1 where s1: "handle_part i p EVENT_READ s = Inr s1" "server_inv s1"
    using good_part_ok [OF Cons.prems(1), of i p EVENT_READ] Cons.prems(2) x by auto
  then obtain s2 where s2: "handle_part w p EVENT_WRITE s1 = Inr s2" "server_inv s2"
    using good_part_ok [of s1 w p EVENT_WRITE] Cons.prems(2) x by auto
  have "good_events rs s2" "p \<noteq> 0" using Cons.prems(2) x s1(1) s2(1) by auto
  then show ?case using Cons.IH [OF s2(2)] s1(1) s2(1) by (simp add: x handle_part_def rassert_def)
qed simp

lemma per_second_ok:
  assumes "server_inv s" and "mem_avail (sv_mem s) = av" and "0 < av"
    and av: "\<And>s'. disconnect_idle_conns e s = Inr s' \<Longrightarrow> mem_avail (sv_mem s') = av"
  shows "\<exists>t s'. per_second e ctime ptime s = Inr (t, s') \<and> server_inv s'"
proof -
  obtain s' where "disconnect_idle_conns e s = Inr s'" "server_inv s'" using idle_conns_ok [OF assms(1)] by blast
  then show ?thesis using assms(1,3) av by (simp add: per_second_def collect_unused_memory_def)
qed

lemma round_ok:
  assumes inv: "server_inv s" and av: "ranged av s" "0 < av" and h: "ev_handler po = Some event_handler"
    and g: "good_events (round_events (r_ready r)) s" "typed_events (round_events (r_ready r))"
  shows "\<exists>t s'. loop_round po r (ptime, s) = Inr (t, s') \<and> server_inv s' \<and> ranged av s'"
proof -
  obtain s1 where s1: "event_process (round_events (r_ready r)) s = Inr s1" "server_inv s1"
    using good_events_ok [OF inv g(1)] by blast
  have a1: "ranged av s1" using yieldsD [OF process_range [OF g(2) av(1)] s1(1)] .
  have "mem_avail (sv_mem s') = av" if "disconnect_idle_conns (r_env r) s1 = Inr s'" for s'
    using yieldsD [OF idle_range [OF a1]] that range_avail unfolding disconnect_idle_conns_def by blast
  then obtain t s' where s': "per_second (r_env r) (r_time r) ptime s1 = Inr (t, s')" "server_inv s'"
    using per_second_ok [OF s1(2) range_avail [OF a1] av(2)] by blast
  have "ranged av s'" using yieldsD [OF second_range [OF a1] s'(1)] by simp
  then show ?thesis using s' s1(1) by (simp add: loop_round_def epoll_process_eq [OF h])
qed

subsection \<open>The loop does not end\<close>

text \<open>The input of a run is good when it is in every round, for the state the loop is in then.\<close>

coinductive good_input_stream :: "poll_state \<Rightarrow> round_in stream \<Rightarrow> int \<times> server \<Rightarrow> bool" for po where
  "good_events (round_events (r_ready r)) s \<Longrightarrow> typed_events (round_events (r_ready r)) \<Longrightarrow>
   (\<forall>y. loop_round po r (t, s) = Inr y \<longrightarrow> good_input_stream po ins y) \<Longrightarrow>
   good_input_stream po (SCons r ins) (t, s)"

lemma good_streamD:
  assumes "good_input_stream po ins (t, s)"
  shows "good_events (round_events (r_ready (shd ins))) s \<and> typed_events (round_events (r_ready (shd ins))) \<and>
    (\<forall>y. loop_round po (shd ins) (t, s) = Inr y \<longrightarrow> good_input_stream po (stl ins) y)"
  using assms by (cases rule: good_input_stream.cases) simp

text \<open>What holds of every step up to a fault, or has none, holds of the loop.\<close>

lemma server_loop_induct [consumes 1, case_names fault round]:
  assumes "server_loop po ins x = Some f"
    and fault: "\<And>po ins x f. loop_round po (shd ins) x = Inl f \<Longrightarrow> P po ins x f"
    and round: "\<And>po ins x y f. loop_round po (shd ins) x = Inr y \<Longrightarrow> P po (stl ins) y f \<Longrightarrow> P po ins x f"
  shows "P po ins x f"
proof -
  have "(case ((po, ins), x) of (x, xa) \<Rightarrow> (case x of (x, xa) \<Rightarrow> P x xa) xa) f"
  proof (rule server_loop.raw_induct [where P = P])
    show "P po ins x f"
      if IH: "\<And>po ins x f. loop po ins x = Some f \<Longrightarrow> P po ins x f"
        and b: "(case loop_round po (shd ins) x of Inl f \<Rightarrow> Some f | Inr y \<Rightarrow> loop po (stl ins) y) = Some f"
      for loop po ins x f
    proof (cases "loop_round po (shd ins) x")
      case (Inl g)
      then show ?thesis using b fault by simp
    next
      case (Inr y)
      then show ?thesis using b IH by (intro round [OF Inr]) simp
    qed
  qed (simp add: assms(1))
  then show ?thesis by simp
qed

lemma loop_goes_on:
  assumes "ev_handler po = Some event_handler" and "0 < av"
    and "server_inv s" and "ranged av s" and "good_input_stream po ins (t, s)"
  shows "server_loop po ins (t, s) = None"
proof -
  have "False" if "server_loop po ins x = Some f" "ev_handler po = Some event_handler" "server_inv (snd x)"
      "ranged av (snd x)" "good_input_stream po ins x" for po ins x f
    using that
  proof (induction rule: server_loop_induct)
    case (fault po ins x f)
    then show ?case using round_ok [OF _ _ assms(2), of "snd x" po "shd ins" "fst x"] good_streamD [of po ins "fst x" "snd x"]
      by auto
  next
    case (round po ins x y f)
    obtain t s where x: "x = (t, s)" by fastforce
    note g = good_streamD [OF round.prems(4) [unfolded x]]
    have "server_inv (snd y)" "ranged av (snd y)"
      using round_ok [OF _ _ assms(2) round.prems(1), of s "shd ins" t] round.prems(2,3) round.hyps g x by auto
    then show ?case using round.IH [OF round.prems(1)] round.hyps g x by auto
  qed
  from this [of po ins "(t, s)"] show ?thesis using assms by (cases "server_loop po ins (t, s)") auto
qed

text \<open>
  C7: the whole program. With a memory limit between 1 MB and 4 GB and the slab allocator in use,
  \<open>main\<close> does not crash as long as the events are well-behaved: it either stops before it serves, with
  success only in the parent of the daemon that was told so, or comes to its loop and never
  leaves it, with \<open>SIGPIPE\<close> ignored, in daemon mode detached from its terminal, and without a
  division by zero, because the memory limit stays what the command line says.
\<close>

theorem main_serves_forever:
  assumes "world_ok w st avail"
    and "\<forall>p po s. main_start w = Inr (Started p po s) \<longrightarrow> good_input_stream po ins (0, s)"
  shows "case main_prog w ins of
      None \<Rightarrow> \<exists>p po s. main_start w = Inr (Started p po s) \<and> server_inv s \<and> mem_avail (sv_mem s) = avail \<and>
        p_signal p SIGPIPE = SIG_IGN \<and> (deamon_mode st \<noteq> 0 \<and> p_ppid (w_proc w) \<noteq> 1 \<longrightarrow> detached p)
    | Some (Exit n) \<Rightarrow> main_start w = Inr (Stopped n) \<and>
        (n = EXIT_SUCCESS \<longrightarrow> deamon_mode st \<noteq> 0 \<and> 0 < o_fork (w_os w) \<and> o_pause (w_os w) = SIGUSR1)
    | Some (Crash f) \<Rightarrow> False"
proof -
  obtain x where x: "main_start w = Inr x" "start_ok w st avail x" using main_start_ok [OF assms(1)] by blast
  show ?thesis
  proof (cases x)
    case (Stopped n)
    then show ?thesis using x by (simp add: main_prog_def start_ok_def)
  next
    case (Started p po s)
    have "0 < avail" using assms(1) by (auto simp: world_ok_def intro: gr0I)
    then have "server_loop po ins (0, s) = None"
      using loop_goes_on [of po avail s ins 0] x assms(2) Started by (simp add: start_ok_def)
    then show ?thesis using x Started by (simp add: main_prog_def start_ok_def range_avail)
  qed
qed

text \<open>A world to evaluate at: a server in the foreground that no one talks to.\<close>

definition sample_world :: main_world where
  "sample_world = \<lparr>w_env = sample_env, w_sock = \<lparr>k_socket = Some 3, k_bind = True, k_listen = True, k_epoll = True\<rparr>,
     w_debug = True, w_opts = [Opt_d 0], w_setrlimit = False,
     w_os = \<lparr>o_fork = -1, o_child_ppid = 1, o_pause = SIGALRM, o_setsid = True, o_chdir = True\<rparr>,
     w_proc = \<lparr>p_ppid = 7, p_signal = (\<lambda>_. SIG_DFL), p_umask = 18, p_session = False, p_cwd = ''/'', p_stdin = ''tty'',
       p_stdout = ''tty'', p_stderr = ''tty'', p_nofile = (1024, 1024)\<rparr>, w_epoll = 4\<rparr>"

definition quiet_round :: round_in where
  "quiet_round = \<lparr>r_time = 2000, r_ready = None, r_env = sample_env\<rparr>"

lemma quiet_stream: "good_input_stream po (sconst quiet_round) x"
proof (coinduction arbitrary: x)
  case good_input_stream
  have "sconst quiet_round = SCons quiet_round (sconst quiet_round)" by (subst siterate.code) simp
  then show ?case
    by (intro exI [of _ quiet_round] exI [of _ "snd x"] exI [of _ "fst x"] exI [of _ "sconst quiet_round"])
      (auto simp: quiet_round_def round_events_def typed_events_def)
qed

text \<open>With the 64 MB of the default settings the slab allocator has room, so that world starts up.\<close>

lemma bump_spare:
  obtains m where "choose_allocator bump_malloc 67108864 slab_start_state = Inr m" and "spare 63 m"
proof -
  have n: "slabctl_count_for 67108864 1952 = 63"
    by (simp add: slabctl_count_for_def sub64_id SLAB_SIZE_def sizeof_slab_ctl_eq)
  obtain m where m: "choose_allocator bump_malloc 67108864 slab_start_state = Inr m" "slab_inv m"
    using choose_allocator_ok [OF bump_malloc_ok, of 67108864] bump_choose by auto
  obtain c where "cm (slabst m) = Some c" "fresh_cm c 63"
    using init_cases [OF bump_malloc_ok, of "67108864 div 1024 div 1024" "[]"] m(1) bump_choose [OF m(1)] n
    by (fastforce simp: choose_allocator_def slab_start_state_def init_done_def)
  moreover from this have "chunks c = {}" using fresh_cm_ok(2) [of c 63] by simp
  ultimately have "spare 63 m" using m(2) by (simp add: spare_def fresh_cm_def)
  then show thesis using that m(1) by blast
qed

lemma spare_serve:
  assumes "spare (Suc (Suc (Suc n))) m" and k: "k_socket k = Some fd" "k_bind k" "k_listen k"
  shows "\<exists>s. main_serve e k st m = Inr (Some s)"
proof -
  obtain a m1 where a: "li_malloc (e_malloc e) sizeof_conn m = Inr (Some a, m1)" "spare (Suc (Suc n)) m1"
    using spare_malloc [OF assms(1), of sizeof_conn "e_malloc e"] by (auto simp: sizeof_conn_def largest_chunk_def)
  obtain b m2 where b: "li_malloc (e_malloc e) sizeof_htab m1 = Inr (Some b, m2)" "spare (Suc n) m2"
    using spare_malloc [OF a(2), of sizeof_htab "e_malloc e"] by (auto simp: sizeof_htab_def largest_chunk_def)
  obtain d m3 where d: "li_malloc (e_malloc e) (HSIZE 4 * 8) m2 = Inr (Some d, m3)"
    using spare_malloc [OF b(2), of "HSIZE 4 * 8" "e_malloc e"] by (auto simp: HSIZE_def largest_chunk_def)
  have "slab_inv m" using assms(1) by (simp add: spare_def)
  then have "a \<noteq> 0" using slab_alloc.malloc_cases [of m "e_malloc e" sizeof_conn] a(1) by auto
  then show ?thesis using a(1) b(1) d k
    by (simp add: main_serve_def init_server_socket_def make_conn_def s_malloc_def raw_conn_def upd_conn_def
        upd_stats_def conn_of_def init_conn_def event_set_def epoll_ctl_def htcreate_def Let_def split: option.split)
qed

lemma sample_starts: "\<exists>p po s. main_start sample_world = Inr (Started p po s)"
proof -
  obtain m where m: "choose_allocator bump_malloc 67108864 slab_start_state = Inr m" "spare 63 m" by (rule bump_spare)
  obtain s where "main_serve (w_env sample_world) (w_sock sample_world)
      \<lparr>deamon_mode = 0, idle_conn_timeout = 4000000000, socket_path = None, fd_limit = 1024\<rparr> m = Inr (Some s)"
    using spare_serve [of 60 m "w_sock sample_world" 3] m(2) by (auto simp: sample_world_def)
  then show ?thesis using m(1)
    by (simp add: main_start_def main_setup_def sample_world_def sample_env_def init_settings_def event_init_def Let_def)
qed

theorem main_serves_forever_witness:
  "main_prog sample_world (sconst quiet_round) = None"
proof -
  let ?st = "\<lparr>deamon_mode = 0, idle_conn_timeout = 4000000000, socket_path = None, fd_limit = 1024\<rparr>"
  have w: "world_ok sample_world ?st 67108864"
    using bump_choose by (auto simp: world_ok_def sample_world_def bump_malloc_ok init_settings_def sample_env_def
        typed_mem_def zero_conn_def clean_mem_def split: sum.split)
  show ?thesis using main_serves_forever [OF w, of "sconst quiet_round"] quiet_stream sample_starts
    by (auto split: option.splits ending.splits)
qed

end
