(* ===== verification/Hashtab_Fuel.thy ===== *)
theory Hashtab_Fuel
  imports Hashtab_Props
begin

text \<open>
  The recursion of \<open>hset\<close> and \<open>_hgrow\<close> ends: from some fuel on the result is always the same.
\<close>

text \<open>Whatever \<open>hs\<close> returns, \<open>hs'\<close> returns as well.\<close>

definition extends :: "'m hsetf \<Rightarrow> 'm hsetf \<Rightarrow> bool" where
  "extends hs hs' \<longleftrightarrow> (\<forall>d key l v m x. hs d key l v m = Inr x \<longrightarrow> hs' d key l v m = Inr x)"

lemma extendsD: "extends hs hs' \<Longrightarrow> hs d key l v m = Inr x \<Longrightarrow> hs' d key l v m = Inr x"
  unfolding extends_def by blast

lemma move_chain_extends:
  assumes x: "extends hs hs'" and c: "move_chain hs fr ps d m = Inr y"
  shows "move_chain hs' fr ps d m = Inr y"
  using c
proof (induction ps arbitrary: d m)
  case (Cons p ps)
  from Cons.prems obtain r d1 m1 where h: "hs d (item_key p) (hi_klen p) (hi_val p) m = Inr (r, d1, m1)"
    by (auto simp: rbind_eq_Inr_iff)
  note h' = extendsD [OF x h]
  show ?case
  proof (cases "r = HSUCCESS")
    case False
    then show ?thesis using Cons.prems h h' by simp
  next
    case True
    obtain it where g: "hget d1 (item_key p) (hi_klen p) = Inr it"
      using Cons.prems h True by (auto simp: rbind_eq_Inr_iff)
    show ?thesis
    proof (cases it)
      case None
      then show ?thesis using Cons.prems h h' True g by simp
    next
      case (Some i)
      obtain m2 where m2: "fr (hi_keyp p) m1 = Inr m2" using Cons.prems h True g Some by (auto simp: rbind_eq_Inr_iff)
      obtain m3 where m3: "fr (hi_addr p) m2 = Inr m3" using Cons.prems h True g Some m2 by (auto simp: rbind_eq_Inr_iff)
      show ?thesis using Cons.prems h h' True g Some m2 m3 Cons.IH by (simp add: Let_def)
    qed
  qed
qed simp

lemma move_table_extends:
  assumes x: "extends hs hs'" and c: "move_table hs fr bs d m = Inr y"
  shows "move_table hs' fr bs d m = Inr y"
  using c
proof (induction bs arbitrary: d m y)
  case (Cons b bs)
  show ?case
  proof (cases b)
    case (Chain ps)
    with Cons.prems obtain left d1 m1 where h: "move_chain hs fr ps d m = Inr (left, d1, m1)"
      by (auto simp: rbind_eq_Inr_iff)
    show ?thesis
    proof (cases "left = []")
      case True
      then obtain z where "move_table hs fr bs d1 m1 = Inr z"
        using Cons.prems h Chain by (auto simp: rbind_eq_Inr_iff)
      with Cons.IH [OF this] show ?thesis using Cons.prems h move_chain_extends [OF x h] Chain True by simp
    qed (use Cons.prems h move_chain_extends [OF x h] Chain in simp)
  qed (use Cons.prems in simp)
qed simp

lemma hgrow_extends:
  assumes x: "extends hs hs'" and c: "hgrow hs ml fr ht m = Inr y"
  shows "hgrow hs' ml fr ht m = Inr y"
proof -
  obtain r m1 where h: "htcreate ml fr (ht_logsize ht + 1) m = Inr (r, m1)"
    using c by (auto simp: hgrow_def rbind_eq_Inr_iff)
  show ?thesis
  proof (cases r)
    case None
    then show ?thesis using c h by (simp add: hgrow_def)
  next
    case (Some dummy)
    then obtain z where "move_table hs fr (ht_table ht) dummy m1 = Inr z"
      using c h by (auto simp: hgrow_def rbind_eq_Inr_iff)
    with move_table_extends [OF x this] show ?thesis using c h Some by (simp add: hgrow_def)
  qed
qed

lemma fuel_extends: "extends (hset_fuel n ml fr) (hset_fuel (Suc n) ml fr)"
proof (induction n)
  case 0
  show ?case by (simp add: extends_def)
next
  case (Suc n)
  show ?case
    unfolding extends_def
  proof (intro allI impI)
    fix d key l v m x assume h: "hset_fuel (Suc n) ml fr d key l v m = Inr x"
    then obtain r d1 m1 where p: "hput ml fr d key l v m = Inr (r, d1, m1)" by (auto simp: rbind_eq_Inr_iff)
    show "hset_fuel (Suc (Suc n)) ml fr d key l v m = Inr x"
    proof (cases "r = HSUCCESS \<and> crowded d1")
      case False
      then show ?thesis using h p by auto
    next
      case True
      then obtain z where z: "hgrow (hset_fuel n ml fr) ml fr d1 m1 = Inr z"
        using h p by (auto simp: rbind_eq_Inr_iff)
      have "hset_fuel (Suc (Suc n)) ml fr d key l v m = rbind (hgrow (hset_fuel (Suc n) ml fr) ml fr d1 m1)
          (\<lambda>(ok, ht, m). Inr (if ok then HSUCCESS else HERROR, ht, m))"
        using p True by (subst hset_fuel.simps(2)) simp
      also have "\<dots> = rbind (Inr z) (\<lambda>(ok, ht, m). Inr (if ok then HSUCCESS else HERROR, ht, m))"
        by (simp only: hgrow_extends [OF Suc.IH z])
      also have "\<dots> = hset_fuel (Suc n) ml fr d key l v m" using p True z by simp
      finally show ?thesis using h by simp
    qed
  qed
qed

lemma fuel_le: "hset_fuel n ml fr d key l v m = Inr x \<Longrightarrow> hset_fuel (n + k) ml fr d key l v m = Inr x"
  by (induction k) (simp_all add: extendsD [OF fuel_extends] del: hset_fuel.simps)

text \<open>
  C25: \<open>hset\<close> and \<open>_hgrow\<close> terminate. On a consistent table of the slab mode a nesting of
  18 - logsize calls is never exceeded: with that fuel or any larger one the model returns a
  result, and always the same one, the result of \<open>hset\<close>.
\<close>

theorem hset_terminates:
  assumes "htab_inv slab_inv slab_live (ht, m)" and "key_ok key l" and "18 \<le> n + ht_logsize ht"
  shows "\<exists>x. hset (li_malloc mf) li_free ht key l val m = Inr x \<and>
    hset_fuel n (li_malloc mf) li_free ht key l val m = Inr x"
proof -
  have h: "slab_inv m" "tab_ok ht" "\<not> crowded ht" "holds_blocks (slab_live m) ht"
    using assms(1) by (simp_all add: htab_inv_def)
  obtain x where x: "hset_fuel n (li_malloc mf) li_free ht key l val m = Inr x"
    by (rule slab_alloc.set_specD [OF slab_alloc.hset_fuel_spec [of n mf] h assms(2)]) (use assms(3) in auto)
  obtain y where y: "hset_fuel 32 (li_malloc mf) li_free ht key l val m = Inr y"
    by (rule slab_alloc.set_specD [OF slab_alloc.hset_fuel_spec [of 32 mf] h assms(2)]) auto
  have "x = y" using fuel_le [OF x, of 32] fuel_le [OF y, of n] by (simp add: add.commute)
  then show ?thesis unfolding hset_def using x y by blast
qed

theorem hset_terminates_witness:
  "\<exists>ht m x. htab_inv slab_inv slab_live (ht, m) \<and>
     hset_fuel 18 (li_malloc bump_malloc) li_free ht sample_key 3 7 m = Inr x"
proof -
  obtain ht m where h: "htab_inv slab_inv slab_live (ht, m)" by (rule sample_table [of bump_malloc])
  show ?thesis using hset_terminates [OF h sample_key_ok le_add1, of bump_malloc 7] h by blast
qed

end
