(* ===== verification/Sockets.thy ===== *)
theory Sockets
  imports LC_Prelude
begin

text \<open>
  \<open>src/socket.c\<close>: \<open>make_nonblocking\<close> and \<open>maximize_sndbuf\<close>. The answers of \<open>fcntl\<close>,
  \<open>getsockopt\<close> and \<open>setsockopt\<close> are parameters. An \<open>int\<close> is an \<open>int\<close> with the range of 32 bits
  written out where it matters.
\<close>

unbundle bit_operations_syntax

subsection \<open>Non-blocking sockets\<close>

text \<open>
  The call \<open>fcntl(sock, F_SETFL, \<dots>)\<close> that is made: its argument, from the flags that
  \<open>fcntl(sock, F_GETFL)\<close> returned (\<open>None\<close>: -1).
\<close>

definition make_nonblocking :: "32 word \<Rightarrow> 32 word option \<Rightarrow> 32 word" where
  "make_nonblocking nonblock getfl = (let flags = (case getfl of None \<Rightarrow> 0 | Some f \<Rightarrow> f) in flags OR nonblock)"

lemma make_nonblocking_bit:
  "bit (make_nonblocking nb (Some f)) i \<longleftrightarrow> bit f i \<or> bit nb i"
  by (simp add: make_nonblocking_def bit_or_iff)

subsection \<open>The largest send buffer\<close>

definition MAX_SENDBUF_SIZE :: int where
  "MAX_SENDBUF_SIZE = 256 * 1024 * 1024"

text \<open>\<open>avg = ((unsigned int)(min + max)) / 2\<close>, stored in an \<open>int\<close>.\<close>

definition mid :: "int \<Rightarrow> int \<Rightarrow> int" where
  "mid lo hi = (lo + hi) mod 2 ^ 32 div 2"

text \<open>
  The loop. \<open>ok\<close> says which sizes \<open>setsockopt\<close> takes; the result is \<open>last_good\<close> and the size
  the socket has at the end. A loop that did not end would be \<open>None\<close>.
\<close>

partial_function (option) sndbuf_loop :: "(int \<Rightarrow> bool) \<Rightarrow> int \<Rightarrow> int \<Rightarrow> int \<Rightarrow> int \<Rightarrow> (int \<times> int) option" where
  "sndbuf_loop ok lo hi good buf =
     (if hi < lo then Some (good, buf)
      else
        (let avg = mid lo hi in
         if ok avg then sndbuf_loop ok (avg + 1) hi avg avg
         else sndbuf_loop ok lo (avg - 1) good buf))"

text \<open>
  The whole function, from the result of \<open>getsockopt\<close> (\<open>None\<close>: an error): the value returned
  and the size of the buffer, with which the socket started if nothing was set.
\<close>

definition maximize_sndbuf :: "(int \<Rightarrow> bool) \<Rightarrow> int option \<Rightarrow> int \<Rightarrow> (nat \<times> int) option" where
  "maximize_sndbuf ok getopt buf =
     (case getopt of
        None \<Rightarrow> Some (0, buf)
      | Some old_size \<Rightarrow> map_option (\<lambda>(_, buf). (1, buf)) (sndbuf_loop ok old_size MAX_SENDBUF_SIZE 0 buf))"

lemma mid_between:
  assumes "0 \<le> lo" and "lo \<le> hi" and "hi < 2 ^ 31"
  shows "lo \<le> mid lo hi" and "mid lo hi \<le> hi"
  using assms by (simp_all add: mid_def)

text \<open>
  The loop ends, and what it has accepted last is the largest size in the interval that is
  accepted, when every size below an accepted one is accepted.
\<close>

lemma sndbuf_loop_max:
  assumes down: "\<And>x y. ok y \<Longrightarrow> x \<le> y \<Longrightarrow> ok x"
  shows "0 \<le> lo \<Longrightarrow> hi < 2 ^ 31 \<Longrightarrow> \<exists>g z. sndbuf_loop ok lo hi good buf = Some (g, z) \<and>
    (if lo \<le> hi \<and> ok lo then ok z \<and> lo \<le> z \<and> z \<le> hi \<and> (\<forall>x. z < x \<and> x \<le> hi \<longrightarrow> \<not> ok x) else z = buf)"
proof (induction "nat (hi + 1 - lo)" arbitrary: lo hi good buf rule: less_induct)
  case less
  show ?case
  proof (cases "hi < lo")
    case True
    then show ?thesis by (subst sndbuf_loop.simps) simp
  next
    case False
    let ?m = "mid lo hi"
    have m: "lo \<le> ?m" "?m \<le> hi" using mid_between [of lo hi] less.prems False by simp_all
    show ?thesis
    proof (cases "ok ?m")
      case True
      have lt: "nat (hi + 1 - (?m + 1)) < nat (hi + 1 - lo)" using m False by simp
      have pre: "0 \<le> ?m + 1" using m less.prems by simp
      obtain g z where gz: "sndbuf_loop ok (?m + 1) hi ?m ?m = Some (g, z)"
        "if ?m + 1 \<le> hi \<and> ok (?m + 1) then ok z \<and> ?m + 1 \<le> z \<and> z \<le> hi \<and> (\<forall>x. z < x \<and> x \<le> hi \<longrightarrow> \<not> ok x) else z = ?m"
        using less.hyps [OF lt pre less.prems(2)] by blast
      have eq: "sndbuf_loop ok lo hi good buf = Some (g, z)"
        using gz(1) True False by (subst sndbuf_loop.simps) (simp add: Let_def)
      have ok: "ok lo" using down [OF True m(1)] .
      show ?thesis
      proof (cases "?m + 1 \<le> hi \<and> ok (?m + 1)")
        case True
        then show ?thesis using gz(2) eq ok m False by auto
      next
        case nt: False
        then have z: "z = ?m" using gz(2) by auto
        have "\<not> ok x" if "z < x" "x \<le> hi" for x
        proof
          assume "ok x"
          then have "ok (?m + 1)" using down [of x "?m + 1"] that z by simp
          then show False using nt that z by simp
        qed
        then show ?thesis using eq ok m False True z by auto
      qed
    next
      case nok: False
      have lt: "nat (?m - 1 + 1 - lo) < nat (hi + 1 - lo)" using m False by simp
      have pre: "?m - 1 < 2 ^ 31" using m less.prems by simp
      obtain g z where gz: "sndbuf_loop ok lo (?m - 1) good buf = Some (g, z)"
        "if lo \<le> ?m - 1 \<and> ok lo then ok z \<and> lo \<le> z \<and> z \<le> ?m - 1 \<and> (\<forall>x. z < x \<and> x \<le> ?m - 1 \<longrightarrow> \<not> ok x) else z = buf"
        using less.hyps [OF lt less.prems(1) pre] by blast
      have eq: "sndbuf_loop ok lo hi good buf = Some (g, z)"
        using gz(1) nok False by (subst sndbuf_loop.simps) (simp add: Let_def)
      have up: "\<not> ok x" if "?m \<le> x" for x using down [of x ?m] nok that by blast
      show ?thesis
      proof (cases "ok lo")
        case True
        then have "lo \<le> ?m - 1" using nok m by (cases "lo = ?m") auto
        then have "ok z \<and> lo \<le> z \<and> z \<le> ?m - 1" "\<forall>x. z < x \<and> x \<le> ?m - 1 \<longrightarrow> \<not> ok x" using gz(2) True by auto
        moreover from this have "\<not> ok x" if "z < x" for x using that up by (cases "x \<le> ?m - 1") auto
        ultimately show ?thesis using eq True m False by auto
      qed (use gz(2) eq in auto)
    qed
  qed
qed

text \<open>
  C40: \<open>maximize_sndbuf\<close> ends, and leaves the largest send buffer the system gives: when the
  system accepts the sizes up to some limit, the socket ends with the largest of them that is
  not above 256 MB, or keeps its buffer when the limit is below the size it started with.
\<close>

theorem maximize_sndbuf_max:
  assumes "0 \<le> old"
  shows "maximize_sndbuf (\<lambda>x. x \<le> limit) (Some old) old =
    Some (1, if old \<le> limit \<and> old \<le> MAX_SENDBUF_SIZE then min limit MAX_SENDBUF_SIZE else old)"
proof -
  obtain g z where gz: "sndbuf_loop (\<lambda>x. x \<le> limit) old MAX_SENDBUF_SIZE 0 old = Some (g, z)"
    "if old \<le> MAX_SENDBUF_SIZE \<and> old \<le> limit
     then z \<le> limit \<and> old \<le> z \<and> z \<le> MAX_SENDBUF_SIZE \<and> (\<forall>x. z < x \<and> x \<le> MAX_SENDBUF_SIZE \<longrightarrow> \<not> x \<le> limit) else z = old"
    using sndbuf_loop_max [of "\<lambda>x. x \<le> limit" old MAX_SENDBUF_SIZE 0 old] assms by (auto simp: MAX_SENDBUF_SIZE_def)
  have fit: "z = min limit MAX_SENDBUF_SIZE" if "old \<le> MAX_SENDBUF_SIZE" "old \<le> limit"
  proof (rule antisym)
    show "z \<le> min limit MAX_SENDBUF_SIZE" using gz(2) that by simp
    show "min limit MAX_SENDBUF_SIZE \<le> z"
    proof (rule ccontr)
      assume "\<not> min limit MAX_SENDBUF_SIZE \<le> z"
      then have "z < min limit MAX_SENDBUF_SIZE" by (simp only: not_le)
      moreover have "z < x \<and> x \<le> MAX_SENDBUF_SIZE \<longrightarrow> \<not> x \<le> limit" for x using gz(2) that by simp
      then have "z < min limit MAX_SENDBUF_SIZE \<and> min limit MAX_SENDBUF_SIZE \<le> MAX_SENDBUF_SIZE \<longrightarrow>
        \<not> min limit MAX_SENDBUF_SIZE \<le> limit" .
      ultimately show False by (simp only: min.cobounded1 min.cobounded2 simp_thms)
    qed
  qed
  have "z = (if old \<le> limit \<and> old \<le> MAX_SENDBUF_SIZE then min limit MAX_SENDBUF_SIZE else old)"
  proof (cases "old \<le> limit \<and> old \<le> MAX_SENDBUF_SIZE")
    case False
    then have "z = old" using gz(2) by argo
    then show ?thesis using False by argo
  qed (use fit in simp)
  then show ?thesis by (simp add: maximize_sndbuf_def gz(1))
qed

theorem maximize_sndbuf_max_witness:
  "maximize_sndbuf (\<lambda>x. x \<le> 212992) (Some 16384) 16384 = Some (1, 212992)"
  using maximize_sndbuf_max [of 16384 212992] by (simp add: MAX_SENDBUF_SIZE_def)

end
