(* ===== verification/Slab_Capacity.thy ===== *)
theory Slab_Capacity
  imports Slab_Correct
begin

text \<open>
  How much the slab allocator can still give out: an abstract allocator that only counts, the
  free slabs and for each class the free chunks in the slabs it has begun, and the proof that
  \<open>scmalloc\<close> and \<open>scfree\<close> implement it.
\<close>

subsection \<open>What the operations do to the counters of the slabs\<close>

text \<open>The uses and the class of a slab; moving a slab between lists changes neither.\<close>

definition ctl_data :: "slab_ctl \<Rightarrow> nat \<times> nat option" where
  "ctl_data d = (nused d, ctl_cache d)"

definition uses :: "ctls \<Rightarrow> (nat \<times> nat option) list" where
  "uses cs = map ctl_data cs"

lemma uses_nth: "i < length cs \<Longrightarrow> uses cs ! i = (nused (cs ! i), ctl_cache (cs ! i))"
  by (simp add: uses_def ctl_data_def)

lemma length_uses [simp]: "length (uses cs) = length cs"
  by (simp add: uses_def)

lemma uses_update [simp]: "ctl_data y = ctl_data (cs ! i) \<Longrightarrow> uses (cs[i := y]) = uses cs"
  by (cases "i < length cs") (simp_all add: uses_def map_update list_update_same_conv list_update_beyond)

lemma ctl_data_links [simp]:
  "ctl_data (d\<lparr>nxt := n\<rparr>) = ctl_data d" "ctl_data (d\<lparr>prv := n\<rparr>) = ctl_data d" "ctl_data (d\<lparr>slots := y\<rparr>) = ctl_data d"
  "ctl_data (d\<lparr>nused := u\<rparr>) = (u, ctl_cache d)" "ctl_data (d\<lparr>ctl_cache := x\<rparr>) = (nused d, x)"
  by (simp_all add: ctl_data_def)

lemma push_uses: "push li i cs = (li', cs') \<Longrightarrow> uses cs' = uses cs"
  by (auto simp: push_def Let_def split: option.splits)

lemma pop_uses: "pop li cs = (r, li', cs') \<Longrightarrow> uses cs' = uses cs"
  by (auto simp: pop_def Let_def split: option.splits if_splits)

lemma pop_and_push_uses: "pop_and_push src dest cs = (r, src', dest', cs') \<Longrightarrow> uses cs' = uses cs"
  by (auto simp: pop_and_push_def split: prod.splits option.splits dest!: push_uses pop_uses)

lemma rem_here_uses: "rem_here li i cs = Inr (li', cs') \<Longrightarrow> uses cs' = uses cs"
  by (cases "pop li cs") (auto simp: rem_here_def Let_def split: option.splits if_splits dest: pop_uses)

lemma rem_loop_uses: "rem_loop n li cit i cs = Inr (r, li', cs') \<Longrightarrow> uses cs' = uses cs"
  by (induction n li cit i cs rule: rem_loop.induct)
    (auto simp: rbind_eq_Inr_iff split: if_splits dest: rem_here_uses)

lemma rem_and_push_uses: "rem_and_push src dest i cs = Inr (r, src', dest', cs') \<Longrightarrow> uses cs' = uses cs"
  by (auto simp: rem_and_push_def rem_def rbind_eq_Inr_iff split: if_splits prod.splits dest!: rem_loop_uses push_uses)

lemma take_chunk_uses:
  assumes "take_chunk k i c = Inr (b, c')" and "i < length (slab_ctls c)"
  shows "uses (slab_ctls c') = (uses (slab_ctls c))[i := (u32 (nused (slab_ctls c ! i) + 1), ctl_cache (slab_ctls c ! i))]"
proof -
  have "uses ((slab_ctls c)[i := (slab_ctls c ! i)\<lparr>slots := y, nused := u\<rparr>]) =
      (uses (slab_ctls c))[i := (u, ctl_cache (slab_ctls c ! i))]" for y u
    by (simp add: uses_def map_update)
  then show ?thesis using assms
    by (auto simp: take_chunk_def Let_def rbind_eq_Inr_iff split: if_splits prod.splits dest!: pop_and_push_uses)
qed

lemma release_slab_uses: "release_slab k i c = Inr c' \<Longrightarrow> uses (slab_ctls c') = uses (slab_ctls c)"
  by (auto simp: release_slab_def Let_def rbind_eq_Inr_iff split: if_splits prod.splits dest!: rem_and_push_uses)

lemma pick_slab_uses:
  assumes ok: "cm_ok c own loc" and k: "k < length (caches c)" and p: "pick_slab k c = (Some i, c1)"
  shows "i < length (slab_ctls c) \<and>
    (if own (Partial k) \<noteq> [] then c1 = c \<and> ctl_cache (slab_ctls c ! i) = Some k \<and>
       0 < nused (slab_ctls c ! i) \<and> nused (slab_ctls c ! i) < chunk_count_perslab (caches c ! k)
     else nused (slab_ctls c ! i) = 0 \<and> uses (slab_ctls c1) = (uses (slab_ctls c))[i := (0, Some k)])"
proof -
  have l: "lists_ok c own loc" using ok by (simp add: cm_ok_def)
  show ?thesis
  proof (cases "own (Partial k) = []")
    case False
    have i: "i = hd (own (Partial k))" "c1 = c" using pick_slab_head [OF ok k False] p by simp_all
    have "i \<in> set (own (Partial k))" using False i(1) by simp
    then have "i < length (slab_ctls c)" "loc i = Partial k" using lists_okD(2) [OF l, of "Partial k"] k by auto
    then show ?thesis using cm_ok_ctl [OF ok, of i] False i by simp
  next
    case True
    have "own Free \<noteq> []" using pick_slab_none [OF ok k True] p by auto
    then obtain j rest where fr: "own Free = j # rest" by (auto simp: neq_Nil_conv)
    obtain c' where "pick_slab k c = (Some j, c')" using pick_slab_free [OF ok k True fr] by blast
    then have "i \<in> set (own Free)" using p fr by simp
    then have i: "i < length (slab_ctls c)" "loc i = Free" using lists_okD(2) [OF l, of Free] by auto
    have n0: "nused (slab_ctls c ! i) = 0" using cm_ok_ctl [OF ok i(1)] i(2) by (simp add: slots_ok_0)
    have "peek (slabs_partial (caches c ! k)) = None"
      using lists_okD(1) [OF l, of "Partial k"] k True by (simp add: dll_def peek_def)
    then obtain fr' cs1 pa cs2 where c1: "pop (slabs_free c) (slab_ctls c) = (Some i, fr', cs1)"
      "push (slabs_partial (caches c ! k)) i cs1 = (pa, cs2)" "slab_ctls c1 = cs2[i := (cs2 ! i)\<lparr>ctl_cache := Some k\<rparr>]"
      using p by (auto simp: pick_slab_def split: prod.splits option.splits)
    have u: "uses cs2 = uses (slab_ctls c)" using push_uses [OF c1(2)] pop_uses [OF c1(1)] by simp
    then have "length cs2 = length (slab_ctls c)" using length_uses by metis
    then have "nused (cs2 ! i) = 0" using uses_nth [of i cs2] uses_nth [OF i(1)] u i(1) n0 by simp
    then have "uses (slab_ctls c1) = (uses (slab_ctls c))[i := (0, Some k)]"
      unfolding c1(3) u [symmetric] by (simp add: uses_def map_update)
    then show ?thesis using True i(1) n0 by simp
  qed
qed

text \<open>No slab of the class is begun when its list is empty.\<close>

lemma no_partial:
  assumes ok: "cm_ok c own loc" and k: "k < length (caches c)" and e: "own (Partial k) = []"
    and j: "j < length (slab_ctls c)" "ctl_cache (slab_ctls c ! j) = Some k" "nused (slab_ctls c ! j) \<noteq> 0"
  shows "nused (slab_ctls c ! j) = chunk_count_perslab (caches c ! k)"
proof -
  have l: "lists_ok c own loc" using ok by (simp add: cm_ok_def)
  have "loc j \<noteq> Partial k" using lists_okD(2) [OF l, of "Partial k"] k e j(1) by auto
  then show ?thesis using cm_ok_ctl [OF ok j(1)] j(2,3) by (cases "loc j") (auto simp: slots_ok_0)
qed

subsection \<open>The abstract allocator\<close>

text \<open>
  The number of free slabs, and for each class the number of free chunks in the slabs it has
  begun. Taking prefers the latter; a slab whose last chunk comes back is free again.
\<close>

type_synonym budget = "nat \<times> (nat \<Rightarrow> nat)"

definition spec_take :: "(nat \<Rightarrow> nat) \<Rightarrow> nat \<Rightarrow> budget \<Rightarrow> budget option" where
  "spec_take cap k = (\<lambda>(f, r).
     if 0 < r k then Some (f, r(k := r k - 1))
     else if 0 < f then Some (f - 1, r(k := cap k - 1))
     else None)"

definition spec_put :: "(nat \<Rightarrow> nat) \<Rightarrow> nat \<Rightarrow> bool \<Rightarrow> budget \<Rightarrow> budget" where
  "spec_put cap k only = (\<lambda>(f, r).
     if only then (f + 1, r(k := r k - (cap k - 1))) else (f, r(k := r k + 1)))"

definition caps :: "cache_manager_t \<Rightarrow> nat \<Rightarrow> nat" where
  "caps c k = chunk_count_perslab (caches c ! k)"

definition unused :: "nat \<times> nat option \<Rightarrow> nat" where
  "unused = (\<lambda>(u, x). if u = 0 then 1 else 0)"

definition begun :: "(nat \<Rightarrow> nat) \<Rightarrow> nat \<Rightarrow> nat \<times> nat option \<Rightarrow> nat" where
  "begun cap k = (\<lambda>(u, x). if u \<noteq> 0 \<and> x = Some k then cap k - u else 0)"

definition free_slabs :: "(nat \<times> nat option) list \<Rightarrow> nat" where
  "free_slabs us = sum_list (map unused us)"

definition begun_room :: "(nat \<Rightarrow> nat) \<Rightarrow> (nat \<times> nat option) list \<Rightarrow> nat \<Rightarrow> nat" where
  "begun_room cap us k = sum_list (map (begun cap k) us)"

definition budget :: "cache_manager_t \<Rightarrow> budget" where
  "budget c = (free_slabs (uses (slab_ctls c)), begun_room (caps c) (uses (slab_ctls c)))"

lemma sum_list_upd:
  fixes f :: "'x \<Rightarrow> nat"
  assumes "i < length xs"
  shows "sum_list (map f (xs[i := y])) + f (xs ! i) = sum_list (map f xs) + f y"
proof -
  have "f (xs ! i) \<le> sum_list (map f xs)" using assms by (intro member_le_sum_list) auto
  then show ?thesis using assms sum_list_update [of i "map f xs" "f y"] by (simp add: map_update)
qed

lemma free_slabs_upd: "i < length us \<Longrightarrow> free_slabs (us[i := y]) + unused (us ! i) = free_slabs us + unused y"
  by (simp add: free_slabs_def sum_list_upd)

lemma begun_room_upd:
  "i < length us \<Longrightarrow> begun_room cap (us[i := y]) k + begun cap k (us ! i) = begun_room cap us k + begun cap k y"
  by (simp add: begun_room_def sum_list_upd)

lemma begun_room_cong:
  assumes "\<And>u x. (u, x) \<in> set us \<Longrightarrow> u \<noteq> 0 \<Longrightarrow> x = Some k \<Longrightarrow> cap k = cap' k"
  shows "begun_room cap us k = begun_room cap' us k"
  unfolding begun_room_def using assms
  by (intro arg_cong [where f = sum_list] map_cong refl) (auto simp: begun_def)

lemma begun_room_zero:
  "begun_room cap us k = 0 \<longleftrightarrow> (\<forall>u x. (u, x) \<in> set us \<longrightarrow> u \<noteq> 0 \<longrightarrow> x = Some k \<longrightarrow> cap k \<le> u)"
  by (auto simp: begun_room_def begun_def split: if_splits)

lemma free_slabs_zero: "free_slabs us = 0 \<longleftrightarrow> (\<forall>u x. (u, x) \<in> set us \<longrightarrow> u \<noteq> 0)"
  by (auto simp: free_slabs_def unused_def split: if_splits)

subsection \<open>scmalloc takes, scfree puts back\<close>

text \<open>The class that serves \<open>n\<close> bytes: the first one that is large enough.\<close>

definition serves_size :: "cache_manager_t \<Rightarrow> nat \<Rightarrow> nat \<Rightarrow> bool" where
  "serves_size c n k \<longleftrightarrow> k < length (caches c) \<and> n \<le> chunk_size (caches c ! k) \<and>
     (\<forall>j < k. chunk_size (caches c ! j) < n)"

lemma serves_size_unique: "serves_size c n k \<Longrightarrow> serves_size c n m \<Longrightarrow> k = m"
  unfolding serves_size_def by (metis linorder_neqE_nat not_less)

lemma serves_size_last:
  assumes "frame_ok c" and "serves_size c n k"
  shows "n \<le> chunk_size (last (caches c))"
proof -
  have k: "k < length (caches c)" "n \<le> chunk_size (caches c ! k)" using assms(2) by (simp_all add: serves_size_def)
  have cs: "classes_ok (caches c)" using assms(1) by (simp add: frame_ok_def)
  consider "k = length (caches c) - 1" | "k < length (caches c) - 1" "length (caches c) - 1 < length (caches c)"
    using k(1) by linarith
  then have "chunk_size (caches c ! k) \<le> chunk_size (caches c ! (length (caches c) - 1))"
    by cases (use classes_strict [OF cs] in \<open>auto intro: less_imp_le\<close>)
  moreover have "caches c \<noteq> []" using k(1) by auto
  ultimately show ?thesis using k(2) by (simp add: last_conv_nth)
qed

lemma scmalloc_parts:
  assumes "scmalloc n s = Inr (Some a, s')" and "cm s = Some c"
  shows "\<exists>k i c1 b c2. size_to_cache (Some (caches c)) (cache_count c) (u32 n) = Some k \<and>
    pick_slab k c = (Some i, c1) \<and> take_chunk k i c1 = Inr (b, c2) \<and> cm s' = Some c2"
  using assms by (auto simp: scmalloc_def rbind_eq_Inr_iff Let_def split: if_splits option.splits prod.splits)

lemma begun_room_layout:
  assumes "same_layout c c'" and "cm_ok c' own loc"
  shows "begun_room (caps c') (uses (slab_ctls c')) = begun_room (caps c) (uses (slab_ctls c'))"
proof (rule ext, rule begun_room_cong)
  fix j u x assume "(u, x) \<in> set (uses (slab_ctls c'))" "x = Some j"
  then obtain i where "i < length (slab_ctls c')" "ctl_cache (slab_ctls c' ! i) = Some j"
    by (auto simp: in_set_conv_nth uses_nth)
  then have "j < length (caches c')" using cm_ok_cache_lt [OF assms(2)] by blast
  then show "caps c' j = caps c j" using assms(1) by (auto simp: caps_def same_layout_def same_classes_def)
qed

lemma uses_small:
  assumes "cm_ok c own loc" and "i < length (slab_ctls c)"
  shows "nused (slab_ctls c ! i) < 2 ^ 31"
  using nused_le_ccount [OF assms] slots_ok_view(2) [OF assms] by (simp add: WORD_COUNT_eq WORD_SIZE_IN_BITS_def)

lemma begun_other [simp]: "j \<noteq> k \<Longrightarrow> begun cap j (u, Some k) = 0"
  by (simp add: begun_def)

text \<open>What a served request does to the counters: one more chunk of a slab of the class or of a free one.\<close>

lemma scmalloc_uses:
  assumes m: "scmalloc n s = Inr (Some a, s')" and st: "slab_ok s" and c: "cm s = Some c" "cm s' = Some c'"
    and k: "size_to_cache (Some (caches c)) (cache_count c) (u32 n) = Some k" "k < length (caches c)"
  obtains (begun) i where "i < length (slab_ctls c)" and "uses (slab_ctls c) ! i = (nused (slab_ctls c ! i), Some k)"
      and "0 < nused (slab_ctls c ! i)" and "nused (slab_ctls c ! i) < caps c k"
      and "uses (slab_ctls c') = (uses (slab_ctls c))[i := (Suc (nused (slab_ctls c ! i)), Some k)]"
  | (fresh) i y where "i < length (slab_ctls c)" and "uses (slab_ctls c) ! i = (0, y)"
      and "begun_room (caps c) (uses (slab_ctls c)) k = 0"
      and "uses (slab_ctls c') = (uses (slab_ctls c))[i := (1, Some k)]"
proof -
  obtain own loc where ok: "cm_ok c own loc" using st c(1) by (rule slab_okE)
  obtain i c1 b where p: "pick_slab k c = (Some i, c1)" "take_chunk k i c1 = Inr (b, c')"
    using scmalloc_parts [OF m c(1)] k(1) c(2) by auto
  let ?us = "uses (slab_ctls c)" and ?u = "nused (slab_ctls c ! i)"
  note pk = pick_slab_uses [OF ok k(2) p(1)]
  have i: "i < length (slab_ctls c)" using pk by simp
  show thesis
  proof (cases "own (Partial k) = []")
    case False
    then have q: "c1 = c" "ctl_cache (slab_ctls c ! i) = Some k" "0 < ?u" "?u < caps c k" using pk by (auto simp: caps_def)
    have "uses (slab_ctls c') = ?us[i := (Suc ?u, Some k)]"
      using take_chunk_uses [OF p(2)] q i uses_small [OF ok i] by simp
    then show thesis using begun i uses_nth [OF i] q(2-4) by simp
  next
    case True
    then have q: "?u = 0" "uses (slab_ctls c1) = ?us[i := (0, Some k)]" using pk by simp_all
    have len: "length (slab_ctls c1) = length (slab_ctls c)" using q(2) length_uses length_list_update by metis
    have "uses (slab_ctls c1) ! i = (0, Some k)" using q(2) i by simp
    then have "nused (slab_ctls c1 ! i) = 0" "ctl_cache (slab_ctls c1 ! i) = Some k" using uses_nth len i by simp_all
    then have "uses (slab_ctls c') = ?us[i := (1, Some k)]"
      using take_chunk_uses [OF p(2)] len i by (simp add: q(2))
    moreover have "begun_room (caps c) ?us k = 0"
      unfolding begun_room_zero using no_partial [OF ok k(2) True] by (auto simp: in_set_conv_nth uses_nth caps_def)
    ultimately show thesis using fresh i uses_nth [OF i] q(1) by simp
  qed
qed

lemma scmalloc_budget:
  assumes m: "scmalloc n s = Inr (Some a, s')" and st: "slab_ok s" "slab_ok s'" and c: "cm s = Some c" "cm s' = Some c'"
    and lay: "same_layout c c'" and k: "size_to_cache (Some (caches c)) (cache_count c) (u32 n) = Some k" "k < length (caches c)"
  shows "spec_take (caps c) k (budget c) = Some (budget c')"
proof -
  obtain own' loc' where ok': "cm_ok c' own' loc'" using st(2) c(2) by (rule slab_okE)
  let ?us = "uses (slab_ctls c)" and ?r = "begun_room (caps c) (uses (slab_ctls c))"
  have b: "budget c' = (free_slabs (uses (slab_ctls c')), begun_room (caps c) (uses (slab_ctls c')))"
    using begun_room_layout [OF lay ok'] by (simp add: budget_def)
  show ?thesis
    using m st(1) c k
  proof (cases rule: scmalloc_uses)
    case (begun i)
    let ?u = "nused (slab_ctls c ! i)"
    have i: "i < length ?us" using begun(1) by simp
    have "free_slabs (uses (slab_ctls c')) = free_slabs ?us"
      using free_slabs_upd [OF i, of "(Suc ?u, Some k)"] begun by (simp add: unused_def)
    moreover have r: "begun_room (caps c) (uses (slab_ctls c')) j + begun (caps c) j (?u, Some k) =
        ?r j + begun (caps c) j (Suc ?u, Some k)" for j
      using begun_room_upd [OF i, of "caps c" "(Suc ?u, Some k)" j] begun by simp
    have "(?u, Some k) \<in> set ?us" using nth_mem [OF i] begun(2) by simp
    then have "?r k \<noteq> 0" using begun(3,4) unfolding begun_room_zero by (auto simp: not_le)
    moreover have "begun_room (caps c) (uses (slab_ctls c')) = ?r(k := ?r k - 1)"
    proof
      fix j show "begun_room (caps c) (uses (slab_ctls c')) j = (?r(k := ?r k - 1)) j"
        using r [of j] begun by (cases "j = k") (simp_all add: begun_def)
    qed
    ultimately show ?thesis by (simp add: spec_take_def budget_def [of c] b)
  next
    case (fresh i y)
    have i: "i < length ?us" using fresh(1) by simp
    have f: "free_slabs (uses (slab_ctls c')) + 1 = free_slabs ?us"
      using free_slabs_upd [OF i, of "(1, Some k)"] fresh by (simp add: unused_def)
    have r: "begun_room (caps c) (uses (slab_ctls c')) j = ?r j + begun (caps c) j (1, Some k)" for j
      using begun_room_upd [OF i, of "caps c" "(1, Some k)" j] fresh by (simp add: begun_def)
    have "begun_room (caps c) (uses (slab_ctls c')) = ?r(k := caps c k - 1)"
    proof
      fix j show "begun_room (caps c) (uses (slab_ctls c')) j = (?r(k := caps c k - 1)) j"
        using r [of j] fresh(3) by (cases "j = k") (simp_all add: begun_def)
    qed
    then show ?thesis using fresh(3) f by (simp add: spec_take_def budget_def [of c] b)
  qed
qed

text \<open>The class of the slab of a chunk, and whether the chunk is the only one in use there.\<close>

definition class_of :: "cache_manager_t \<Rightarrow> nat \<times> nat \<Rightarrow> nat" where
  "class_of c x = the (ctl_cache (slab_ctls c ! fst x))"

definition only_chunk :: "cache_manager_t \<Rightarrow> nat \<times> nat \<Rightarrow> bool" where
  "only_chunk c x \<longleftrightarrow> (\<forall>y \<in> chunks c. fst y = fst x \<longrightarrow> y = x)"

lemma only_chunk_uses:
  assumes ok: "cm_ok c own loc" and x: "(i, b) \<in> chunks c"
  shows "only_chunk c (i, b) \<longleftrightarrow> nused (slab_ctls c ! i) = 1" and "0 < nused (slab_ctls c ! i)"
proof -
  let ?T = "taken (ccount c i) (slab_ctls c ! i)"
  have i: "i < length (slab_ctls c)" and b: "b \<in> ?T" using x by (simp_all add: chunks_def)
  have n: "nused (slab_ctls c ! i) = card ?T" using slots_ok_view(1) [OF ok i] by (simp add: slots_ok_def)
  have "only_chunk c (i, b) \<longleftrightarrow> ?T = {b}" using i b by (auto simp: only_chunk_def chunks_def)
  also have "\<dots> \<longleftrightarrow> card ?T = 1" using b by (auto simp: card_1_singleton_iff)
  finally show "only_chunk c (i, b) \<longleftrightarrow> nused (slab_ctls c ! i) = 1" using n by simp
  show "0 < nused (slab_ctls c ! i)" using b n by (auto simp: card_gt_0_iff)
qed

text \<open>A slab in use keeps its class.\<close>

lemma scmalloc_classes:
  assumes m: "scmalloc n s = Inr (Some a, s')" and st: "slab_ok s" and c: "cm s = Some c" "cm s' = Some c'"
    and k: "size_to_cache (Some (caches c)) (cache_count c) (u32 n) = Some k" "k < length (caches c)"
    and lay: "same_layout c c'" and y: "y \<in> chunks c"
  shows "class_of c' y = class_of c y"
proof -
  obtain own loc where ok: "cm_ok c own loc" using st c(1) by (rule slab_okE)
  obtain j b where jb: "y = (j, b)" by fastforce
  have j: "j < length (slab_ctls c)" "j < length (slab_ctls c')" "0 < nused (slab_ctls c ! j)"
    using chunk_bounds(1) [OF ok] only_chunk_uses [OF ok] y jb lay by (auto simp: same_layout_def)
  have "snd (uses (slab_ctls c') ! j) = snd (uses (slab_ctls c) ! j)"
    using m st c k
  proof (cases rule: scmalloc_uses)
    case (begun i)
    then show ?thesis using j by (cases "i = j") simp_all
  next
    case (fresh i z)
    then have "i \<noteq> j" using j uses_nth by auto
    then show ?thesis using fresh by simp
  qed
  then show ?thesis using uses_nth [OF j(1)] uses_nth [OF j(2)] by (simp add: class_of_def jb)
qed

lemma scmalloc_spent:
  assumes "slab_ok s" and c: "cm s = Some c" and room: "\<not> has_room c k"
  shows "spec_take (caps c) k (budget c) = None"
proof -
  have no: "nused (slab_ctls c ! i) \<noteq> 0 \<and> (ctl_cache (slab_ctls c ! i) = Some k \<longrightarrow> caps c k \<le> nused (slab_ctls c ! i))"
    if "i < length (slab_ctls c)" for i using room that by (auto simp: has_room_def caps_def)
  have "free_slabs (uses (slab_ctls c)) = 0" "begun_room (caps c) (uses (slab_ctls c)) k = 0"
    unfolding free_slabs_zero begun_room_zero by (auto simp: in_set_conv_nth uses_nth dest: no)
  then show ?thesis by (simp add: spec_take_def budget_def)
qed

lemma scfree_budget:
  assumes st: "slab_ok s" and c: "cm s = Some c" and x: "(i, b) \<in> chunks c"
  shows "\<exists>s' c'. scfree (chunk_addr c (i, b)) s = Inr s' \<and> cm s' = Some c' \<and> slab_ok s' \<and> same_layout c c' \<and>
    budget c' = spec_put (caps c) (class_of c (i, b)) (only_chunk c (i, b)) (budget c)"
proof -
  obtain own loc where ok: "cm_ok c own loc" using st c by (rule slab_okE)
  obtain c' s' where s': "scfree (chunk_addr c (i, b)) s = Inr s'" "cm s' = Some c'" "slab_ok s'" "free_step c (i, b) c'"
    using scfree_live [OF c ok st x] by blast
  obtain own' loc' where ok': "cm_ok c' own' loc'" using s'(3,2) by (rule slab_okE)
  have lay: "same_layout c c'" using s'(4) by (simp add: free_step_def)
  note bd = chunk_bounds [OF ok x]
  have f: "frame_ok c" using ok by (simp add: cm_ok_def)
  let ?us = "uses (slab_ctls c)" and ?d = "slab_ctls c ! i"
  obtain k where k: "ctl_cache ?d = Some k" using bd(3) by (auto simp: csize_def split: option.splits)
  have cl: "class_of c (i, b) = k" by (simp add: class_of_def k)
  have cc: "csize c i = chunk_size (caches c ! k)" "ccount c i = caps c k"
    using ccount_csize [OF k] by (simp_all add: caps_def)
  have i: "i < length ?us" using bd(1) by simp
  have ui: "?us ! i = (nused ?d, Some k)" using uses_nth [OF bd(1)] k by simp
  have pos: "0 < nused ?d" and le: "nused ?d \<le> caps c k" and small: "nused ?d < 2 ^ 31"
    using only_chunk_uses(2) [OF ok x] nused_le_ccount [OF ok bd(1)] cc uses_small [OF ok bd(1)] by simp_all
  have dec: "dec32 (nused ?d) = nused ?d - 1" using dec32_id [of "nused ?d"] pos small by simp
  obtain y c2 where "release_slab k i (c\<lparr>slab_ctls := (slab_ctls c)[i := ?d\<lparr>slots := y, nused := dec32 (nused ?d)\<rparr>]\<rparr>) = Inr c2"
    "c2 = c'"
    using s'(1,2) c k scfree_locates [OF f bd(1) bd(3,4)] bd(1) cc
    by (auto simp: scfree_def Let_def rbind_eq_Inr_iff split: if_splits)
  then have u: "uses (slab_ctls c') = ?us[i := (nused ?d - 1, Some k)]"
    using release_slab_uses by (fastforce simp: uses_def map_update k dec)
  have b: "budget c' = (free_slabs (uses (slab_ctls c')), begun_room (caps c) (uses (slab_ctls c')))"
    using begun_room_layout [OF lay ok'] by (simp add: budget_def)
  have fs: "free_slabs (uses (slab_ctls c')) = free_slabs ?us + unused (nused ?d - 1, Some k)"
    using free_slabs_upd [OF i, of "(nused ?d - 1, Some k)"] pos by (simp add: u ui unused_def)
  have r: "begun_room (caps c) (uses (slab_ctls c')) j + begun (caps c) j (nused ?d, Some k) =
      begun_room (caps c) ?us j + begun (caps c) j (nused ?d - 1, Some k)" for j
    using begun_room_upd [OF i, of "caps c" "(nused ?d - 1, Some k)" j] by (simp add: u ui)
  let ?r = "begun_room (caps c) ?us"
  have "budget c' = spec_put (caps c) k (nused ?d = 1) (budget c)"
  proof (cases "nused ?d = 1")
    case True
    have "begun_room (caps c) (uses (slab_ctls c')) = ?r(k := ?r k - (caps c k - 1))"
    proof
      fix j show "begun_room (caps c) (uses (slab_ctls c')) j = (?r(k := ?r k - (caps c k - 1))) j"
        using r [of j] True by (cases "j = k") (simp_all add: begun_def)
    qed
    then show ?thesis using fs True by (simp add: spec_put_def budget_def [of c] b unused_def)
  next
    case False
    have "begun_room (caps c) (uses (slab_ctls c')) = ?r(k := ?r k + 1)"
    proof
      fix j show "begun_room (caps c) (uses (slab_ctls c')) j = (?r(k := ?r k + 1)) j"
        using r [of j] False pos le by (cases "j = k") (simp_all add: begun_def)
    qed
    then show ?thesis using fs False pos by (simp add: spec_put_def budget_def [of c] b unused_def)
  qed
  then show ?thesis using s' lay cl only_chunk_uses(1) [OF ok x] by auto
qed

lemma scmalloc_takes:
  assumes st: "slab_ok s" and c: "cm s = Some c" and k: "serves_size c n k"
  shows "case spec_take (caps c) k (budget c) of
      None \<Rightarrow> scmalloc n s = Inr (None, s)
    | Some b \<Rightarrow> \<exists>x s' c'. scmalloc n s = Inr (Some (chunk_addr c' x), s') \<and> cm s' = Some c' \<and> slab_ok s' \<and>
        budget c' = b \<and> alloc_step c x c' \<and> class_of c' x = k \<and> (\<forall>y \<in> chunks c. class_of c' y = class_of c y)"
proof -
  obtain own loc where ok: "cm_ok c own loc" using st c by (rule slab_okE)
  have f: "frame_ok c" using ok by (simp add: cm_ok_def)
  show ?thesis using st c
  proof (cases rule: scmalloc_cases [where n = n])
    case big
    then show ?thesis using serves_size_last [OF f k] by simp
  next
    case (full m)
    then have "serves_size c n m" by (simp add: serves_size_def)
    from serves_size_unique [OF this k] have "m = k" .
    then show ?thesis using full scmalloc_spent [OF st c] by simp
  next
    case (served m i b c' s')
    then have "serves_size c n m" by (simp add: serves_size_def)
    from serves_size_unique [OF this k] have mk: "m = k" .
    have sc: "size_to_cache (Some (caches c)) (cache_count c) (u32 n) = Some k"
      using scmalloc_class [OF c ok serves_size_last [OF f k]] serves_size_unique [OF k]
      by (metis serves_size_def)
    have kl: "k < length (caches c)" using k by (simp add: serves_size_def)
    have lay: "same_layout c c'" using served(8) by (simp add: alloc_step_def)
    have "spec_take (caps c) k (budget c) = Some (budget c')"
      by (rule scmalloc_budget [OF served(5) st served(7) c served(6) lay sc kl])
    moreover have "class_of c' (i, b) = k"
    proof -
      obtain own' loc' where ok': "cm_ok c' own' loc'" using served(7,6) by (rule slab_okE)
      have x: "(i, b) \<in> chunks c'" using served(8) by (simp add: alloc_step_def)
      note bd = chunk_bounds [OF ok' x]
      obtain m where m: "ctl_cache (slab_ctls c' ! i) = Some m" using bd(3) by (auto simp: csize_def split: option.splits)
      have ml: "m < length (caches c')" by (rule cm_ok_cache_lt [OF ok' bd(1) m])
      have "classes_ok (caches c')" using ok' by (simp add: cm_ok_def frame_ok_def)
      moreover have "chunk_size (caches c' ! m) = chunk_size (caches c' ! k)" "k < length (caches c')"
        using served(9) mk m lay kl by (simp_all add: csize_def same_layout_def same_classes_def)
      ultimately have "m = k" using classes_strict [of "caches c'"] ml by (metis less_irrefl linorder_neqE_nat)
      then show ?thesis by (simp add: class_of_def m)
    qed
    moreover have "\<forall>y \<in> chunks c. class_of c' y = class_of c y"
      using scmalloc_classes [OF served(5) st c served(6) sc kl lay] by blast
    ultimately show ?thesis using served mk by auto
  qed
qed

text \<open>
  C10: \<open>scmalloc\<close> and \<open>scfree\<close> implement the allocator that only counts. A request of a class is
  refused exactly when the class has no chunk left in the slabs it has begun and no slab is free;
  otherwise it takes one chunk of a begun slab, or begins a free one when there is none. A free
  chunk goes back to its class, and a slab whose last chunk comes back is free for every class.
\<close>

theorem slab_refines_budget:
  assumes "slab_ok s" and "cm s = Some c"
  shows "(serves_size c n k \<longrightarrow> (\<exists>r s' c'. scmalloc n s = Inr (r, s') \<and> cm s' = Some c' \<and> slab_ok s' \<and>
      (case spec_take (caps c) k (budget c) of
         None \<Rightarrow> r = None \<and> s' = s
       | Some b \<Rightarrow> r \<noteq> None \<and> budget c' = b \<and> same_layout c c'))) \<and>
    (x \<in> chunks c \<longrightarrow> (\<exists>s' c'. scfree (chunk_addr c x) s = Inr s' \<and> cm s' = Some c' \<and> slab_ok s' \<and>
      same_layout c c' \<and> budget c' = spec_put (caps c) (class_of c x) (only_chunk c x) (budget c)))"
proof (intro conjI impI)
  assume "serves_size c n k"
  from scmalloc_takes [OF assms this]
  show "\<exists>r s' c'. scmalloc n s = Inr (r, s') \<and> cm s' = Some c' \<and> slab_ok s' \<and>
      (case spec_take (caps c) k (budget c) of None \<Rightarrow> r = None \<and> s' = s
       | Some b \<Rightarrow> r \<noteq> None \<and> budget c' = b \<and> same_layout c c')"
    using assms by (auto simp: alloc_step_def split: option.splits)
next
  assume "x \<in> chunks c"
  then show "\<exists>s' c'. scfree (chunk_addr c x) s = Inr s' \<and> cm s' = Some c' \<and> slab_ok s' \<and>
      same_layout c c' \<and> budget c' = spec_put (caps c) (class_of c x) (only_chunk c x) (budget c)"
    using scfree_budget [OF assms, of "fst x" "snd x"] by simp
qed

text \<open>The first request of a fresh manager begins one of its 63 slabs.\<close>

lemma init_uses: "uses (init_slab_ctls n) = replicate n (0, None)"
  by (rule nth_equalityI) (simp_all add: uses_nth init_slab_ctls_nth)

lemma fresh_budget: "budget c = (n, \<lambda>k. 0)" if "slab_ctls c = init_slab_ctls n"
  using that by (simp add: budget_def init_uses free_slabs_def begun_room_def unused_def begun_def sum_list_replicate fun_eq_iff)

theorem slab_refines_budget_witness:
  "\<exists>r s c. scmalloc 10 sample_state = Inr (r, s) \<and> cm s = Some c \<and> budget c = (62, (\<lambda>k. 0)(0 := caps sample_cm 0 - 1))"
proof -
  have b: "budget sample_cm = (63, \<lambda>k. 0)" by (rule fresh_budget) (simp add: sample_cm_def)
  have "serves_size sample_cm 10 0"
    by (simp add: serves_size_def sample_cm_def init_caches_125 sizes_125_def cache_of_size_def)
  with slab_refines_budget [OF sample_ok sample_cm, of 10 0 "(0, 0)"] b show ?thesis
    by (auto simp: spec_take_def)
qed

end
