(* ===== verification/Slab_Test.thy ===== *)
theory Slab_Test
  imports Slab_Capacity
begin

text \<open>
  \<open>test_slab_allocator\<close> at the end of \<open>src/slab.c\<close> as a program over the allocator, and that it
  passes: run on the abstract allocator that only counts.
\<close>

subsection \<open>The test\<close>

text \<open>\<open>while (scmalloc(n) != NULL) {}\<close>; \<open>None\<close> when the loop does not end.\<close>

partial_function (option) use_up :: "nat \<Rightarrow> slab_state \<Rightarrow> slab_state res option" where
  "use_up n s =
     (case scmalloc n s of
        Inl f \<Rightarrow> Some (Inl f)
      | Inr x \<Rightarrow> if fst x = None then Some (Inr (snd x)) else use_up n (snd x))"

text \<open>\<open>assert(scmalloc(n) != NULL)\<close>, which returns the chunk, and \<open>assert(scmalloc(n) == NULL)\<close>.\<close>

definition gets :: "nat \<Rightarrow> slab_state \<Rightarrow> (nat \<times> slab_state) res" where
  "gets n s =
     rbind (scmalloc n s) (\<lambda>(p, s).
     case p of None \<Rightarrow> Inl Assert_failed | Some a \<Rightarrow> Inr (a, s))"

definition gets_null :: "nat \<Rightarrow> slab_state \<Rightarrow> slab_state res" where
  "gets_null n s = rbind (scmalloc n s) (\<lambda>(p, s). rbind (rassert (p = None)) (\<lambda>_. Inr s))"

definition the_cm :: "slab_state \<Rightarrow> cache_manager_t res" where
  "the_cm s = (case cm s of None \<Rightarrow> Inl Null_deref | Some c \<Rightarrow> Inr c)"

definition init_manager :: "malloc_fun \<Rightarrow> nat \<Rightarrow> slab_state \<Rightarrow> slab_state res" where
  "init_manager mf limit s =
     rbind (init_cache_manager mf limit SLAB_SIZE_FACTOR s) (\<lambda>(ok, s). rbind (rassert ok) (\<lambda>_. Inr s))"

text \<open>All slabs for one cache; the result has \<open>cache_cnt\<close>. \<open>NULL\<close> as an argument of \<open>scfree\<close> is 0.\<close>

definition test_one_cache :: "malloc_fun \<Rightarrow> slab_state \<Rightarrow> (nat \<times> slab_state) res" where
  "test_one_cache mf s =
     rbind (init_manager mf 200 s) (\<lambda>s.
     rbind (the_cm s) (\<lambda>c.
     let cache_cnt = cache_count c in
     rbind (scmalloc 50 s) (\<lambda>(p, s).
     rbind (scfree (case p of None \<Rightarrow> 0 | Some a \<Rightarrow> a) s) (\<lambda>s.
     rbind (scmalloc 50 s) (\<lambda>(p, s).
     rbind (case use_up 50 s of None \<Rightarrow> Inl Diverges | Some r \<Rightarrow> r) (\<lambda>s.
     rbind (the_cm s) (\<lambda>c.
     rbind (rassert (lhead (slabs_free c) = None)) (\<lambda>_.
     case size_to_cache (Some (caches c)) (cache_count c) 50 of
       None \<Rightarrow> Inl Assert_failed
     | Some cc \<Rightarrow>
         rbind (rassert (lhead (slabs_partial (caches c ! cc)) = None)) (\<lambda>_.
         rbind (scfree (case p of None \<Rightarrow> 0 | Some a \<Rightarrow> a) s) (\<lambda>s.
         rbind (gets 50 s) (\<lambda>(_, s).
         rbind (gets_null 50 s) (\<lambda>s.
         rbind (deinit_cache_manager s) (\<lambda>s.
         rbind (rassert (sl_mem_used (slab_stats s) = 0)) (\<lambda>_.
         rbind (rassert (sl_mem_mallocd (slab_stats s) = 0)) (\<lambda>_.
         rbind (rassert (sl_mem_limit (slab_stats s) = 0)) (\<lambda>_.
         rbind (rassert (cm s = None)) (\<lambda>_.
         Inr (cache_cnt, s))))))))))))))))))"

text \<open>\<open>scmalloc(cm->caches[i].chunk_size)\<close>.\<close>

definition chunk_of :: "nat \<Rightarrow> slab_state \<Rightarrow> nat res" where
  "chunk_of i s = rbind (the_cm s) (\<lambda>c. Inr (chunk_size (caches c ! i)))"

definition test_two_slabs :: "malloc_fun \<Rightarrow> slab_state \<Rightarrow> slab_state res" where
  "test_two_slabs mf s =
     rbind (init_manager mf 3 s) (\<lambda>s.
     rbind (chunk_of 0 s) (\<lambda>n. rbind (gets n s) (\<lambda>(_, s).
     rbind (chunk_of 1 s) (\<lambda>n. rbind (gets n s) (\<lambda>(_, s).
     rbind (chunk_of 2 s) (\<lambda>n. rbind (gets_null n s) (\<lambda>s.
     deinit_cache_manager s)))))))"

fun each_class :: "nat list \<Rightarrow> slab_state \<Rightarrow> slab_state res" where
  "each_class [] s = Inr s"
| "each_class (i # is) s = rbind (chunk_of i s) (\<lambda>n. rbind (gets n s) (\<lambda>(_, s). each_class is s))"

fun get_times :: "nat \<Rightarrow> nat \<Rightarrow> slab_state \<Rightarrow> slab_state res" where
  "get_times 0 n s = Inr s"
| "get_times (Suc m) n s = rbind (gets n s) (\<lambda>(_, s). get_times m n s)"

text \<open>Filling the slab of class \<open>k\<close> that has one chunk in use with requests of \<open>n\<close> bytes.\<close>

definition fill_slab :: "nat \<Rightarrow> nat \<Rightarrow> slab_state \<Rightarrow> slab_state res" where
  "fill_slab k n s =
     rbind (chunk_of k s) (\<lambda>m.
     if m = 0 then Inl Division_by_zero
     else rbind (get_times (SLAB_SIZE div m - 1) n s) (gets_null n))"

definition test_each_cache :: "malloc_fun \<Rightarrow> nat \<Rightarrow> slab_state \<Rightarrow> slab_state res" where
  "test_each_cache mf cache_cnt s =
     rbind (init_manager mf (cache_cnt + 1) s) (\<lambda>s.
     rbind (the_cm s) (\<lambda>c.
     rbind (each_class [0..<cache_count c] s) (\<lambda>s.
     rbind (chunk_of (cache_cnt - 1) s) (\<lambda>n.
     rbind (fill_slab (cache_cnt - 1) n s) (\<lambda>s.
     rbind (chunk_of 37 s) (\<lambda>n.
     rbind (fill_slab 37 n s) (\<lambda>s.
     fill_slab 0 1 s)))))))"

definition test_slab_allocator :: "malloc_fun \<Rightarrow> slab_state \<Rightarrow> slab_state res" where
  "test_slab_allocator mf s =
     rbind (test_one_cache mf s) (\<lambda>(cache_cnt, s).
     rbind (test_two_slabs mf s) (\<lambda>s.
     test_each_cache mf cache_cnt s))"

subsection \<open>Runs on the abstract allocator\<close>

text \<open>A state of a client that holds the addresses \<open>L\<close>, with what is left to give out.\<close>

definition holds_budget :: "malloc_fun \<Rightarrow> nat \<Rightarrow> budget \<Rightarrow> nat set \<Rightarrow> slab_state \<Rightarrow> bool" where
  "holds_budget mf limit b L s \<longleftrightarrow> malloc_ok mf \<and> 0 < limit \<and> limit \<le> 4096 \<and> slab_client mf limit [] s L \<and>
     (\<exists>c. cm s = Some c \<and> budget c = b)"

abbreviation std :: "cache_t list" where
  "std \<equiv> init_caches SLAB_SIZE_FACTOR"

definition std_cap :: "nat \<Rightarrow> nat" where
  "std_cap k = chunk_count_perslab (std ! k)"

definition std_class :: "nat \<Rightarrow> nat \<Rightarrow> bool" where
  "std_class n k \<longleftrightarrow> k < 47 \<and> n \<le> chunk_size (std ! k) \<and> (\<forall>j < k. chunk_size (std ! j) < n)"

lemma length_std: "length std = 47"
  by (simp add: init_caches_125 sizes_125_def)

lemma holds_cm:
  assumes "holds_budget mf limit b L s"
  obtains c where "cm s = Some c" and "slab_ok s" and "budget c = b" and "same_classes std (caches c)"
    and "L = live_addrs c" and "area_ok (slabctl_count_for (limit * 1024 * 1024) 1952) [] s"
proof -
  have cl: "malloc_ok mf" "0 < limit" "limit \<le> 4096" "slab_client mf limit [] s L" using assms by (simp_all add: holds_budget_def)
  obtain c where c: "cm s = Some c" "budget c = b" using assms by (auto simp: holds_budget_def)
  have "slab_ok s \<and> area_ok (slabctl_count_for (limit * 1024 * 1024) 1952) [] s \<and> L = live_addrs (the (cm s))"
    using slab_client_inv [OF cl(4,1-3)] by simp
  then show thesis using that [OF c(1) _ c(2)] c(1) by (auto simp: area_ok_def)
qed

lemma std_cap_eq: "same_classes std (caches c) \<Longrightarrow> k < 47 \<Longrightarrow> caps c k = std_cap k"
  by (simp add: same_classes_def length_std caps_def std_cap_def)

lemma std_serves: "same_classes std (caches c) \<Longrightarrow> std_class n k \<Longrightarrow> serves_size c n k"
  by (auto simp: same_classes_def length_std std_class_def serves_size_def)

lemma spec_take_cap: "cap k = cap' k \<Longrightarrow> spec_take cap k = spec_take cap' k"
  by (simp add: spec_take_def fun_eq_iff)

text \<open>All chunks in use are of one class.\<close>

definition only_class :: "nat \<Rightarrow> slab_state \<Rightarrow> bool" where
  "only_class k s \<longleftrightarrow> (\<forall>c x. cm s = Some c \<longrightarrow> x \<in> chunks c \<longrightarrow> class_of c x = k)"

lemma only_class_none: "holds_budget mf limit b {} s \<Longrightarrow> only_class k s"
  by (rule holds_cm) (auto simp: only_class_def live_addrs_def)

lemma take_budget:
  assumes h: "holds_budget mf limit b L s" and k: "std_class n k" and t: "spec_take std_cap k b = Some b'"
  obtains a s' where "scmalloc n s = Inr (Some a, s')" and "holds_budget mf limit b' (insert a L) s'"
    and "only_class k s \<Longrightarrow> only_class k s'"
proof -
  obtain c where c: "cm s = Some c" "slab_ok s" "budget c = b" "same_classes std (caches c)" using holds_cm [OF h] .
  have "k < 47" using k by (simp add: std_class_def)
  then have "spec_take (caps c) k (budget c) = Some b'" using t c(3) std_cap_eq [OF c(4)] spec_take_cap by metis
  then obtain x s' c' where s': "scmalloc n s = Inr (Some (chunk_addr c' x), s')" "cm s' = Some c'" "budget c' = b'"
    "alloc_step c x c'" "class_of c' x = k" "\<forall>y \<in> chunks c. class_of c' y = class_of c y"
    using scmalloc_takes [OF c(2,1) std_serves [OF c(4) k]] by auto
  have "slab_client mf limit [] s L" using h by (simp add: holds_budget_def)
  from slab_client.alloc [OF this s'(1)] have "holds_budget mf limit b' (insert (chunk_addr c' x) L) s'"
    using h s'(2,3) by (simp add: holds_budget_def)
  moreover have "only_class k s \<Longrightarrow> only_class k s'"
    using s'(2,4-6) c(1) by (simp add: only_class_def alloc_step_def)
  ultimately show thesis using that [OF s'(1)] by blast
qed

lemma take_none:
  assumes h: "holds_budget mf limit b L s" and k: "std_class n k" and t: "spec_take std_cap k b = None"
  shows "scmalloc n s = Inr (None, s)"
proof -
  obtain c where c: "cm s = Some c" "slab_ok s" "budget c = b" "same_classes std (caches c)" using holds_cm [OF h] .
  have "k < 47" using k by (simp add: std_class_def)
  then have "spec_take (caps c) k (budget c) = None" using t c(3) std_cap_eq [OF c(4)] spec_take_cap by metis
  then show ?thesis using scmalloc_takes [OF c(2,1) std_serves [OF c(4) k]] by simp
qed

lemma init_step:
  assumes mf: "malloc_ok mf" and lim: "0 < limit" "limit \<le> 4096"
    and i: "init_cache_manager mf limit SLAB_SIZE_FACTOR (slab_start []) = Inr (True, s)"
  shows "holds_budget mf limit (slabctl_count_for (limit * 1024 * 1024) 1952, \<lambda>k. 0) {} s"
    and "\<exists>c. cm s = Some c \<and> cache_count c = 47"
proof -
  obtain s' where "init_cache_manager mf limit SLAB_SIZE_FACTOR (slab_start []) = Inr (True, s')"
    "init_done limit (slabctl_count_for (limit * 1024 * 1024) 1952) [] s'"
    using init_cases [OF mf lim, of "[]"] i by auto
  then obtain c where c: "cm s = Some c" "fresh_cm c (slabctl_count_for (limit * 1024 * 1024) 1952)"
    using i by (auto simp: init_done_def)
  then show "holds_budget mf limit (slabctl_count_for (limit * 1024 * 1024) 1952, \<lambda>k. 0) {} s"
    using slab_client.start [OF i] mf lim fresh_budget [of c] by (simp add: holds_budget_def fresh_cm_def)
  show "\<exists>c. cm s = Some c \<and> cache_count c = 47" using c by (simp add: fresh_cm_def)
qed

lemma deinit_step:
  assumes "holds_budget mf limit b L s"
  shows "deinit_cache_manager s = Inr (slab_start [])"
proof -
  have l: "0 < limit" "limit \<le> 4096" using assms by (simp_all add: holds_budget_def)
  show ?thesis by (rule holds_cm [OF assms]) (use deinit_area slabctl_count_bound(2) [OF l] in blast)
qed

lemma put_budget:
  assumes h: "holds_budget mf limit b L s" and a: "a \<in> L" and k: "only_class k s" "k < 47"
  obtains s' alone where "scfree a s = Inr s'" and "holds_budget mf limit (spec_put std_cap k alone b) (L - {a}) s'"
    and "L = {a} \<Longrightarrow> alone" and "snd b k = 0 \<Longrightarrow> 1 < std_cap k \<Longrightarrow> \<not> alone"
proof -
  obtain c where c: "cm s = Some c" "slab_ok s" "budget c = b" "same_classes std (caches c)" "L = live_addrs c"
    using holds_cm [OF h] .
  obtain own loc where ok: "cm_ok c own loc" using c(2,1) by (rule slab_okE)
  obtain i d where x: "(i, d) \<in> chunks c" "a = chunk_addr c (i, d)" using a c(5) by (auto simp: live_addrs_def)
  have cl: "class_of c (i, d) = k" using k(1) c(1) x(1) by (simp add: only_class_def)
  obtain s' c' where s': "scfree a s = Inr s'" "cm s' = Some c'"
    "budget c' = spec_put (caps c) k (only_chunk c (i, d)) (budget c)"
    using scfree_budget [OF c(2,1) x(1)] x(2) cl by auto
  have cp: "caps c k = std_cap k" using std_cap_eq [OF c(4) k(2)] .
  have "slab_client mf limit [] s L" using h by (simp add: holds_budget_def)
  from slab_client.release [OF this a s'(1)]
  have hb: "holds_budget mf limit (spec_put std_cap k (only_chunk c (i, d)) b) (L - {a}) s'"
    using h s'(2,3) c(3) cp by (cases b) (simp add: holds_budget_def spec_put_def)
  have one: "only_chunk c (i, d)" if "L = {a}"
  proof -
    have "y = (i, d)" if "y \<in> chunks c" for y
      using chunk_addr_inj [OF ok that x(1)] that \<open>L = {a}\<close> c(5) x(2) by (auto simp: live_addrs_def)
    then show ?thesis by (simp add: only_chunk_def)
  qed
  have many: "\<not> only_chunk c (i, d)" if z: "snd b k = 0" "1 < std_cap k"
  proof -
    have i: "i < length (slab_ctls c)" using x(1) by (simp add: chunks_def)
    note n = only_chunk_uses [OF ok x(1)]
    have "ctl_cache (slab_ctls c ! i) \<noteq> None" using chunk_bounds(3) [OF ok x(1)] by (auto simp: csize_def split: option.splits)
    then have "uses (slab_ctls c) ! i = (nused (slab_ctls c ! i), Some k)" using cl uses_nth [OF i] by (auto simp: class_of_def)
    then have "(nused (slab_ctls c ! i), Some k) \<in> set (uses (slab_ctls c))" using i nth_mem [of i "uses (slab_ctls c)"] by simp
    moreover have "begun_room (caps c) (uses (slab_ctls c)) k = 0" using z(1) c(3) by (auto simp: budget_def)
    ultimately have "std_cap k \<le> nused (slab_ctls c ! i)" using n(2) cp unfolding begun_room_zero by auto
    then show ?thesis using n(1) z(2) by simp
  qed
  show thesis by (rule that [OF s'(1) hb one many])
qed

text \<open>The loop takes all that is left for the class, and ends.\<close>

lemma use_up_ok:
  assumes "std_class n k" and "0 < std_cap k"
  shows "holds_budget mf limit (f, r) L s \<Longrightarrow> only_class k s \<Longrightarrow>
    \<exists>s' L'. use_up n s = Some (Inr s') \<and> holds_budget mf limit (0, r(k := 0)) L' s' \<and> L \<subseteq> L' \<and> only_class k s'"
proof (induction "r k + f * std_cap k" arbitrary: f r L s rule: less_induct)
  case less
  show ?case
  proof (cases "spec_take std_cap k (f, r)")
    case None
    then have "f = 0" "r k = 0" by (auto simp: spec_take_def split: if_splits)
    then have "r(k := 0) = r" by auto
    then show ?thesis using take_none [OF less.prems(1) assms(1) None] less.prems \<open>f = 0\<close>
      by (subst use_up.simps) auto
  next
    case (Some b)
    obtain f' r' where b: "b = (f', r')" by fastforce
    obtain a s1 where s1: "scmalloc n s = Inr (Some a, s1)" "holds_budget mf limit (f', r') (insert a L) s1" "only_class k s1"
      by (rule take_budget [OF less.prems(1) assms(1) Some]) (use less.prems(2) b in blast)
    have "r' k + f' * std_cap k < r k + f * std_cap k" "r'(k := 0) = r(k := 0)"
      using Some b assms(2) by (auto simp: spec_take_def split: if_splits) (cases f; simp)
    from less.hyps [OF this(1) s1(2,3)] this(2) show ?thesis using s1(1) by (subst use_up.simps) auto
  qed
qed

lemma no_free_slab:
  assumes "cm_ok c own loc" and "fst (budget c) = 0"
  shows "lhead (slabs_free c) = None"
proof -
  have l: "lists_ok c own loc" using assms(1) by (simp add: cm_ok_def)
  have "nused (slab_ctls c ! i) \<noteq> 0" if "i < length (slab_ctls c)" for i
    using assms(2) that nth_mem [of i "uses (slab_ctls c)"] uses_nth [OF that]
    by (auto simp: budget_def free_slabs_zero)
  moreover have "nused (slab_ctls c ! i) = 0" if "i < length (slab_ctls c)" "loc i = Free" for i
    using cm_ok_ctl [OF assms(1) that(1)] that(2) by (simp add: slots_ok_0)
  ultimately have "loc i \<noteq> Free" if "i < length (slab_ctls c)" for i using that by blast
  then have "set (own Free) = {}" using lists_okD(2) [OF l, of Free] by auto
  then show ?thesis using lists_okD(1) [OF l, of Free] by (simp add: dll_def)
qed

lemma no_begun_slab:
  assumes "cm_ok c own loc" and "snd (budget c) k = 0" and k: "k < length (caches c)"
  shows "lhead (slabs_partial (caches c ! k)) = None"
proof -
  have l: "lists_ok c own loc" using assms(1) by (simp add: cm_ok_def)
  have "loc i \<noteq> Partial k" if i: "i < length (slab_ctls c)" for i
  proof
    assume "loc i = Partial k"
    then have p: "ctl_cache (slab_ctls c ! i) = Some k" "0 < nused (slab_ctls c ! i)" "nused (slab_ctls c ! i) < caps c k"
      using cm_ok_ctl [OF assms(1) i] by (simp_all add: caps_def)
    have "(nused (slab_ctls c ! i), Some k) \<in> set (uses (slab_ctls c))"
      using nth_mem [of i "uses (slab_ctls c)"] uses_nth [OF i] i p(1) by simp
    then have "caps c k \<le> nused (slab_ctls c ! i)" using assms(2) p(2) by (auto simp: budget_def begun_room_zero)
    then show False using p(3) by simp
  qed
  then have "set (own (Partial k)) = {}" using lists_okD(2) [OF l, of "Partial k"] k by auto
  then show ?thesis using lists_okD(1) [OF l, of "Partial k"] k by (simp add: dll_def)
qed

subsection \<open>The test passes\<close>

lemma std_sizes:
  "chunk_size (std ! 0) = 24" "chunk_size (std ! 1) = 32" "chunk_size (std ! 2) = 40" "chunk_size (std ! 3) = 56"
  by (simp_all add: init_caches_125 sizes_125_def cache_of_size_def)

lemma std_class_1: "std_class 1 0"
  by (simp add: std_class_def std_sizes)

lemma std_class_50: "std_class 50 3"
proof -
  have "chunk_size (std ! j) < 50" if "j < 3" for j
  proof -
    have "j = 0 \<or> j = 1 \<or> j = 2" using that by linarith
    then show ?thesis using std_sizes by auto
  qed
  then show ?thesis by (simp add: std_class_def std_sizes)
qed

lemma std_classes_ok: "classes_ok std"
  by (rule classes_ok_125)

lemma std_class_own: "k < 47 \<Longrightarrow> std_class (chunk_size (std ! k)) k"
  using classes_strict [OF std_classes_ok] by (simp add: std_class_def length_std)

lemma std_cap_div: "k < 47 \<Longrightarrow> std_cap k = SLAB_SIZE div chunk_size (std ! k) \<and> 0 < std_cap k \<and> 0 < chunk_size (std ! k)"
  using classes_ok_nth [OF std_classes_ok, of k] class_count_pos [of "std ! k"] by (simp add: std_cap_def length_std class_ok_def)

lemma std_cap_3: "1 < std_cap 3"
  using std_cap_div [of 3] by (simp add: std_sizes SLAB_SIZE_def)

lemma chunk_of_ok:
  assumes "holds_budget mf limit b L s" and "k < 47"
  shows "chunk_of k s = Inr (chunk_size (std ! k))"
  by (rule holds_cm [OF assms(1)]) (use assms(2) in \<open>simp add: chunk_of_def the_cm_def same_classes_def length_std\<close>)

lemma gets_ok:
  assumes "holds_budget mf limit b L s" and "std_class n k" and "spec_take std_cap k b = Some b'"
  shows "\<exists>a s' L'. gets n s = Inr (a, s') \<and> holds_budget mf limit b' L' s'"
  by (rule take_budget [OF assms]) (auto simp: gets_def)

lemma gets_null_ok:
  assumes "holds_budget mf limit b L s" and "std_class n k" and "spec_take std_cap k b = None"
  shows "gets_null n s = Inr s"
  using take_none [OF assms] by (simp add: gets_null_def rassert_def)

lemma get_times_ok:
  assumes n: "std_class n k"
  shows "holds_budget mf limit (0, r) L s \<Longrightarrow> r k = m \<Longrightarrow>
    \<exists>s' L'. get_times m n s = Inr s' \<and> holds_budget mf limit (0, r(k := 0)) L' s'"
proof (induction m arbitrary: r L s)
  case (Suc m)
  have "spec_take std_cap k (0, r) = Some (0, r(k := m))" using Suc.prems(2) by (simp add: spec_take_def)
  from gets_ok [OF Suc.prems(1) n this] obtain a s1 L1 where s1: "gets n s = Inr (a, s1)"
    "holds_budget mf limit (0, r(k := m)) L1 s1" by blast
  have "(r(k := m))(k := 0) = r(k := 0)" by (rule fun_upd_upd)
  from Suc.IH [OF s1(2) fun_upd_same, unfolded this] s1(1) show ?case by auto
next
  case 0
  then have "r(k := 0) = r" by auto
  then show ?case using 0 by auto
qed

lemma fill_slab_ok:
  assumes h: "holds_budget mf limit (0, r) L s" and n: "std_class n k" and r: "r k = std_cap k - 1"
  shows "\<exists>s' L'. fill_slab k n s = Inr s' \<and> holds_budget mf limit (0, r(k := 0)) L' s'"
proof -
  have k: "k < 47" using n by (simp add: std_class_def)
  note d = std_cap_div [OF k]
  obtain s' L' where s': "get_times (std_cap k - 1) n s = Inr s'" "holds_budget mf limit (0, r(k := 0)) L' s'"
    using get_times_ok [OF n h r] by blast
  have "gets_null n s' = Inr s'" by (rule gets_null_ok [OF s'(2) n]) (simp add: spec_take_def)
  then have "fill_slab k n s = Inr s'" using s'(1) d by (simp add: fill_slab_def chunk_of_ok [OF h k])
  then show ?thesis using s'(2) by blast
qed

lemma each_class_ok:
  assumes "m \<le> 47"
  shows "holds_budget mf limit (m, \<lambda>k. if k < 47 - m then std_cap k - 1 else 0) L s \<Longrightarrow>
    \<exists>s' L'. each_class [47 - m..<47] s = Inr s' \<and> holds_budget mf limit (0, \<lambda>k. if k < 47 then std_cap k - 1 else 0) L' s'"
  using assms
proof (induction m arbitrary: L s)
  case (Suc m)
  let ?k = "47 - Suc m"
  have k: "?k < 47" "Suc ?k = 47 - m" using Suc.prems(2) by simp_all
  have t: "spec_take std_cap ?k (Suc m, \<lambda>k. if k < 47 - Suc m then std_cap k - 1 else 0) =
      Some (m, \<lambda>k. if k < 47 - m then std_cap k - 1 else 0)"
    using k by (auto simp: spec_take_def fun_eq_iff)
  from gets_ok [OF Suc.prems(1) std_class_own [OF k(1)] t] obtain a s1 L1 where
    s1: "gets (chunk_size (std ! ?k)) s = Inr (a, s1)"
      "holds_budget mf limit (m, \<lambda>k. if k < 47 - m then std_cap k - 1 else 0) L1 s1" by blast
  have "[?k..<47] = ?k # [47 - m..<47]" using k by (simp add: upt_conv_Cons)
  then show ?case using Suc.IH [OF s1(2)] Suc.prems(2) s1(1) chunk_of_ok [OF Suc.prems(1) k(1)] by simp
qed auto

text \<open>The first part: \<open>n\<close> slabs for one cache.\<close>

lemma manager_ok:
  assumes "malloc_ok mf" and "0 < limit" and "limit \<le> 4096"
    and "init_cache_manager mf limit SLAB_SIZE_FACTOR (slab_start []) = Inr (True, s)"
  shows "init_manager mf limit (slab_start []) = Inr s" and "\<exists>c. the_cm s = Inr c \<and> cache_count c = 47"
  using init_step(2) [OF assms] assms(4) by (auto simp: init_manager_def rassert_def the_cm_def)

lemma class_50_found:
  assumes "holds_budget mf limit b L s" and "cm s = Some c"
  shows "size_to_cache (Some (caches c)) (cache_count c) 50 = Some 3 \<and> 3 < length (caches c)"
proof -
  have c: "slab_ok s" "same_classes std (caches c)" using holds_cm [OF assms(1)] assms(2) by auto
  obtain own loc where ok: "cm_ok c own loc" using c(1) assms(2) by (rule slab_okE)
  have f: "frame_ok c" using ok by (simp add: cm_ok_def)
  have k: "serves_size c 50 3" by (rule std_serves [OF c(2) std_class_50])
  obtain m where "serves_size c 50 m" "size_to_cache (Some (caches c)) (cache_count c) (u32 50) = Some m"
    by (rule scmalloc_class [OF assms(2) ok serves_size_last [OF f k]]) (auto simp: serves_size_def)
  then show ?thesis using serves_size_unique [OF _ k] k by (auto simp: serves_size_def)
qed

lemma test_one_cache_passes:
  assumes mf: "malloc_ok mf" and i: "init_cache_manager mf 200 SLAB_SIZE_FACTOR (slab_start []) = Inr (True, s)"
  shows "test_one_cache mf (slab_start []) = Inr (47, slab_start [])"
proof -
  have lim: "0 < (200::nat)" "(200::nat) \<le> 4096" by simp_all
  obtain n where n: "slabctl_count_for (200 * 1024 * 1024) 1952 = Suc n"
    using init_cases [OF mf lim, of "[]"] i by (cases "slabctl_count_for (200 * 1024 * 1024) 1952") auto
  have h0: "holds_budget mf 200 (Suc n, \<lambda>k. 0) {} s" using init_step(1) [OF mf lim i] by (simp only: n)
  have t: "spec_take std_cap 3 (Suc n, \<lambda>k. 0) = Some (n, (\<lambda>k. 0)(3 := std_cap 3 - 1))" by (simp add: spec_take_def)
  obtain p1 s1 where s1: "scmalloc 50 s = Inr (Some p1, s1)" "holds_budget mf 200 (n, (\<lambda>k. 0)(3 := std_cap 3 - 1)) {p1} s1"
    "only_class 3 s1"
    by (rule take_budget [OF h0 std_class_50 t]) (use only_class_none [OF h0] in blast)
  obtain s2 alone where s2: "scfree p1 s1 = Inr s2"
    "holds_budget mf 200 (spec_put std_cap 3 alone (n, (\<lambda>k. 0)(3 := std_cap 3 - 1))) ({p1} - {p1}) s2" alone
    by (rule put_budget [OF s1(2) _ s1(3)]) auto
  have "spec_put std_cap 3 True (n, (\<lambda>k. 0)(3 := std_cap 3 - 1)) = (Suc n, \<lambda>k. 0)" by (auto simp: spec_put_def)
  then have h2: "holds_budget mf 200 (Suc n, \<lambda>k. 0) {} s2" using s2(2,3) by simp
  obtain p s3 where s3: "scmalloc 50 s2 = Inr (Some p, s3)" "holds_budget mf 200 (n, (\<lambda>k. 0)(3 := std_cap 3 - 1)) {p} s3"
    "only_class 3 s3"
    by (rule take_budget [OF h2 std_class_50 t]) (use only_class_none [OF h2] in blast)
  have "0 < std_cap 3" using std_cap_3 by simp
  from use_up_ok [OF std_class_50 this s3(2,3)] obtain s4 L4 where
    s4: "use_up 50 s3 = Some (Inr s4)" "holds_budget mf 200 (0, (\<lambda>k. 0)(3 := 0)) L4 s4" "{p} \<subseteq> L4" "only_class 3 s4"
    by auto
  have h4: "holds_budget mf 200 (0, \<lambda>k. 0) L4 s4" using s4(2) by (simp add: fun_upd_idem)
  obtain c where c: "cm s4 = Some c" "slab_ok s4" "budget c = (0, \<lambda>k. 0)" using holds_cm [OF h4] .
  obtain own loc where ok: "cm_ok c own loc" using c(2,1) by (rule slab_okE)
  note found = class_50_found [OF h4 c(1)]
  have empty: "lhead (slabs_free c) = None" "lhead (slabs_partial (caches c ! 3)) = None"
    using no_free_slab [OF ok] no_begun_slab [OF ok] c(3) found by simp_all
  have "p \<in> L4" using s4(3) by simp
  then obtain s5 alone where s5: "scfree p s4 = Inr s5"
    "holds_budget mf 200 (spec_put std_cap 3 alone (0, \<lambda>k. 0)) (L4 - {p}) s5"
    and "snd (0::nat, \<lambda>k. 0) (3::nat) = (0::nat) \<Longrightarrow> 1 < std_cap 3 \<Longrightarrow> \<not> alone"
    by (rule put_budget [OF h4 _ s4(4)]) simp_all
  then have "\<not> alone" using std_cap_3 by simp
  have h5: "holds_budget mf 200 (0, (\<lambda>k. 0)(3 := 1)) (L4 - {p}) s5" using s5(2) \<open>\<not> alone\<close> by (simp add: spec_put_def)
  have t5: "spec_take std_cap 3 (0, (\<lambda>k. 0)(3 := 1)) = Some (0, (\<lambda>k. 0)(3 := 0))" by (simp add: spec_take_def)
  obtain a s6 L6 where s6: "gets 50 s5 = Inr (a, s6)" "holds_budget mf 200 (0, (\<lambda>k. 0)(3 := 0)) L6 s6"
    using gets_ok [OF h5 std_class_50 t5] by blast
  have g6: "gets_null 50 s6 = Inr s6" by (rule gets_null_ok [OF s6(2) std_class_50]) (simp add: spec_take_def)
  have d: "deinit_cache_manager s6 = Inr (slab_start [])" by (rule deinit_step [OF s6(2)])
  obtain c0 where c0: "the_cm s = Inr c0" "cache_count c0 = 47" using manager_ok(2) [OF mf lim i] by blast
  show ?thesis
    using manager_ok(1) [OF mf lim i] c0 s1(1) s2(1) s3(1) s4(1) c(1) found empty s5(1) s6(1) g6 d
    by (simp add: test_one_cache_def the_cm_def rassert_def Let_def slab_start_def)
qed

text \<open>The second part: two slabs, three classes.\<close>

lemma test_two_slabs_passes:
  assumes mf: "malloc_ok mf" and i: "init_cache_manager mf 3 SLAB_SIZE_FACTOR (slab_start []) = Inr (True, s)"
  shows "test_two_slabs mf (slab_start []) = Inr (slab_start [])"
proof -
  have lim: "0 < (3::nat)" "(3::nat) \<le> 4096" by simp_all
  have n: "slabctl_count_for (3 * 1024 * 1024) 1952 = 2"
    by (simp add: slabctl_count_for_def sub64_id SLAB_SIZE_def sizeof_slab_ctl_eq)
  have h: "holds_budget mf 3 (2, \<lambda>k. 0) {} s" using init_step(1) [OF mf lim i] by (simp only: n)
  let ?r = "(\<lambda>k. 0)(0 := std_cap 0 - 1)"
  have t: "spec_take std_cap 0 (2, \<lambda>k. 0) = Some (1, ?r)" "spec_take std_cap 1 (1, ?r) = Some (0, ?r(1 := std_cap 1 - 1))"
    "spec_take std_cap 2 (0, ?r(1 := std_cap 1 - 1)) = None"
    by (simp_all add: spec_take_def)
  have k: "(0::nat) < 47" "(1::nat) < 47" "(2::nat) < 47" by simp_all
  obtain a1 s1 L1 where s1: "gets (chunk_size (std ! 0)) s = Inr (a1, s1)" "holds_budget mf 3 (1, ?r) L1 s1"
    using gets_ok [OF h std_class_own [OF k(1)] t(1)] by blast
  obtain a2 s2 L2 where s2: "gets (chunk_size (std ! 1)) s1 = Inr (a2, s2)" "holds_budget mf 3 (0, ?r(1 := std_cap 1 - 1)) L2 s2"
    using gets_ok [OF s1(2) std_class_own [OF k(2)] t(2)] by blast
  have g: "gets_null (chunk_size (std ! 2)) s2 = Inr s2" by (rule gets_null_ok [OF s2(2) std_class_own [OF k(3)] t(3)])
  show ?thesis
    unfolding test_two_slabs_def
    using manager_ok(1) [OF mf lim i] chunk_of_ok [OF h k(1)] chunk_of_ok [OF s1(2) k(2)] chunk_of_ok [OF s2(2) k(3)]
      s1(1) s2(1) g deinit_step [OF s2(2)] by simp
qed

text \<open>The third part: one slab for each cache, and three of them filled.\<close>

lemma test_each_cache_passes:
  assumes mf: "malloc_ok mf" and i: "init_cache_manager mf 48 SLAB_SIZE_FACTOR (slab_start []) = Inr (True, s)"
  shows "\<exists>s'. test_each_cache mf 47 (slab_start []) = Inr s'"
proof -
  have lim: "0 < (48::nat)" "(48::nat) \<le> 4096" by simp_all
  have n: "slabctl_count_for (48 * 1024 * 1024) 1952 = 47"
    by (simp add: slabctl_count_for_def sub64_id SLAB_SIZE_def sizeof_slab_ctl_eq)
  have h: "holds_budget mf 48 (47, \<lambda>k. 0) {} s" using init_step(1) [OF mf lim i] by (simp only: n)
  let ?r = "\<lambda>k. if k < 47 then std_cap k - 1 else 0"
  have "(47, \<lambda>k. if k < 47 - 47 then std_cap k - 1 else 0) = (47, \<lambda>k. 0)" by simp
  then obtain s1 L1 where s1: "each_class [0..<47] s = Inr s1" "holds_budget mf 48 (0, ?r) L1 s1"
    using each_class_ok [of 47 mf 48 "{}" s] h by auto
  have k: "(46::nat) < 47" "(37::nat) < 47" by simp_all
  obtain s2 L2 where s2: "fill_slab 46 (chunk_size (std ! 46)) s1 = Inr s2" "holds_budget mf 48 (0, ?r(46 := 0)) L2 s2"
    using fill_slab_ok [OF s1(2) std_class_own [OF k(1)]] by fastforce
  have r2: "(?r(46 := 0)) 37 = std_cap 37 - 1" by simp
  obtain s3 L3 where s3: "fill_slab 37 (chunk_size (std ! 37)) s2 = Inr s3" "holds_budget mf 48 (0, ?r(46 := 0, 37 := 0)) L3 s3"
    using fill_slab_ok [OF s2(2) std_class_own [OF k(2)] r2] by blast
  have r3: "(?r(46 := 0, 37 := 0)) 0 = std_cap 0 - 1" by simp
  obtain s4 where s4: "fill_slab 0 1 s3 = Inr s4" using fill_slab_ok [OF s3(2) std_class_1 r3] by blast
  obtain c0 where c0: "the_cm s = Inr c0" "cache_count c0 = 47" using manager_ok(2) [OF mf lim i] by blast
  have m: "init_manager mf (47 + 1) (slab_start []) = Inr s" using manager_ok(1) [OF mf lim i] by simp
  have q: "47 - 1 = (46::nat)" by simp
  have "test_each_cache mf 47 (slab_start []) = Inr s4"
    unfolding test_each_cache_def m q rbind_Inr c0 s1(1) chunk_of_ok [OF s1(2) k(1)] s2(1) chunk_of_ok [OF s2(2) k(2)] s3(1) s4
    by (rule refl)
  then show ?thesis by blast
qed

text \<open>As long as \<open>init_cache_manager\<close> gets its memory the test passes.\<close>

lemma test_slab_allocator_passes:
  assumes "malloc_ok mf" and "init_cache_manager mf 200 SLAB_SIZE_FACTOR (slab_start []) = Inr (True, s1)"
    and "init_cache_manager mf 3 SLAB_SIZE_FACTOR (slab_start []) = Inr (True, s2)"
    and "init_cache_manager mf 48 SLAB_SIZE_FACTOR (slab_start []) = Inr (True, s3)"
  shows "\<exists>s. test_slab_allocator mf (slab_start []) = Inr s"
  using test_one_cache_passes [OF assms(1,2)] test_two_slabs_passes [OF assms(1,3)] test_each_cache_passes [OF assms(1,4)]
  by (simp add: test_slab_allocator_def)

lemma bump_inits:
  "\<exists>s. init_cache_manager bump_malloc 200 SLAB_SIZE_FACTOR (slab_start []) = Inr (True, s)"
  "\<exists>s. init_cache_manager bump_malloc 3 SLAB_SIZE_FACTOR (slab_start []) = Inr (True, s)"
  "\<exists>s. init_cache_manager bump_malloc 48 SLAB_SIZE_FACTOR (slab_start []) = Inr (True, s)"
proof -
  have n: "slabctl_count_for 209715200 1952 = 198" "slabctl_count_for 3145728 1952 = 2" "slabctl_count_for 50331648 1952 = 47"
    by (simp_all add: slabctl_count_for_def sub64_id SLAB_SIZE_def sizeof_slab_ctl_eq)
  show "\<exists>s. init_cache_manager bump_malloc 200 SLAB_SIZE_FACTOR (slab_start []) = Inr (True, s)"
    "\<exists>s. init_cache_manager bump_malloc 3 SLAB_SIZE_FACTOR (slab_start []) = Inr (True, s)"
    "\<exists>s. init_cache_manager bump_malloc 48 SLAB_SIZE_FACTOR (slab_start []) = Inr (True, s)"
    using n by (simp_all add: init_cache_manager_def slab_start_def malloci_def bump_malloc_def Let_def
        sizeof_cache_manager_def sizeof_cache_def cache_count_125 sizeof_slab_ctl_eq SLAB_SIZE_def)
qed

lemma test_slab_allocator_bump: "\<exists>s. test_slab_allocator bump_malloc (slab_start []) = Inr s"
  using bump_inits test_slab_allocator_passes [OF bump_malloc_ok] by blast

end
