(* ===== verification/Self_Tests.thy ===== *)
theory Self_Tests
  imports Util
begin

text \<open>
  The self tests under \<open>LC_TEST\<close> at the end of \<open>src/slab.c\<close> and \<open>src/util.c\<close>, as programs over
  the operations they test, and that they pass. That the model passes the tests of the code is
  also a check of the model.
\<close>

subsection \<open>The bit set\<close>

text \<open>The calls of \<open>test_bit_set\<close>: \<open>memset\<close> to 0, the operations, and the asserts on them.\<close>

datatype bit_call = Clear_all | Set nat | Clear nat | Assert_bit nat nat | Assert_first int | Find_first

fun do_call :: "bit_call \<Rightarrow> bitset_t \<Rightarrow> bitset_t res" where
  "do_call Clear_all y = Inr (replicate WORD_COUNT 0)"
| "do_call (Set b) y = set_bit_s y b"
| "do_call (Clear b) y = clear_bit_s y b"
| "do_call (Assert_bit b v) y = rbind (get_bit_s y b) (\<lambda>x. rbind (rassert (x = v)) (\<lambda>_. Inr y))"
| "do_call (Assert_first v) y = rbind (rassert (ff_setbit y = v)) (\<lambda>_. Inr y)"
| "do_call Find_first y = Inr y"

fun do_calls :: "bit_call list \<Rightarrow> bitset_t \<Rightarrow> bitset_t res" where
  "do_calls [] y = Inr y"
| "do_calls (x # xs) y = rbind (do_call x y) (do_calls xs)"

definition bit_test :: "bit_call list" where
  "bit_test =
     [Clear_all,
      Assert_bit 69 0, Set 69, Assert_bit 69 1, Set 64, Assert_first 64,
      Clear_all, Assert_first (-1), Set 67, Assert_first 67, Assert_bit 67 1, Clear 67, Assert_bit 67 0,
      Clear_all, Set 57, Set 58, Assert_first 57, Set 56, Assert_first 56,
      Clear 57, Clear 58, Clear 56, Set 60, Assert_first 60, Clear 60, Assert_first (-1),
      Clear_all, Set 32, Set 63, Find_first, Clear 32, Clear 63, Set 35, Assert_first 35,
      Clear_all, Assert_first (-1), Set 96, Set 97, Set 104, Assert_first 96, Clear 96, Clear 97, Assert_first 104]"

definition test_bit_set :: "bitset_t \<Rightarrow> bitset_t res" where
  "test_bit_set y = rbind (rassert (69 < WORD_SIZE_IN_BITS * WORD_COUNT)) (\<lambda>_. do_calls bit_test y)"

text \<open>The same calls on a list of numbers.\<close>

fun list_call :: "bit_call \<Rightarrow> nat list \<Rightarrow> nat list option" where
  "list_call Clear_all bs = Some []"
| "list_call (Set b) bs = (if b < 128 then Some (b # bs) else None)"
| "list_call (Clear b) bs = (if b < 128 then Some (filter (\<lambda>x. x \<noteq> b) bs) else None)"
| "list_call (Assert_bit b v) bs = (if b < 128 \<and> v = (if b \<in> set bs then 1 else 0) then Some bs else None)"
| "list_call (Assert_first v) bs = (if v = (case bs of [] \<Rightarrow> -1 | x # xs \<Rightarrow> int (fold min xs x)) then Some bs else None)"
| "list_call Find_first bs = Some bs"

fun list_calls :: "bit_call list \<Rightarrow> nat list \<Rightarrow> nat list option" where
  "list_calls [] bs = Some bs"
| "list_calls (x # xs) bs = (case list_call x bs of None \<Rightarrow> None | Some bs \<Rightarrow> list_calls xs bs)"

lemma fold_min: "fold min xs (x :: nat) = Min (insert x (set xs))"
  by (simp add: Min.set_eq_fold [symmetric])

lemma bit_call_list:
  assumes ok: "bitset_ok y" and bs: "bits_of y = set bs" and l: "list_call x bs = Some bs'"
  shows "\<exists>y'. do_call x y = Inr y' \<and> bitset_ok y' \<and> bits_of y' = set bs'"
proof -
  have small: "b < BIT_COUNT" if "b < 128" for b using that by (simp add: WORD_COUNT_eq WORD_SIZE_IN_BITS_def)
  show ?thesis
  proof (cases x)
    case Clear_all
    have "bits_of (replicate WORD_COUNT 0) = {}" by (auto simp: bits_of_def)
    then show ?thesis using l by (simp add: Clear_all bitset_ok_def)
  next
    case (Set b)
    then show ?thesis using bts.set_law [OF ok small, of b] l bs by (auto split: if_splits)
  next
    case (Clear b)
    then show ?thesis using bts.clear_law [OF ok small, of b] l bs by (auto split: if_splits)
  next
    case (Assert_bit b v)
    then show ?thesis using bts.get_law [OF ok small, of b] l bs ok by (auto split: if_splits)
  next
    case (Assert_first v)
    then show ?thesis using bts.ff_law [OF ok] l bs ok by (auto simp: fold_min split: if_splits list.splits)
  next
    case Find_first
    then show ?thesis using l ok bs by simp
  qed
qed

lemma bit_calls_list:
  "list_calls xs bs = Some bs' \<Longrightarrow> bitset_ok y \<Longrightarrow> bits_of y = set bs \<Longrightarrow> \<exists>y'. do_calls xs y = Inr y'"
proof (induction xs arbitrary: bs y)
  case (Cons x xs)
  then obtain b1 where b1: "list_call x bs = Some b1" "list_calls xs b1 = Some bs'" by (auto split: option.splits)
  obtain y1 where "do_call x y = Inr y1" "bitset_ok y1" "bits_of y1 = set b1"
    using bit_call_list [OF Cons.prems(2,3) b1(1)] by blast
  then show ?case using Cons.IH [OF b1(2)] by simp
qed simp

text \<open>The first call clears what \<open>malloc\<close> left in the bit set.\<close>

lemma list_calls_test: "list_calls bit_test [] = Some [104]"
  by code_simp

lemma test_bit_set_passes: "\<exists>y'. test_bit_set y = Inr y'"
proof -
  let ?z = "replicate WORD_COUNT 0 :: bitset_t"
  have z: "bitset_ok ?z" "bits_of ?z = set []" by (auto simp: bitset_ok_def bits_of_def)
  have "do_calls bit_test y = do_calls bit_test ?z" by (simp add: bit_test_def)
  moreover have "69 < WORD_SIZE_IN_BITS * WORD_COUNT" by (simp add: WORD_COUNT_eq WORD_SIZE_IN_BITS_def)
  ultimately show ?thesis unfolding test_bit_set_def using bit_calls_list [OF list_calls_test z] by simp
qed

subsection \<open>The size classes\<close>

definition put_size :: "nat \<Rightarrow> nat \<Rightarrow> cache_t list \<Rightarrow> cache_t list" where
  "put_size i n cs = cs[i := (cs ! i)\<lparr>chunk_size := n\<rparr>]"

text \<open>\<open>assert(cc->chunk_size == v)\<close> for the result \<open>cc\<close> of \<open>size_to_cache(caches, n, key)\<close>.\<close>

definition finds_size :: "cache_t list \<Rightarrow> nat \<Rightarrow> nat \<Rightarrow> nat \<Rightarrow> unit res" where
  "finds_size cs n key v =
     (case size_to_cache (Some cs) n key of
        None \<Rightarrow> Inl Null_deref
      | Some k \<Rightarrow> rassert (chunk_size (cs ! k) = v))"

definition finds_none :: "cache_t list option \<Rightarrow> nat \<Rightarrow> nat \<Rightarrow> unit res" where
  "finds_none cs n key = rassert (size_to_cache cs n key = None)"

definition test_size_to_cache :: "cache_t list \<Rightarrow> unit res" where
  "test_size_to_cache arr =
     (let arr = put_size 1 4 (put_size 0 2 arr) in
      rbind (finds_size arr 2 1 2) (\<lambda>_.
      rbind (finds_none (Some arr) 2 5) (\<lambda>_.
      let arr = put_size 2 6 arr in
      rbind (finds_size arr 3 3 4) (\<lambda>_.
      rbind (finds_size arr 3 5 6) (\<lambda>_.
      rbind (finds_size arr 3 6 6) (\<lambda>_.
      rbind (finds_size arr 1 1 2) (\<lambda>_.
      rbind (finds_none (Some arr) 1 3) (\<lambda>_.
      rbind (finds_none (Some arr) 0 3) (\<lambda>_.
      rbind (finds_none None 1 3) (\<lambda>_.
      rbind (finds_none (Some arr) INT_MAX 3) (\<lambda>_.
      let arr = put_size 4 10 (put_size 3 8 arr) in
      rbind (finds_size arr 5 7 8) (\<lambda>_.
      rbind (finds_size arr 5 9 10) (\<lambda>_.
      rbind (finds_size arr 5 3 4) (\<lambda>_.
      rbind (finds_size arr 5 5 6) (\<lambda>_.
      let arr = put_size 8 18 (put_size 7 16 (put_size 6 14 (put_size 5 12 arr))) in
      finds_size arr 9 7 8)))))))))))))))"

lemma length_put_size [simp]: "length (put_size i n cs) = length cs"
  by (simp add: put_size_def)

lemma size_put [simp]: "i < length cs \<Longrightarrow> chunk_size (put_size i n cs ! j) = (if i = j then n else chunk_size (cs ! j))"
  by (simp add: put_size_def nth_list_update)

text \<open>Whatever the uninitialised array holds, the test passes.\<close>

lemma test_size_to_cache_passes:
  assumes "length arr = 9"
  shows "test_size_to_cache arr = Inr ()"
  using assms
  by (simp add: test_size_to_cache_def finds_size_def finds_none_def size_to_cache_def INT_MAX_def Let_def
      size_to_cache_loop.simps)

subsection \<open>The utilities\<close>

text \<open>
  \<open>test_endianness\<close> compares the byte order that \<open>config.h\<close> has found (\<open>conf\<close>, true for
  \<open>LC_LITTLE_ENDIAN\<close>) with that of the host (\<open>host\<close>): it passes exactly when they are the same.
\<close>

definition mem_bytes32 :: "bool \<Rightarrow> 32 word \<Rightarrow> byte list" where
  "mem_bytes32 le x = map (\<lambda>i. ucast (drop_bit (if le then 8 * i else 24 - 8 * i) x)) [0..<4]"

definition test_endianness :: "bool \<Rightarrow> bool \<Rightarrow> unit res" where
  "test_endianness conf host =
     (let c = mem_bytes32 host 0x01020304 in if conf then rassert (c ! 0 = 4) else rassert (c ! 0 = 1))"

lemma test_endianness_passes: "test_endianness conf host = Inr () \<longleftrightarrow> conf = host"
proof -
  have "mem_bytes32 True 0x01020304 ! 0 = 4" "mem_bytes32 False 0x01020304 ! 0 = 1" by code_simp+
  then show ?thesis by (cases conf; cases host) (simp_all add: test_endianness_def)
qed

definition test_util_routines :: "bool \<Rightarrow> unit res" where
  "test_util_routines le =
     (let x = 0x0102030405060708;
          uch = mem_bytes64 le x ! 0;
          x = ntohll le x in
      rbind (rassert (uch = mem_bytes64 le x ! (if le then 7 else 0))) (\<lambda>_.
      rbind (atoull (Some [49, 50, 51, 52, 53, 54, 55, 56, 57, 49, 50, 51, 52, 53, 54, 55, 56, 57, 49, 50, 51, 52, 0])) (\<lambda>ret.
      rbind (rassert (ret = None)) (\<lambda>_.
      rbind (atoull (Some [49, 56, 52, 52, 54, 55, 52, 52, 48, 55, 51, 55, 48, 57, 53, 53, 49, 54, 49, 53, 0])) (\<lambda>ret.
      case ret of
        None \<Rightarrow> Inl Assert_failed
      | Some v \<Rightarrow>
          (let uch = mem_bytes64 le (word_of_nat v) ! 0 in
           rassert (uch = mem_bytes64 le 18446744073709551615 ! 0)))))))"

text \<open>The first byte of a value is the last one of the swapped value on a little-endian host.\<close>

lemma swapped_byte: "mem_bytes64 le (ntohll le x) ! (if le then 7 else 0) = mem_bytes64 le x ! 0"
proof -
  have "mem_bytes64 le (ntohll le x) = map (\<lambda>i. ucast (drop_bit (56 - 8 * i) x)) [0..<8]"
    using network_bytes [of le x] by (simp add: ntohll_def htonll_def)
  then show ?thesis by (simp add: mem_bytes64_def)
qed

lemma test_numbers:
  "atoull (Some [49, 50, 51, 52, 53, 54, 55, 56, 57, 49, 50, 51, 52, 53, 54, 55, 56, 57, 49, 50, 51, 52, 0]) = Inr None"
  "atoull (Some [49, 56, 52, 52, 54, 55, 52, 52, 48, 55, 51, 55, 48, 57, 53, 53, 49, 54, 49, 53, 0]) = Inr (Some 18446744073709551615)"
  by (simp_all add: atoull_def strtoull_def isspace_def isdigit_def)

lemma test_util_routines_passes: "test_util_routines le = Inr ()"
  using swapped_byte [of le "0x0102030405060708"] by (simp add: test_util_routines_def test_numbers Let_def)

end
