(* ===== verification/Platform.thy ===== *)
theory Platform
  imports Self_Tests
begin

text \<open>
  What the preprocessor decides: the byte order of the host (\<open>src/config.h\<close>) and the polling
  interface (\<open>src/config.h\<close>, \<open>src/event_config.h\<close>, \<open>src/event.c\<close>), as functions of the macros the
  compiler and the system headers define.
\<close>

text \<open>The macros in force with their values; an unknown name in an \<open>#if\<close> counts as 0.\<close>

type_synonym macros = "string \<Rightarrow> int option"

definition is_defined :: "macros \<Rightarrow> string \<Rightarrow> bool" where
  "is_defined d m \<longleftrightarrow> d m \<noteq> None"

definition macro_value :: "macros \<Rightarrow> string \<Rightarrow> int" where
  "macro_value d m = (case d m of None \<Rightarrow> 0 | Some v \<Rightarrow> v)"

datatype byte_order = LC_LITTLE_ENDIAN | LC_BIG_ENDIAN

definition big_cpus :: "string list" where
  "big_cpus = [''__sparc'', ''__sparc__'', ''_POWER'', ''__powerpc__'', ''__ppc__'', ''__hpux'', ''__hppa'', ''_MIPSEB'',
     ''_POWER'', ''__s390__'']"

definition little_cpus :: "string list" where
  "little_cpus = [''__i386__'', ''__alpha__'', ''__ia64'', ''__ia64__'', ''_M_IX86'', ''_M_IA64'', ''_M_ALPHA'', ''__amd64'',
     ''__amd64__'', ''_M_AMD64'', ''__x86_64'', ''__x86_64__'', ''_M_X64'', ''__bfin__'']"

text \<open>\<open>None\<close> is \<open>#error\<close>; the macros are those after \<open>#include <endian.h>\<close>.\<close>

definition config_byte_order :: "macros \<Rightarrow> byte_order option" where
  "config_byte_order d =
     (if is_defined d ''__GLIBC__'' then
        (if macro_value d ''__BYTE_ORDER'' = macro_value d ''__LITTLE_ENDIAN'' then Some LC_LITTLE_ENDIAN
         else if macro_value d ''__BYTE_ORDER'' = macro_value d ''__BIG_ENDIAN'' then Some LC_BIG_ENDIAN
         else None)
      else if is_defined d ''_BIG_ENDIAN'' \<and> \<not> is_defined d ''_LITTLE_ENDIAN'' \<or>
          is_defined d ''__BIG_ENDIAN__'' \<and> \<not> is_defined d ''__LITTLE_ENDIAN__'' then Some LC_BIG_ENDIAN
      else if is_defined d ''_LITTLE_ENDIAN'' \<and> \<not> is_defined d ''_BIG_ENDIAN'' \<or>
          is_defined d ''__LITTLE_ENDIAN__'' \<and> \<not> is_defined d ''__BIG_ENDIAN__'' then Some LC_LITTLE_ENDIAN
      else if list_ex (is_defined d) big_cpus then Some LC_BIG_ENDIAN
      else if list_ex (is_defined d) little_cpus then Some LC_LITTLE_ENDIAN
      else None)"

definition have_epoll :: "macros \<Rightarrow> bool" where
  "have_epoll d \<longleftrightarrow> is_defined d ''__linux__''"

definition have_kqueue :: "macros \<Rightarrow> bool" where
  "have_kqueue d \<longleftrightarrow> is_defined d ''__APPLE__'' \<and> is_defined d ''__MACH__'' \<or> is_defined d ''__FreeBSD__'' \<or>
     is_defined d ''__OpenBSD__'' \<or> is_defined d ''__NetBSD__''"

datatype backend = Epoll_c | Kqueue_c | Select_c

text \<open>The file that \<open>event.c\<close> includes; there is no \<open>select.c\<close>.\<close>

definition event_include :: "macros \<Rightarrow> backend" where
  "event_include d = (if have_epoll d then Epoll_c else if have_kqueue d then Kqueue_c else Select_c)"

text \<open>
  With the C library of GNU the byte order of \<open>config.h\<close> is the one of its \<open>endian.h\<close>, so that
  \<open>test_endianness\<close> passes on a host \<open>le\<close> whose headers say the truth.
\<close>

lemma glibc_byte_order:
  assumes "is_defined d ''__GLIBC__''" and "d ''__LITTLE_ENDIAN'' = Some 1234" and "d ''__BIG_ENDIAN'' = Some 4321"
    and "d ''__BYTE_ORDER'' = Some (if le then 1234 else 4321)"
  shows "config_byte_order d = Some (if le then LC_LITTLE_ENDIAN else LC_BIG_ENDIAN)"
  using assms by (simp add: config_byte_order_def macro_value_def)

lemma glibc_test_endianness:
  assumes "is_defined d ''__GLIBC__''" and "d ''__LITTLE_ENDIAN'' = Some 1234" and "d ''__BIG_ENDIAN'' = Some 4321"
    and "d ''__BYTE_ORDER'' = Some (if le then 1234 else 4321)"
  shows "test_endianness (config_byte_order d = Some LC_LITTLE_ENDIAN) le = Inr ()"
  using glibc_byte_order [OF assms] by (cases le) (simp_all add: test_endianness_passes)

text \<open>Without it, macros that name both orders or none leave the decision to the processor.\<close>

lemma order_by_cpu:
  assumes "\<not> is_defined d ''__GLIBC__''" and "is_defined d ''_BIG_ENDIAN'' = is_defined d ''_LITTLE_ENDIAN''"
    and "is_defined d ''__BIG_ENDIAN__'' = is_defined d ''__LITTLE_ENDIAN__''"
  shows "config_byte_order d =
    (if list_ex (is_defined d) big_cpus then Some LC_BIG_ENDIAN
     else if list_ex (is_defined d) little_cpus then Some LC_LITTLE_ENDIAN else None)"
  using assms by (simp add: config_byte_order_def)

text \<open>Linux takes epoll, the BSDs and macOS kqueue.\<close>

lemma event_include_cases:
  "event_include d = Epoll_c \<longleftrightarrow> is_defined d ''__linux__''"
  "event_include d = Kqueue_c \<longleftrightarrow> \<not> is_defined d ''__linux__'' \<and> have_kqueue d"
  by (simp_all add: event_include_def have_epoll_def)

end
