(* ===== verification/Spec2Isabelle.thy ===== *)
theory Spec2Isabelle
  imports Server_Faults Server_Request Main_Loop Hashtab_Fuel Sockets Slab_Test Platform
begin

text \<open>
  lightcache is a single-threaded key-value cache server. A client connects over a TCP or
  Unix socket and sends requests, a header of 12 bytes followed by a key, data and extra data; the server
  executes the command of a complete request on its hash table and sends a response, a header of
  8 bytes followed by data. This development models the C code under \<open>src/src\<close> and proves it
  correct where it is, and exhibits the faults where it is not.

  \<^bold>\<open>The program and its model.\<close> The parts call each other downwards; each has theories of its own.

  \<^item> The slab allocator, \<open>slab.c\<close>. \<open>Bitset\<close> holds the bit set that marks the free chunks of a slab
    (\<open>set_bit_s\<close>, \<open>clear_bit_s\<close>, \<open>get_bit_s\<close>, \<open>nlz64\<close>, \<open>ff_setbit\<close>), \<open>Ctl_List\<close> the doubly linked lists of
    slab descriptors (\<open>push\<close>, \<open>pop\<close>, \<open>rem\<close>, \<open>rem_and_push\<close>, \<open>pop_and_push\<close>; a pointer to a descriptor is
    an index into the array of descriptors), \<open>Size_Class\<close> the table of size classes and its binary
    search \<open>size_to_cache\<close>, \<open>Slab\<close> the operations \<open>init_cache_manager\<close>, \<open>deinit_cache_manager\<close>,
    \<open>scmalloc\<close> and \<open>scfree\<close> on the record \<open>slab_state\<close>: the globals \<open>cm\<close> and \<open>slab_stats\<close> and the
    blocks held from the C library. \<open>Slab_Inv\<close>, \<open>Slab_Alloc\<close>, \<open>Slab_Release\<close>, \<open>Slab_Init\<close> and
    \<open>Slab_Correct\<close> hold the invariant, its preservation and the properties, \<open>Slab_Capacity\<close> the
    refinement of an allocator that only counts what it can still give out.
  \<^item> The memory interface, \<open>mem.c\<close>, in \<open>Mem\<close>: \<open>li_malloc\<close> and \<open>li_free\<close> on either allocator, with
    the budget \<open>mem_avail\<close>.
  \<^item> The hash table, \<open>hashtab.c\<close>. \<open>Hashtab\<close> holds every operation over an arbitrary allocator,
    buckets being lists of the chained items; \<open>Hashtab_Inv\<close> the invariant and the map a table
    stands for; \<open>Hashtab_Set\<close> and \<open>Hashtab_Grow\<close> insertion and resizing; \<open>Hashtab_Correct\<close>,
    \<open>Hashtab_Props\<close> and \<open>Hashtab_Fuel\<close> the properties.
  \<^item> The utilities: \<open>Util\<close> (byte order and \<open>atoull\<close> of \<open>util.c\<close>), \<open>Daemon\<close> (\<open>sig_handler\<close> and \<open>deamonize\<close>
    of \<open>util.c\<close>), \<open>Sockets\<close> (\<open>socket.c\<close>).
  \<^item> The server, \<open>lightcache.c\<close>, \<open>lightcache.h\<close>, \<open>protocol.h\<close> and \<open>epoll.c\<close>. \<open>Protocol\<close> holds the
    data: headers as the bytes that travel, with the fields read out of them (\<open>key_length\<close>,
    \<open>data_length\<close>, \<open>extra_length\<close>), \<open>request\<close>, \<open>response\<close>, \<open>conn\<close>, \<open>settings\<close>, \<open>stats\<close>. \<open>Server\<close> holds the
    record \<open>server\<close> of all globals and the connection functions; \<open>Command\<close> \<open>execute_cmd\<close>, one
    definition per command; \<open>Events\<close> the reading of requests and writing of responses,
    \<open>event_handler\<close>, \<open>event_process\<close> and the clean-up of idle connections; \<open>Startup\<close> the parts of
    \<open>main\<close>; \<open>Main_Loop\<close> the whole of it (\<open>main_start\<close>, \<open>server_loop\<close>, \<open>main_prog\<close>) over a stream of
    rounds, each with what the kernel reports in it.
    Connections, requests and buffers live at addresses that \<open>li_malloc\<close> gives out. Each step takes
    an \<open>env\<close>, what kernel and C library answer during it: the clock, fresh memory, the system's
    \<open>malloc\<close>, and the results of \<open>read\<close>, \<open>write\<close>, \<open>accept\<close> and \<open>epoll_ctl\<close>. \<open>sv_sent\<close> and \<open>sv_closed\<close>
    record what was written to and closed on each descriptor.
  \<^item> The other back end, \<open>kqueue.c\<close>, in \<open>Backends\<close>; \<open>event_init\<close> and the whole of \<open>event_process\<close>
    of both in \<open>Poll\<close>.
  \<^item> The self tests under \<open>LC_TEST\<close> in \<open>slab.c\<close> and \<open>util.c\<close>, in \<open>Self_Tests\<close> and \<open>Slab_Test\<close>, with
    lemmas that they pass; \<open>Platform\<close> the choices of the preprocessor in \<open>config.h\<close>,
    \<open>event_config.h\<close> and \<open>event.c\<close>.

  \<open>LC_Prelude\<close> holds the faults and the result type \<open>fault + 'a\<close>: a failed assert, a use of a
  freed block or of \<open>NULL\<close>, an index past the end and an uncontrolled write are values \<open>Inl\<close>, and the
  safety theorems state that they do not occur. C integers are words in \<open>Bitset\<close> and \<open>Util\<close> and
  numbers with the wrap-around written out (\<open>u32\<close>, \<open>u64\<close>) elsewhere; \<open>Server_Types\<close> proves that the
  fields of the server keep to their ranges. \<open>Mem_Frame\<close> holds the rules for what a result satisfies
  if there is one.

  \<^bold>\<open>Interfaces.\<close> \<open>allocator\<close> and \<open>total_allocator\<close> (\<open>Mem\<close>) are what the hash table needs of
  \<open>li_malloc\<close>, interpreted on both modes; \<open>bit_set\<close> and \<open>ctl_queue\<close> what the slab allocator needs of its
  bit set and lists; \<open>cache_map\<close> what the server needs of the hash table: a finite map; \<open>event_backend\<close>
  what the server needs of \<open>event_set\<close> and \<open>event_del\<close>, interpreted on epoll and kqueue; \<open>mem_frame\<close>
  what the hash table keeps of its memory, interpreted on the memory limit.

  \<^bold>\<open>The invariant of the server.\<close> \<open>server_inv\<close> (\<open>Server_Inv\<close>) says that every block has exactly one
  owner, the cache, a connection, a request or a response, and that each connection has the
  buffers its state needs. Its variant \<open>inv_x p F\<close> holds while a handler of the connection \<open>p\<close> runs and
  owns the blocks \<open>F\<close>. \<open>Server_Frame\<close> and \<open>Server_Prim\<close> prove a frame rule and the rules of the
  single actions; \<open>Server_Conn\<close>, \<open>Server_Respond\<close>, \<open>Server_Read\<close>, \<open>Server_Cache\<close>, \<open>Server_Exec\<close>,
  \<open>Server_Input\<close>, \<open>Server_Output\<close> and \<open>Server_Safe\<close> build each handler from them, with what a command
  does to the contents of the cache (\<open>meets\<close>, against \<open>spec_get\<close>, \<open>spec_set\<close>, \<open>spec_delete\<close> and
  \<open>spec_flush\<close> on a map from keys to entries). \<open>Server_Props\<close> states the properties, \<open>Server_Request\<close>
  that a whole request is served from its first byte on the wire to its response, \<open>Server_Progress\<close>
  that responses go out, \<open>Server_Faults\<close> what happens outside \<open>good_event\<close>: each of its conditions (no
  read error, a non-empty key without zero bytes, a time-out with data, no other connection sending
  while the cache drops values) is needed, because the code faults without it.

  \<^bold>\<open>Fuel and termination.\<close> \<open>hset\<close> and \<open>_hgrow\<close> call each other; \<open>hset_fuel\<close> counts the nesting.
  \<open>hset\<close> starts with 32; tables have between 2 and 65536 buckets and double at each call, so a nesting
  of 18 is enough, and \<open>Hashtab_Fuel\<close> proves that any larger fuel gives the same result. \<open>sndbuf_loop\<close>
  is a \<open>partial_function\<close> whose value is proved to exist, and so is \<open>use_up\<close> of a self test.
  \<open>server_loop\<close>, the loop of \<open>main\<close>, is a \<open>partial_function\<close> whose value is the fault that ends it; it
  is proved to be \<open>None\<close>, that is, that the loop goes on for ever, for well-behaved events
  (\<open>good_input_stream\<close>, a coinductive predicate on the stream of rounds). All other loops are
  structural or have a measure.

  \<^bold>\<open>Not modelled.\<close> The text of log messages and warnings (\<open>syslog\<close>, \<open>LC_DEBUG\<close>, \<open>fprintf\<close>), and
  the options \<open>setsockopt\<close>, \<open>stat\<close> and \<open>unlink\<close> of the listening socket, which touch nothing the
  server reads. The safety theorems of the server are stated for the slab mode, in which memory is
  limited and addresses are in one area; for the system's \<open>malloc\<close> there are the properties of
  \<open>Mem\<close> and the interpretation of \<open>allocator\<close>.
\<close>

end
